(* ===== verification/Sx_Prelude.thy ===== *)
theory Sx_Prelude
  imports "HOL-Library.Word"
begin

text \<open>
  Shared vocabulary of the development: the machine integer types of the C and
  C++ sources, the alignment helpers that \<^verbatim>\<open>kernel/physical_memory.cpp\<close>,
  \<^verbatim>\<open>kernel/heap.cpp\<close> and \<^verbatim>\<open>kernel/object.cpp\<close> each declare, the scan over a
  fixed table for its first free slot, and the generic facts on lists and words
  the component theories rest on.
\<close>

unbundle bit_operations_syntax

section \<open>Machine integers\<close>

type_synonym u8 = "8 word"
type_synonym u16 = "16 word"
type_synonym u32 = "32 word"
type_synonym u64 = "64 word"

named_theorems table_simps \<open>facts on scans of fixed tables\<close>
named_theorems word_nat \<open>rules that read word arithmetic as arithmetic on naturals\<close>

lemmas word_order_nat = word_le_nat_alt word_less_nat_alt

lemma unat_sub_le [word_nat]: "b \<le> a \<Longrightarrow> unat (a - b) = unat a - unat b"
  by (rule unat_sub)

lemma unat_add_no_wrap [word_nat]:
  fixes a b :: "'a::len word"
  assumes "unat a + unat b < 2 ^ LENGTH('a)"
  shows "unat (a + b) = unat a + unat b"
  using assms by (simp add: unat_add_lem)

lemma unat_mult_no_wrap [word_nat]:
  fixes a b :: "'a::len word"
  assumes "unat a * unat b < 2 ^ LENGTH('a)"
  shows "unat (a * b) = unat a * unat b"
  using assms by (simp add: unat_mult_lem)

lemma unat_le_max: "unat (w :: 'a::len word) \<le> 2 ^ LENGTH('a) - 1"
  using unsigned_less [of w, where ?'a = nat] by linarith

section \<open>Alignment\<close>

definition align_up :: "u64 \<Rightarrow> u64 \<Rightarrow> u64" where
  "align_up value alignment = (let mask = alignment - 1 in (value + mask) AND NOT mask)"

definition align_down :: "u64 \<Rightarrow> u64 \<Rightarrow> u64" where
  "align_down value alignment = value AND NOT (alignment - 1)"

lemma and_not_mask_sub:
  fixes v :: "'a::len word"
  shows "v AND NOT (mask k) = v - take_bit k v"
proof -
  have "v AND NOT (mask k) = push_bit k (drop_bit k v)"
    by (rule bit_word_eqI) (auto simp: bit_simps)
  also have "\<dots> = v - take_bit k v"
    by (metis add_diff_cancel_right' bits_ident)
  finally show ?thesis .
qed

lemma unat_and_not_mask:
  fixes v :: "'a::len word"
  shows "unat (v AND NOT (mask k)) = unat v - unat v mod 2 ^ k"
proof -
  have "unat (take_bit k v) = unat v mod 2 ^ k"
    by (simp only: unsigned_take_bit_eq) (simp add: take_bit_eq_mod)
  moreover from this have "take_bit k v \<le> v"
    by (simp add: word_le_nat_alt)
  ultimately show ?thesis
    by (simp add: and_not_mask_sub unat_sub)
qed

lemma exp_minus_one_mask: "(2 ^ k - 1 :: 'a::len word) = mask k"
  by (simp add: mask_eq_exp_minus_1)

lemma unat_align_down:
  "unat (align_down v (2 ^ k)) = unat v - unat v mod 2 ^ k"
  by (simp add: align_down_def exp_minus_one_mask unat_and_not_mask)

lemma align_down_le: "align_down v (2 ^ k) \<le> v"
  by (simp add: word_le_nat_alt unat_align_down)

lemma align_down_dvd: "2 ^ k dvd unat (align_down v (2 ^ k))"
  by (simp add: unat_align_down)

lemma align_up_eq_down: "align_up v (2 ^ k) = align_down (v + (2 ^ k - 1)) (2 ^ k)"
  by (simp add: align_up_def align_down_def Let_def)

lemma align_up_dvd: "2 ^ k dvd unat (align_up v (2 ^ k))"
  by (simp add: align_up_eq_down align_down_dvd)

lemma nat_round_up_bounds:
  fixes n m :: nat
  assumes "0 < m"
  shows "n \<le> (n + (m - 1)) - (n + (m - 1)) mod m"
    and "(n + (m - 1)) - (n + (m - 1)) mod m < n + m"
proof -
  have "(n + (m - 1)) mod m < m" using assms by simp
  with assms show "n \<le> (n + (m - 1)) - (n + (m - 1)) mod m" by linarith
  show "(n + (m - 1)) - (n + (m - 1)) mod m < n + m" using assms by linarith
qed

lemma unat_exp_minus_one:
  assumes "k < LENGTH('a)"
  shows "unat (2 ^ k - 1 :: 'a::len word) = 2 ^ k - 1"
proof -
  have "(2 ^ k - 1 :: 'a word) = of_nat (2 ^ k - 1)" by (simp add: of_nat_diff)
  moreover have "(2::nat) ^ k - 1 < 2 ^ LENGTH('a)"
    using assms by (meson diff_le_self le_less_trans one_less_numeral_iff power_strict_increasing semiring_norm(76))
  ultimately show ?thesis by (simp only: unat_of_nat) simp
qed

text \<open>Where the addition does not wrap, \<^const>\<open>align_up\<close> returns the least multiple
  of the alignment that is not below its argument.\<close>

lemma unat_align_up:
  assumes "k < 64" and "unat v + (2 ^ k - 1) < 2 ^ 64"
  shows "unat (align_up v (2 ^ k)) = (unat v + (2 ^ k - 1)) - (unat v + (2 ^ k - 1)) mod 2 ^ k"
proof -
  have "unat (2 ^ k - 1 :: u64) = 2 ^ k - 1"
    using assms(1) by (simp add: unat_exp_minus_one)
  then have "unat (v + (2 ^ k - 1)) = unat v + (2 ^ k - 1)"
    using assms(2) by (simp add: unat_add_no_wrap del: diff_is_0_eq)
  then show ?thesis
    by (simp add: align_up_eq_down unat_align_down)
qed

lemma unat_exp:
  assumes "k < LENGTH('a)"
  shows "unat (2 ^ k :: 'a::len word) = 2 ^ k"
proof -
  have "unat (of_nat (2 ^ k) :: 'a word) = 2 ^ k mod 2 ^ LENGTH('a)" by (rule unat_of_nat)
  with assms show ?thesis by simp
qed

lemma next_multiple:
  fixes p q m :: nat
  assumes "m dvd p" and "m dvd q" and "p \<le> q" and "p \<noteq> q" and "p' = p + m"
  shows "p' \<le> q"
proof -
  have "m dvd q - p" and "0 < q - p" using assms by auto
  then have "m \<le> q - p" by (rule dvd_imp_le)
  with assms show ?thesis by linarith
qed

lemma align_up_multiple:
  assumes "k < 64" and "2 ^ k dvd unat v" and "unat v + 2 ^ k \<le> 2 ^ 64"
  shows "align_up v (2 ^ k) = v"
proof -
  obtain q where q: "unat v = 2 ^ k * q" using assms(2) by blast
  have "(unat v + (2 ^ k - 1)) mod 2 ^ k = (2 ^ k - 1) mod 2 ^ k" unfolding q by (rule mod_mult_self4)
  moreover have "unat v + (2 ^ k - 1) < 2 ^ 64" using assms(3) by (simp add: le_diff_conv2)
  ultimately have "unat (align_up v (2 ^ k)) = unat v"
    using unat_align_up [OF assms(1), of v] by simp
  then show ?thesis by (simp add: word_unat_eq_iff)
qed

section \<open>First free slot of a fixed table\<close>

text \<open>
  The loop \<^verbatim>\<open>for (T& x : table) { if (!P(x)) continue; ... return &x; }\<close> picks the
  first index whose entry satisfies \<open>P\<close>.
\<close>

fun find_slot :: "('a \<Rightarrow> bool) \<Rightarrow> 'a list \<Rightarrow> nat option" where
  "find_slot P [] = None"
| "find_slot P (x # xs) = (if P x then Some 0 else map_option Suc (find_slot P xs))"

lemma find_slot_SomeD:
  "find_slot P xs = Some i \<Longrightarrow> i < length xs \<and> P (xs ! i) \<and> (\<forall>j<i. \<not> P (xs ! j))"
proof (induction xs arbitrary: i)
  case Nil
  then show ?case by simp
next
  case (Cons x xs)
  show ?case
  proof (cases "P x")
    case True
    with Cons.prems show ?thesis by simp
  next
    case False
    with Cons.prems obtain k where k: "find_slot P xs = Some k" "i = Suc k" by auto
    with Cons.IH [OF k(1)] False show ?thesis
      by (auto simp: less_Suc_eq_0_disj)
  qed
qed

lemma find_slot_None_iff [table_simps]: "find_slot P xs = None \<longleftrightarrow> (\<forall>x\<in>set xs. \<not> P x)"
  by (induction xs) auto

lemma find_slot_Some_ex: "(\<exists>x\<in>set xs. P x) \<Longrightarrow> \<exists>i. find_slot P xs = Some i"
  using find_slot_None_iff [of P xs] by (cases "find_slot P xs") auto

lemma find_slot_less: "find_slot P xs = Some i \<Longrightarrow> i < length xs"
  using find_slot_SomeD by blast

lemma find_slot_holds: "find_slot P xs = Some i \<Longrightarrow> P (xs ! i)"
  using find_slot_SomeD by blast

lemma find_slot_first: "find_slot P xs = Some i \<Longrightarrow> j < i \<Longrightarrow> \<not> P (xs ! j)"
  using find_slot_SomeD by blast

lemma find_slot_update_none:
  "i < length xs \<Longrightarrow> \<not> P (xs ! i) \<Longrightarrow> \<not> P x \<Longrightarrow> find_slot P (xs[i := x]) = find_slot P xs"
  by (induction xs arbitrary: i) (auto split: nat.splits)

lemma find_slot_eqI:
  assumes "i < length xs" and "P (xs ! i)" and "\<And>j. j < i \<Longrightarrow> \<not> P (xs ! j)"
  shows "find_slot P xs = Some i"
proof -
  have "\<exists>x\<in>set xs. P x"
    by (rule bexI [of _ "xs ! i"]) (simp_all add: assms(1,2))
  from find_slot_Some_ex [OF this] obtain k where k: "find_slot P xs = Some k" by (elim exE)
  from find_slot_SomeD [OF k] have "P (xs ! k)" and least: "\<forall>j<k. \<not> P (xs ! j)" by auto
  have "\<not> k < i"
  proof
    assume "k < i"
    then have "\<not> P (xs ! k)" by (rule assms(3))
    with \<open>P (xs ! k)\<close> show False by (elim notE)
  qed
  moreover have "\<not> i < k" using least assms(2) by auto
  ultimately show ?thesis using k by simp
qed

section \<open>Lists\<close>

lemma count_filter_update:
  assumes "i < length xs"
  shows "length (filter P (xs[i := x])) + (if P (xs ! i) then 1 else 0) =
    length (filter P xs) + (if P x then 1 else 0)"
proof -
  have split: "xs = take i xs @ xs ! i # drop (Suc i) xs"
    by (rule id_take_nth_drop [OF assms])
  have "xs[i := x] = take i xs @ x # drop (Suc i) xs"
    using assms by (simp add: upd_conv_take_nth_drop)
  moreover have "length (filter P xs) = length (filter P (take i xs @ xs ! i # drop (Suc i) xs))"
    using arg_cong [OF split, of "\<lambda>ys. length (filter P ys)"] .
  ultimately show ?thesis by simp
qed

lemma nth_list_update_if: "i < length xs \<Longrightarrow> xs[i := x] ! j = (if j = i then x else xs ! j)"
  by simp

text \<open>Two lists sorted by a strict order with the same elements are equal.\<close>

lemma sorted_wrt_asym_unique:
  assumes asym: "\<And>x y. P x y \<Longrightarrow> Q x \<Longrightarrow> Q y \<Longrightarrow> \<not> P y x"
  shows "sorted_wrt P xs \<Longrightarrow> sorted_wrt P ys \<Longrightarrow> set xs = set ys \<Longrightarrow>
    \<forall>x\<in>set xs. Q x \<Longrightarrow> xs = ys"
proof (induction xs arbitrary: ys)
  case Nil
  then show ?case by simp
next
  case (Cons x xs)
  from Cons.prems(3) obtain y zs where ys: "ys = y # zs" by (cases ys) auto
  have Q: "Q x" "Q y" using Cons.prems(3,4) ys by auto
  have xs: "\<forall>a\<in>set xs. P x a" and zs: "\<forall>a\<in>set zs. P y a" using Cons.prems(1,2) ys by simp_all
  have xy: "x = y"
  proof (rule ccontr)
    assume "x \<noteq> y"
    then have "y \<in> set xs" "x \<in> set zs" using Cons.prems(3) ys by auto
    with xs zs have "P x y" "P y x" by simp_all
    with asym [of x y] Q show False by simp
  qed
  have "\<not> P x x" using asym [of x x] Q by blast
  with xs zs xy have "x \<notin> set xs" "x \<notin> set zs" by blast+
  with Cons.prems(3) ys xy have "set xs = set zs" by auto
  with Cons.IH [of zs] Cons.prems(1,2,4) ys xy show ?case by simp
qed

lemma sorted_wrt_disjoint_concat:
  assumes "sorted_wrt (\<lambda>a b. S a \<inter> S b = {}) as"
    and "\<And>a. a \<in> set as \<Longrightarrow> sorted_wrt (\<lambda>x y. F x \<inter> F y = {}) (f a)"
    and "\<And>a x. a \<in> set as \<Longrightarrow> x \<in> set (f a) \<Longrightarrow> F x \<subseteq> S a"
  shows "sorted_wrt (\<lambda>x y. F x \<inter> F y = {}) (concat (map f as))"
  using assms
proof (induction as)
  case (Cons a as)
  have "F x \<inter> F y = {}" if "x \<in> set (f a)" "b \<in> set as" "y \<in> set (f b)" for x y b
  proof -
    have "F x \<subseteq> S a" "F y \<subseteq> S b" using that Cons.prems(3) by simp_all
    moreover have "S a \<inter> S b = {}" using that(2) Cons.prems(1) by simp
    ultimately show ?thesis by blast
  qed
  with Cons show ?case by (auto simp: sorted_wrt_append)
qed simp

lemma sum_card_disjoint_le:
  fixes F :: "'a \<Rightarrow> nat set"
  assumes "sorted_wrt (\<lambda>x y. F x \<inter> F y = {}) xs" and "\<And>x. x \<in> set xs \<Longrightarrow> F x \<subseteq> {..<N}"
  shows "sum_list (map (card \<circ> F) xs) \<le> N"
proof -
  have fin: "finite (F x)" if "x \<in> set xs" for x
    using assms(2) [OF that] finite_subset by blast
  have "sum_list (map (card \<circ> F) xs) = card (\<Union>x\<in>set xs. F x)"
    using assms(1) fin
  proof (induction xs)
    case (Cons x xs)
    have "F x \<inter> (\<Union>y\<in>set xs. F y) = {}" using Cons.prems(1) by auto
    moreover have "finite (\<Union>y\<in>set xs. F y)" "finite (F x)" using Cons.prems(2) by auto
    ultimately have "card (F x \<union> (\<Union>y\<in>set xs. F y)) = card (F x) + card (\<Union>y\<in>set xs. F y)"
      by (intro card_Un_disjoint)
    with Cons show ?case by simp
  qed simp
  also have "\<dots> \<le> card {..<N}" using assms(2) by (intro card_mono) auto
  finally show ?thesis by simp
qed

section \<open>Ring buffers\<close>

text \<open>The \<open>n\<close> entries of a ring of \<open>length buf\<close> slots that start at slot \<open>h\<close>.\<close>

definition ring_list :: "nat \<Rightarrow> nat \<Rightarrow> 'a list \<Rightarrow> 'a list" where
  "ring_list h n buf = map (\<lambda>k. buf ! ((h + k) mod length buf)) [0..<n]"

lemma length_ring_list [simp]: "length (ring_list h n buf) = n"
  by (simp add: ring_list_def)

lemma ring_list_0 [simp]: "ring_list h 0 buf = []"
  by (simp add: ring_list_def)

lemma mod_add_inj:
  fixes h i j L :: nat
  assumes "(h + i) mod L = (h + j) mod L" and "i < L" and "j < L"
  shows "i = j"
proof -
  have *: "x = y" if "(h + x) mod L = (h + y) mod L" "x \<le> y" "y < L" for x y
  proof -
    have "L dvd (h + y) - (h + x)" using that by (subst mod_eq_dvd_iff_nat [symmetric]) auto
    then have "L dvd y - x" by simp
    moreover have "y - x < L" using that by simp
    ultimately have "y - x = 0" by (metis dvd_imp_le leD neq0_conv)
    with that show ?thesis by simp
  qed
  show ?thesis using assms * [of i j] * [of j i] by (cases "i \<le> j") auto
qed

lemma ring_list_snoc:
  assumes "n < length buf"
  shows "ring_list h (Suc n) (buf[(h + n) mod length buf := x]) = ring_list h n buf @ [x]"
proof -
  let ?L = "length buf"
  have L: "0 < ?L" using assms by linarith
  have "buf[(h + n) mod ?L := x] ! ((h + k) mod ?L) = buf ! ((h + k) mod ?L)" if "k < n" for k
    using that assms mod_add_inj [of h k ?L n] by (intro nth_list_update_neq) auto
  moreover have "(h + n) mod ?L < ?L" using L by simp
  ultimately show ?thesis by (simp add: ring_list_def)
qed

lemma ring_list_Cons:
  assumes "0 < n" and "h < length buf"
  shows "ring_list h n buf = buf ! h # ring_list ((h + 1) mod length buf) (n - 1) buf"
proof -
  obtain m where n: "n = Suc m" using assms(1) by (cases n) auto
  have "((h + 1) mod length buf + k) mod length buf = (h + Suc k) mod length buf" for k
    by (simp add: mod_add_left_eq)
  then show ?thesis
    using assms(2) by (simp add: ring_list_def n upt_conv_Cons map_Suc_upt [symmetric] o_def del: upt_Suc)
qed

lemma ring_list_update_outside:
  assumes "n \<le> m" and "m < length buf"
  shows "ring_list h n (buf[(h + m) mod length buf := x]) = ring_list h n buf"
proof -
  have "buf[(h + m) mod length buf := x] ! ((h + k) mod length buf) = buf ! ((h + k) mod length buf)"
    if "k < n" for k
    using that assms mod_add_inj [of h k "length buf" m] by (intro nth_list_update_neq) auto
  then show ?thesis by (simp add: ring_list_def)
qed

lemma ring_list_drop_first:
  assumes "0 < n" and "n \<le> length buf" and "h < length buf"
  shows "ring_list ((h + 1) mod length buf) (n - 1) (buf[h := z]) = tl (ring_list h n buf)"
proof -
  have "((h + 1) mod length buf + (length buf - 1)) mod length buf = (h + 1 + (length buf - 1)) mod length buf"
    by (simp add: mod_add_left_eq)
  also have "h + 1 + (length buf - 1) = h + length buf" using assms by linarith
  also have "(h + length buf) mod length buf = h" using assms by simp
  finally have "buf[h := z] = buf[((h + 1) mod length buf + (length buf - 1)) mod length buf := z]" by simp
  then have "ring_list ((h + 1) mod length buf) (n - 1) (buf[h := z]) = ring_list ((h + 1) mod length buf) (n - 1) buf"
    using ring_list_update_outside [of "n - 1" "length buf - 1" buf "(h + 1) mod length buf" z] assms by auto
  with ring_list_Cons [OF assms(1,3)] show ?thesis by simp
qed

section \<open>Error numbers\<close>

text \<open>The ABI's error numbers; a call returns them negated.\<close>

definition SX_EPERM :: int where "SX_EPERM = 1"
definition SX_ENOENT :: int where "SX_ENOENT = 2"
definition SX_EIO :: int where "SX_EIO = 5"
definition SX_EBADF :: int where "SX_EBADF = 9"
definition SX_EAGAIN :: int where "SX_EAGAIN = 11"
definition SX_ENOMEM :: int where "SX_ENOMEM = 12"
definition SX_EBUSY :: int where "SX_EBUSY = 16"
definition SX_EEXIST :: int where "SX_EEXIST = 17"
definition SX_ENODEV :: int where "SX_ENODEV = 19"
definition SX_EINVAL :: int where "SX_EINVAL = 22"
definition SX_EPIPE :: int where "SX_EPIPE = 32"
definition SX_ETIMEDOUT :: int where "SX_ETIMEDOUT = 110"

definition negative_error :: "int \<Rightarrow> int" where "negative_error code = - code"

lemmas sx_consts = SX_EPERM_def SX_ENOENT_def SX_EIO_def SX_EBADF_def SX_EAGAIN_def SX_ENOMEM_def SX_EBUSY_def SX_EEXIST_def
  SX_ENODEV_def SX_EINVAL_def SX_EPIPE_def SX_ETIMEDOUT_def negative_error_def

end
