(* ===== verification/Physical_Memory.thy ===== *)
theory Physical_Memory
  imports Sx_Prelude
begin

text \<open>
  The physical page allocator, \<^verbatim>\<open>kernel/physical_memory.cpp\<close>. Free memory is a
  table of at most 2048 half-open regions kept in address order. The live prefix
  \<^verbatim>\<open>g_regions[0 .. g_region_count)\<close> is the list \<open>g_regions\<close> of the state, so
  \<^verbatim>\<open>g_region_count\<close> is its length; the zeroed tail of the array is never read.
  The abstract view is the set of free addresses, \<open>free_set\<close>.
\<close>

section \<open>State and operations\<close>

definition kMinimumPhysicalAddress :: u64 where "kMinimumPhysicalAddress = 0x100000"
definition kMaxFreeRegions :: nat where "kMaxFreeRegions = 2048"
definition kPageSize :: u64 where "kPageSize = 4096"

record region =
  r_base :: u64
  r_end :: u64

record pm_state =
  g_regions :: "region list"
  g_hhdm_offset :: u64
  g_total_pages :: u64
  g_ready :: bool

record page_allocation =
  physical_address :: u64
  virtual_address :: u64
  page_count :: u64

datatype memory_region_type =
    usable | reserved | acpi_reclaimable | acpi_nvs | bad_memory
  | bootloader_reclaimable | executable_and_modules | framebuffer | reserved_mapped | unknown

record memory_region =
  mr_base :: u64
  mr_length :: u64
  mr_type :: memory_region_type

definition reset_state :: pm_state where
  "reset_state = \<lparr>g_regions = [], g_hhdm_offset = 0, g_total_pages = 0, g_ready = False\<rparr>"

definition remove_region :: "nat \<Rightarrow> region list \<Rightarrow> region list" where
  "remove_region index rs =
     (if length rs \<le> index then rs else take index rs @ drop (Suc index) rs)"

definition insert_region :: "nat \<Rightarrow> u64 \<Rightarrow> u64 \<Rightarrow> region list \<Rightarrow> region list option" where
  "insert_region index b e rs =
     (if e \<le> b \<or> length rs = kMaxFreeRegions \<or> length rs < index then None
      else Some (take index rs @ \<lparr>r_base = b, r_end = e\<rparr> # drop index rs))"

text \<open>The body both loops of \<^verbatim>\<open>merge_neighbors\<close> share: region \<open>i + 1\<close> is folded
  into region \<open>i\<close> and removed.\<close>

definition fold_into :: "nat \<Rightarrow> region list \<Rightarrow> region list" where
  "fold_into i rs =
     remove_region (Suc i)
       (if r_end (rs ! i) < r_end (rs ! Suc i)
        then rs[i := (rs ! i)\<lparr>r_end := r_end (rs ! Suc i)\<rparr>] else rs)"

fun merge_left :: "nat \<Rightarrow> region list \<Rightarrow> nat \<times> region list" where
  "merge_left 0 rs = (0, rs)"
| "merge_left (Suc i) rs =
     (if r_base (rs ! Suc i) \<le> r_end (rs ! i) then merge_left i (fold_into i rs)
      else (Suc i, rs))"

lemma length_fold_into: "Suc i < length rs \<Longrightarrow> length (fold_into i rs) = length rs - 1"
  by (simp add: fold_into_def remove_region_def)

function merge_right :: "nat \<Rightarrow> region list \<Rightarrow> region list" where
  "merge_right i rs =
     (if Suc i < length rs \<and> r_base (rs ! Suc i) \<le> r_end (rs ! i)
      then merge_right i (fold_into i rs) else rs)"
  by pat_completeness auto
termination
  by (relation "measure (\<lambda>(i, rs). length rs)") (auto simp: length_fold_into)

declare merge_right.simps [simp del]

definition merge_neighbors :: "nat \<Rightarrow> region list \<Rightarrow> region list" where
  "merge_neighbors index rs =
     (if length rs \<le> index then rs
      else (case merge_left index rs of (j, rs') \<Rightarrow> merge_right j rs'))"

fun insertion_index :: "u64 \<Rightarrow> region list \<Rightarrow> nat" where
  "insertion_index b [] = 0"
| "insertion_index b (r # rs) = (if r_base r < b then Suc (insertion_index b rs) else 0)"

definition add_free_region :: "u64 \<Rightarrow> u64 \<Rightarrow> region list \<Rightarrow> bool \<times> region list" where
  "add_free_region b e rs =
     (if e \<le> b then (False, rs)
      else (let index = insertion_index b rs in
        case insert_region index b e rs of
          None \<Rightarrow> (False, rs)
        | Some rs' \<Rightarrow> (True, merge_neighbors index rs')))"

text \<open>The memory-map loop of \<^verbatim>\<open>initialize\<close>: \<open>None\<close> is the early return after
  \<^verbatim>\<open>reset_state\<close> when the region table overflows.\<close>

fun scan_memory_map :: "memory_region list \<Rightarrow> pm_state \<Rightarrow> pm_state option" where
  "scan_memory_map [] st = Some st"
| "scan_memory_map (entry # entries) st =
     (if mr_type entry \<noteq> usable then scan_memory_map entries st
      else
        let start0 = align_up (mr_base entry) kPageSize;
            e = align_down (mr_base entry + mr_length entry) kPageSize;
            start = (if start0 < kMinimumPhysicalAddress then kMinimumPhysicalAddress else start0)
        in if e \<le> start then scan_memory_map entries st
           else (case add_free_region start e (g_regions st) of
               (False, _) \<Rightarrow> None
             | (True, rs) \<Rightarrow> scan_memory_map entries
                 (st\<lparr>g_regions := rs, g_total_pages := g_total_pages st + (e - start) div kPageSize\<rparr>)))"

definition pm_initialize :: "u64 \<Rightarrow> memory_region list \<Rightarrow> pm_state" where
  "pm_initialize hhdm_offset memory_map =
     (if hhdm_offset = 0 then reset_state
      else (case scan_memory_map memory_map (reset_state\<lparr>g_hhdm_offset := hhdm_offset\<rparr>) of
          None \<Rightarrow> reset_state
        | Some st \<Rightarrow> st\<lparr>g_ready := (g_regions st \<noteq> [] \<and> g_total_pages st \<noteq> 0)\<rparr>))"

definition allocate_contiguous_pages :: "u64 \<Rightarrow> pm_state \<Rightarrow> page_allocation option \<times> pm_state" where
  "allocate_contiguous_pages n st =
     (if \<not> g_ready st \<or> n = 0 then (None, st)
      else
        let byte_count = n * kPageSize in
        case find_slot (\<lambda>r. \<not> r_end r - r_base r < byte_count) (g_regions st) of
          None \<Rightarrow> (None, st)
        | Some index \<Rightarrow>
            let r = g_regions st ! index;
                allocation = \<lparr>physical_address = r_base r,
                  virtual_address = r_base r + g_hhdm_offset st, page_count = n\<rparr>;
                r' = r\<lparr>r_base := r_base r + byte_count\<rparr>;
                rs = (g_regions st)[index := r']
            in (Some allocation,
                st\<lparr>g_regions := (if r_base r' = r_end r' then remove_region index rs else rs)\<rparr>))"

definition allocate_page :: "pm_state \<Rightarrow> page_allocation option \<times> pm_state" where
  "allocate_page st = allocate_contiguous_pages 1 st"

definition free_pages :: "u64 \<Rightarrow> u64 \<Rightarrow> pm_state \<Rightarrow> bool \<times> pm_state" where
  "free_pages pa n st =
     (if \<not> g_ready st \<or> n = 0 \<or> pa AND (kPageSize - 1) \<noteq> 0 then (False, st)
      else
        let byte_count = n * kPageSize in
        if byte_count = 0 then (False, st)
        else (case add_free_region pa (pa + byte_count) (g_regions st) of
            (ok, rs) \<Rightarrow> (ok, st\<lparr>g_regions := rs\<rparr>)))"

definition free_allocation :: "page_allocation \<Rightarrow> pm_state \<Rightarrow> bool \<times> pm_state" where
  "free_allocation a st = free_pages (physical_address a) (page_count a) st"

definition free_page_count :: "pm_state \<Rightarrow> u64" where
  "free_page_count st =
     (if \<not> g_ready st then 0
      else foldl (\<lambda>pages r. pages + (r_end r - r_base r) div kPageSize) 0 (g_regions st))"

section \<open>Well-formed region tables and the set of free addresses\<close>

definition region_set :: "region \<Rightarrow> u64 set" where
  "region_set r = {r_base r ..< r_end r}"

definition free_set :: "region list \<Rightarrow> u64 set" where
  "free_set rs = (\<Union>r\<in>set rs. region_set r)"

text \<open>Regions are not empty, in address order, and separated by a gap.\<close>

definition regions_wf :: "region list \<Rightarrow> bool" where
  "regions_wf rs \<longleftrightarrow> (\<forall>r\<in>set rs. r_base r < r_end r) \<and> sorted_wrt (\<lambda>a b. r_end a < r_base b) rs"

definition regions_aligned :: "region list \<Rightarrow> bool" where
  "regions_aligned rs \<longleftrightarrow> (\<forall>r\<in>set rs. 4096 dvd unat (r_base r) \<and> 4096 dvd unat (r_end r))"

definition pm_inv :: "pm_state \<Rightarrow> bool" where
  "pm_inv st \<longleftrightarrow> regions_wf (g_regions st) \<and> regions_aligned (g_regions st) \<and>
     length (g_regions st) \<le> kMaxFreeRegions"


section \<open>Coalescing: the loops as a fold over the regions after the new one\<close>

text \<open>The functional form of the right-hand loop: the new region absorbs every
  following region it reaches.\<close>

fun absorb :: "region \<Rightarrow> region list \<Rightarrow> region list" where
  "absorb n [] = [n]"
| "absorb n (r # rs) =
     (if r_base r \<le> r_end n then absorb (n\<lparr>r_end := max (r_end n) (r_end r)\<rparr>) rs
      else n # r # rs)"

lemma fold_into_append:
  "fold_into (length L) (L @ a # b # R) = L @ a\<lparr>r_end := max (r_end a) (r_end b)\<rparr> # R"
proof -
  have "a\<lparr>r_end := r_end a\<rparr> = a" by simp
  then show ?thesis
    by (auto simp: fold_into_def remove_region_def nth_append list_update_append max_def)
qed

lemma merge_right_absorb: "merge_right (length L) (L @ n # R) = L @ absorb n R"
proof (induction R arbitrary: n)
  case Nil
  then show ?case by (subst merge_right.simps) simp
next
  case (Cons r R)
  then show ?case
    by (subst merge_right.simps) (simp add: nth_append fold_into_append)
qed

lemma merge_left_absorb:
  assumes "regions_wf L" and "L \<noteq> [] \<Longrightarrow> r_base (last L) < r_base n"
  shows "merge_left (length L) (L @ n # R) =
    (if L \<noteq> [] \<and> r_base n \<le> r_end (last L)
     then (length L - 1, butlast L @ (last L)\<lparr>r_end := max (r_end (last L)) (r_end n)\<rparr> # R)
     else (length L, L @ n # R))"
proof (cases L rule: rev_cases)
  case Nil
  then show ?thesis by simp
next
  case (snoc L' a)
  have step: "fold_into (length L') (L' @ a # n # R) = L' @ a\<lparr>r_end := max (r_end a) (r_end n)\<rparr> # R"
    by (rule fold_into_append)
  have stop: "merge_left (length L') (L' @ c # R) = (length L', L' @ c # R)"
    if "r_base c = r_base a" for c
  proof (cases L' rule: rev_cases)
    case Nil
    then show ?thesis by simp
  next
    case (snoc K k)
    with assms(1) \<open>L = L' @ [a]\<close> have "r_end k < r_base a"
      by (simp add: regions_wf_def sorted_wrt_append)
    with that have "\<not> r_base c \<le> r_end k" by simp
    with snoc show ?thesis by (simp add: nth_append)
  qed
  show ?thesis
    using snoc step stop [of "a\<lparr>r_end := max (r_end a) (r_end n)\<rparr>"] by (simp add: nth_append)
qed

lemma insertion_index_split:
  assumes "regions_wf rs"
  shows "\<exists>L R. rs = L @ R \<and> insertion_index b rs = length L \<and>
     (\<forall>r\<in>set L. r_base r < b) \<and> (\<forall>r\<in>set R. b \<le> r_base r)"
  using assms
proof (induction rs)
  case Nil
  then show ?case by simp
next
  case (Cons r rs)
  then have wf: "regions_wf rs" by (simp add: regions_wf_def)
  show ?case
  proof (cases "r_base r < b")
    case True
    from Cons.IH [OF wf] obtain L R where "rs = L @ R" "insertion_index b rs = length L"
      "\<forall>r\<in>set L. r_base r < b" "\<forall>r\<in>set R. b \<le> r_base r" by blast
    with True show ?thesis by (intro exI [of _ "r # L"] exI [of _ R]) simp
  next
    case False
    have "b \<le> r_base x" if "x \<in> set rs" for x
      using that Cons.prems False by (fastforce simp: regions_wf_def)
    with False show ?thesis by (intro exI [of _ "[]"] exI [of _ "r # rs"]) auto
  qed
qed

lemma absorb_wf:
  assumes "regions_wf R" and "r_base n < r_end n" and "\<forall>r\<in>set R. r_base n \<le> r_base r"
  shows "regions_wf (absorb n R)"
  using assms
proof (induction R arbitrary: n)
  case Nil
  then show ?case by (simp add: regions_wf_def)
next
  case (Cons r R)
  show ?case
  proof (cases "r_base r \<le> r_end n")
    case True
    have "regions_wf (absorb (n\<lparr>r_end := max (r_end n) (r_end r)\<rparr>) R)"
      using Cons.prems by (intro Cons.IH) (auto simp: regions_wf_def less_max_iff_disj)
    with True show ?thesis by simp
  next
    case False
    then have "r_end n < r_base x" if "x \<in> set (r # R)" for x
      using that Cons.prems(1) by (fastforce simp: regions_wf_def)
    with False Cons.prems show ?thesis by (simp add: regions_wf_def)
  qed
qed

lemma absorb_bases:
  "x \<in> set (absorb n R) \<Longrightarrow> r_base x = r_base n \<or> x \<in> set R"
proof (induction R arbitrary: n)
  case Nil
  then show ?case by simp
next
  case (Cons r R)
  then show ?case
    using Cons.IH [of "n\<lparr>r_end := max (r_end n) (r_end r)\<rparr>"] by (auto split: if_splits)
qed

lemma absorb_free_set:
  assumes "\<forall>r\<in>set R. r_base n \<le> r_base r \<and> r_base r < r_end r" and "r_base n < r_end n"
  shows "free_set (absorb n R) = region_set n \<union> free_set R"
  using assms
proof (induction R arbitrary: n)
  case Nil
  then show ?case by (simp add: free_set_def)
next
  case (Cons r R)
  show ?case
  proof (cases "r_base r \<le> r_end n")
    case True
    let ?m = "n\<lparr>r_end := max (r_end n) (r_end r)\<rparr>"
    have "region_set ?m = region_set n \<union> region_set r"
      using True Cons.prems by (auto simp: region_set_def less_max_iff_disj)
    moreover have "free_set (absorb ?m R) = region_set ?m \<union> free_set R"
      using Cons.prems by (intro Cons.IH) (auto simp: less_max_iff_disj)
    ultimately show ?thesis using True by (auto simp: free_set_def)
  next
    case False
    then show ?thesis by (auto simp: free_set_def)
  qed
qed

lemma absorb_aligned:
  "regions_aligned (n # R) \<Longrightarrow> regions_aligned (absorb n R)"
proof (induction R arbitrary: n)
  case Nil
  then show ?case by simp
next
  case (Cons r R)
  have "regions_aligned (n\<lparr>r_end := max (r_end n) (r_end r)\<rparr> # R)"
    using Cons.prems by (simp add: regions_aligned_def max_def)
  then show ?case
    using Cons.IH Cons.prems by simp
qed

lemma length_absorb: "length (absorb n R) \<le> Suc (length R)"
  by (induction R arbitrary: n) (auto intro: le_SucI)

lemma free_set_append: "free_set (xs @ ys) = free_set xs \<union> free_set ys"
  by (auto simp: free_set_def)

lemma regions_wf_append:
  "regions_wf (xs @ ys) \<longleftrightarrow> regions_wf xs \<and> regions_wf ys \<and>
     (\<forall>x\<in>set xs. \<forall>y\<in>set ys. r_end x < r_base y)"
  by (auto simp: regions_wf_def sorted_wrt_append)

lemma regions_aligned_append:
  "regions_aligned (xs @ ys) \<longleftrightarrow> regions_aligned xs \<and> regions_aligned ys"
  by (auto simp: regions_aligned_def)

lemma regions_wf_ends_below:
  assumes "regions_wf L" and "L \<noteq> [] \<Longrightarrow> r_end (last L) < b" and "r \<in> set L"
  shows "r_end r < b"
proof (cases L rule: rev_cases)
  case Nil
  with assms(3) show ?thesis by simp
next
  case (snoc K a)
  with assms(2) have a: "r_end a < b" by simp
  have "r_base a < r_end a" and "\<forall>k\<in>set K. r_end k < r_base a"
    using assms(1) snoc by (auto simp: regions_wf_def sorted_wrt_append)
  with a snoc assms(3) show ?thesis by force
qed

text \<open>The whole operation on a table with room: its result, as an \<^const>\<open>absorb\<close>.\<close>

lemma add_free_region_absorb:
  assumes wf: "regions_wf rs" and room: "length rs < kMaxFreeRegions" and be: "b < e"
  obtains L R n where "add_free_region b e rs = (True, L @ absorb n R)"
    and "regions_wf (L @ R)" and "r_base n < r_end n"
    and "\<forall>r\<in>set L. r_end r < r_base n" and "\<forall>r\<in>set R. r_base n \<le> r_base r"
    and "free_set L \<union> region_set n \<union> free_set R = free_set rs \<union> {b..<e}"
    and "length L + length R \<le> length rs"
    and "set L \<subseteq> set rs" and "set R \<subseteq> set rs"
    and "r_base n = b \<or> r_base n \<in> r_base ` set rs" and "r_end n = e \<or> r_end n \<in> r_end ` set rs"
proof -
  from insertion_index_split [OF wf] obtain L R where split: "rs = L @ R"
    and idx: "insertion_index b rs = length L"
    and left: "\<forall>r\<in>set L. r_base r < b" and right: "\<forall>r\<in>set R. b \<le> r_base r"
    by blast
  let ?n = "\<lparr>r_base = b, r_end = e\<rparr>"
  have wfL: "regions_wf L" and wfR: "regions_wf R"
    using wf split by (auto simp: regions_wf_append)
  have add: "add_free_region b e rs = (True, merge_neighbors (length L) (L @ ?n # R))"
    using be room split idx
    by (auto simp: add_free_region_def insert_region_def Let_def)
  have ml: "merge_left (length L) (L @ ?n # R) =
    (if L \<noteq> [] \<and> b \<le> r_end (last L)
     then (length L - 1, butlast L @ (last L)\<lparr>r_end := max (r_end (last L)) e\<rparr> # R)
     else (length L, L @ ?n # R))"
    using merge_left_absorb [OF wfL, of ?n R] left by simp
  show ?thesis
  proof (cases "L \<noteq> [] \<and> b \<le> r_end (last L)")
    case True
    let ?a = "last L" and ?K = "butlast L"
    let ?m = "?a\<lparr>r_end := max (r_end ?a) e\<rparr>"
    have L: "L = ?K @ [?a]" using True by simp
    have res: "add_free_region b e rs = (True, ?K @ absorb ?m R)"
      using add ml True merge_right_absorb [of ?K ?m R]
      by (simp add: merge_neighbors_def)
    have a_in: "?a \<in> set L" using True by simp
    have wfKR: "regions_wf (?K @ R)"
      using wf unfolding split by (subst (asm) L) (auto simp: regions_wf_def sorted_wrt_append)
    have ne: "r_base ?a < r_end ?a" using wfL a_in by (simp add: regions_wf_def)
    have sep: "\<forall>r\<in>set ?K. r_end r < r_base ?a"
      using wfL by (subst (asm) L) (simp add: regions_wf_append)
    have "r_base ?a < b" using left a_in by simp
    then have sets: "region_set ?m = region_set ?a \<union> {b..<e}"
      using True be ne by (auto simp: region_set_def less_max_iff_disj)
    have fL: "free_set L = free_set ?K \<union> region_set ?a"
      by (subst L) (simp add: free_set_append free_set_def Un_commute)
    show ?thesis
    proof (rule that [OF res wfKR])
      show "r_base ?m < r_end ?m" using ne by (simp add: less_max_iff_disj)
      show "\<forall>r\<in>set ?K. r_end r < r_base ?m" using sep by simp
      show "\<forall>r\<in>set R. r_base ?m \<le> r_base r" using left a_in right by force
      show "free_set ?K \<union> region_set ?m \<union> free_set R = free_set rs \<union> {b..<e}"
        using sets fL split by (auto simp: free_set_append)
      show "length ?K + length R \<le> length rs" using split by simp
      show "set ?K \<subseteq> set rs" using split by (auto dest: in_set_butlastD)
      show "set R \<subseteq> set rs" using split by simp
      show "r_base ?m = b \<or> r_base ?m \<in> r_base ` set rs" using a_in split by auto
      show "r_end ?m = e \<or> r_end ?m \<in> r_end ` set rs"
        using a_in split by (auto simp: max_def)
    qed
  next
    case False
    have res: "add_free_region b e rs = (True, L @ absorb ?n R)"
      using add ml False merge_right_absorb [of L ?n R] by (simp add: merge_neighbors_def)
    have sep: "r_end r < b" if "r \<in> set L" for r
      using regions_wf_ends_below [OF wfL _ that, of b] False by auto
    show ?thesis
    proof (rule that [OF res])
      show "regions_wf (L @ R)" using wf split by simp
      show "free_set L \<union> region_set ?n \<union> free_set R = free_set rs \<union> {b..<e}"
        using split by (auto simp: free_set_append region_set_def)
    qed (use be sep right split in auto)
  qed
qed


lemma add_free_region_correct:
  assumes wf: "regions_wf rs" and room: "length rs < kMaxFreeRegions" and be: "b < e"
  shows "\<exists>rs'. add_free_region b e rs = (True, rs') \<and> regions_wf rs' \<and>
    free_set rs' = free_set rs \<union> {b..<e} \<and> length rs' \<le> Suc (length rs)"
proof -
  from add_free_region_absorb [OF assms] obtain L R n where
    res: "add_free_region b e rs = (True, L @ absorb n R)"
    and wfLR: "regions_wf (L @ R)" and ne: "r_base n < r_end n"
    and left: "\<forall>r\<in>set L. r_end r < r_base n" and right: "\<forall>r\<in>set R. r_base n \<le> r_base r"
    and fs: "free_set L \<union> region_set n \<union> free_set R = free_set rs \<union> {b..<e}"
    and len: "length L + length R \<le> length rs"
    by metis
  have wfR: "regions_wf R" and wfL: "regions_wf L" using wfLR by (auto simp: regions_wf_append)
  have wfA: "regions_wf (absorb n R)" using wfR ne right by (rule absorb_wf)
  have "r_end x < r_base y" if "x \<in> set L" "y \<in> set (absorb n R)" for x y
    using absorb_bases [OF that(2)] that(1) left right by force
  then have "regions_wf (L @ absorb n R)"
    using wfL wfA by (simp add: regions_wf_append)
  moreover have "free_set (absorb n R) = region_set n \<union> free_set R"
    using wfR ne right by (intro absorb_free_set) (auto simp: regions_wf_def)
  moreover have "length (L @ absorb n R) \<le> Suc (length rs)"
    using length_absorb [of n R] len by simp
  ultimately show ?thesis using res fs by (auto simp: free_set_append)
qed

lemma add_free_region_aligned:
  assumes wf: "regions_wf rs" and room: "length rs < kMaxFreeRegions" and be: "b < e"
    and al: "regions_aligned rs" "4096 dvd unat b" "4096 dvd unat e"
  shows "regions_aligned (snd (add_free_region b e rs))"
proof -
  from add_free_region_absorb [OF wf room be] obtain L R n where
    res: "add_free_region b e rs = (True, L @ absorb n R)"
    and sub: "set L \<subseteq> set rs" "set R \<subseteq> set rs"
    and nb: "r_base n = b \<or> r_base n \<in> r_base ` set rs"
    and ne: "r_end n = e \<or> r_end n \<in> r_end ` set rs"
    by metis
  have "regions_aligned (n # R)" "regions_aligned L"
    using al sub nb ne by (auto simp: regions_aligned_def)
  then show ?thesis using res absorb_aligned by (simp add: regions_aligned_append)
qed

lemma add_free_region_full: "length rs = kMaxFreeRegions \<Longrightarrow> add_free_region b e rs = (False, rs)"
  by (simp add: add_free_region_def insert_region_def Let_def)

lemma add_free_region_False: "add_free_region b e rs = (False, rs') \<Longrightarrow> rs' = rs"
  by (auto simp: add_free_region_def Let_def split: if_splits option.splits)

lemma sorted_wrt_trichotomy:
  "sorted_wrt P xs \<Longrightarrow> x \<in> set xs \<Longrightarrow> y \<in> set xs \<Longrightarrow> y = x \<or> P y x \<or> P x y"
  by (induction xs) auto

section \<open>Allocation\<close>

definition alloc_extent :: "page_allocation \<Rightarrow> u64 set" where
  "alloc_extent a = {physical_address a ..< physical_address a + page_count a * kPageSize}"

lemma unat_page_bytes: "unat n * 4096 < 2 ^ 64 \<Longrightarrow> unat (n * kPageSize) = unat n * 4096"
  by (simp add: kPageSize_def unat_mult_no_wrap)

lemma region_split_set:
  assumes "regions_wf (L @ r # R)" and "r_base r \<le> m" and "m \<le> r_end r"
  shows "free_set (L @ r\<lparr>r_base := m\<rparr> # R) = free_set (L @ r # R) - {r_base r ..< m}"
    and "{r_base r ..< m} \<subseteq> free_set (L @ r # R)"
proof -
  have 1: "x < r_base r" if "x \<in> free_set L" for x
  proof -
    from that obtain q where "q \<in> set L" "x < r_end q" by (auto simp: free_set_def region_set_def)
    moreover from this(1) have "r_end q < r_base r" using assms(1) by (simp add: regions_wf_append)
    ultimately show ?thesis by simp
  qed
  have 2: "r_end r < x" if "x \<in> free_set R" for x
  proof -
    from that obtain q where "q \<in> set R" "r_base q \<le> x" by (auto simp: free_set_def region_set_def)
    moreover from this(1) have "r_end r < r_base q"
      using assms(1) by (simp add: regions_wf_def sorted_wrt_append)
    ultimately show ?thesis by simp
  qed
  have 3: "free_set (L @ q # R) = free_set L \<union> region_set q \<union> free_set R" for q
    by (auto simp: free_set_def)
  show "free_set (L @ r\<lparr>r_base := m\<rparr> # R) = free_set (L @ r # R) - {r_base r ..< m}"
    unfolding 3 using 1 2 assms(2,3) by (fastforce simp: region_set_def)
  show "{r_base r ..< m} \<subseteq> free_set (L @ r # R)"
    unfolding 3 using assms(2,3) by (auto simp: region_set_def)
qed

lemma regions_wf_shrink:
  assumes "regions_wf (L @ r # R)" and "r_base r \<le> m"
  shows "m < r_end r \<Longrightarrow> regions_wf (L @ r\<lparr>r_base := m\<rparr> # R)" and "regions_wf (L @ R)"
  using assms by (auto simp: regions_wf_def sorted_wrt_append)

lemma allocate_SomeE:
  assumes "allocate_contiguous_pages n st = (Some a, st')"
  obtains L r R where "g_regions st = L @ r # R" and "g_ready st" and "n \<noteq> 0"
    and "n * kPageSize \<le> r_end r - r_base r"
    and "a = \<lparr>physical_address = r_base r, virtual_address = r_base r + g_hhdm_offset st, page_count = n\<rparr>"
    and "st' = st\<lparr>g_regions := (if r_base r + n * kPageSize = r_end r then L @ R
           else L @ r\<lparr>r_base := r_base r + n * kPageSize\<rparr> # R)\<rparr>"
    and "\<forall>x\<in>set L. r_end x - r_base x < n * kPageSize"
proof -
  from assms obtain i where slot: "find_slot (\<lambda>r. \<not> r_end r - r_base r < n * kPageSize) (g_regions st) = Some i"
    and ready: "g_ready st" and n: "n \<noteq> 0"
    by (auto simp: allocate_contiguous_pages_def Let_def split: if_splits option.splits)
  let ?rs = "g_regions st" and ?r = "g_regions st ! i"
  have i: "i < length ?rs" by (rule find_slot_less [OF slot])
  have split: "?rs = take i ?rs @ ?r # drop (Suc i) ?rs" by (rule id_take_nth_drop [OF i])
  have upd: "?rs[i := x] = take i ?rs @ x # drop (Suc i) ?rs" for x
    by (rule upd_conv_take_nth_drop [OF i])
  have rem: "remove_region i (?rs[i := x]) = take i ?rs @ drop (Suc i) ?rs" for x
    using i by (simp add: remove_region_def upd)
  show ?thesis
  proof (rule that [OF split ready n])
    show "n * kPageSize \<le> r_end ?r - r_base ?r" using find_slot_holds [OF slot] by simp
    show "\<forall>x\<in>set (take i ?rs). r_end x - r_base x < n * kPageSize"
      using find_slot_first [OF slot] i by (auto simp: in_set_conv_nth)
  qed (use assms slot ready n rem in \<open>auto simp: allocate_contiguous_pages_def Let_def upd\<close>)
qed

lemma allocate_keeps_hhdm:
  assumes "allocate_contiguous_pages n st = (r, st')"
  shows "g_hhdm_offset st' = g_hhdm_offset st"
  using assms by (auto simp: allocate_contiguous_pages_def Let_def split: if_splits option.splits)

lemma free_keeps_hhdm: "g_hhdm_offset (snd (free_allocation a st)) = g_hhdm_offset st"
  by (simp add: free_allocation_def free_pages_def Let_def split: prod.splits)

lemma allocate_None:
  assumes "allocate_contiguous_pages n st = (None, st')"
  shows "st' = st" and "g_ready st \<Longrightarrow> n \<noteq> 0 \<Longrightarrow> \<forall>r\<in>set (g_regions st). r_end r - r_base r < n * kPageSize"
  using assms by (auto simp: allocate_contiguous_pages_def Let_def table_simps split: if_splits option.splits)


lemma allocate_spec:
  assumes inv: "pm_inv st" and small: "unat n * 4096 < 2 ^ 64"
    and alloc: "allocate_contiguous_pages n st = (Some a, st')"
  shows "pm_inv st'"
    and "page_count a = n" and "n \<noteq> 0"
    and "unat (physical_address a) + unat n * 4096 < 2 ^ 64"
    and "4096 dvd unat (physical_address a)"
    and "alloc_extent a \<subseteq> free_set (g_regions st)"
    and "free_set (g_regions st') = free_set (g_regions st) - alloc_extent a"
    and "g_ready st' = g_ready st" and "g_ready st"
    and "length (g_regions st') \<le> length (g_regions st)"
proof -
  from allocate_SomeE [OF alloc] obtain L r R where rs: "g_regions st = L @ r # R"
    and ready: "g_ready st" and n: "n \<noteq> 0" and fits: "n * kPageSize \<le> r_end r - r_base r"
    and a: "a = \<lparr>physical_address = r_base r, virtual_address = r_base r + g_hhdm_offset st, page_count = n\<rparr>"
    and st': "st' = st\<lparr>g_regions := (if r_base r + n * kPageSize = r_end r then L @ R
           else L @ r\<lparr>r_base := r_base r + n * kPageSize\<rparr> # R)\<rparr>"
    by metis
  let ?m = "r_base r + n * kPageSize"
  from inv rs have wf: "regions_wf (L @ r # R)" and al: "regions_aligned (L @ r # R)"
    and len: "length (L @ r # R) \<le> kMaxFreeRegions"
    by (auto simp: pm_inv_def)
  have ne: "r_base r < r_end r" using wf by (simp add: regions_wf_def)
  have bytes: "unat (n * kPageSize) = unat n * 4096" by (rule unat_page_bytes [OF small])
  have le: "unat (r_base r) + unat n * 4096 \<le> unat (r_end r)"
    using fits ne bytes by (simp add: word_order_nat unat_sub_le less_imp_le)
  also have "\<dots> < 2 ^ 64" using unsigned_less [of "r_end r", where ?'a = nat] by simp
  finally have nowrap: "unat (r_base r) + unat n * 4096 < 2 ^ 64" .
  have m: "unat ?m = unat (r_base r) + unat n * 4096"
    using nowrap bytes by (simp add: unat_add_no_wrap)
  have lo: "r_base r \<le> ?m" and hi: "?m \<le> r_end r" using m le by (simp_all add: word_le_nat_alt)
  have alr: "4096 dvd unat (r_base r)" "4096 dvd unat (r_end r)"
    using al by (auto simp: regions_aligned_def)
  have "4096 dvd unat ?m" using alr m by simp
  then show "pm_inv st'"
    using st' regions_wf_shrink [OF wf lo] hi al len
    by (auto simp: pm_inv_def regions_aligned_def)
  show "page_count a = n" "n \<noteq> 0" using a n by simp_all
  show "unat (physical_address a) + unat n * 4096 < 2 ^ 64" using a nowrap by simp
  show "4096 dvd unat (physical_address a)" using a alr by simp
  have ext: "alloc_extent a = {r_base r ..< ?m}" by (simp add: alloc_extent_def a)
  show "alloc_extent a \<subseteq> free_set (g_regions st)"
    unfolding ext rs by (rule region_split_set(2) [OF wf lo hi])
  have "free_set (L @ R) = free_set (L @ r\<lparr>r_base := ?m\<rparr> # R)" if "?m = r_end r"
    using that by (auto simp: free_set_def region_set_def)
  then show "free_set (g_regions st') = free_set (g_regions st) - alloc_extent a"
    unfolding ext rs using st' region_split_set(1) [OF wf lo hi] by auto
  show "g_ready st' = g_ready st" "g_ready st" using st' ready by simp_all
  show "length (g_regions st') \<le> length (g_regions st)" using st' rs by simp
qed

lemma page_mask_iff: "pa AND (kPageSize - 1) = 0 \<longleftrightarrow> 4096 dvd unat (pa :: u64)"
proof -
  have "kPageSize - 1 = (mask 12 :: u64)" by (simp add: kPageSize_def mask_eq_exp_minus_1)
  then have "pa AND (kPageSize - 1) = take_bit 12 pa" by (simp add: take_bit_eq_mask)
  moreover have "take_bit 12 pa = 0 \<longleftrightarrow> unat (take_bit 12 pa) = 0" by (simp add: unat_0_iff)
  moreover have "unat (take_bit 12 pa) = unat pa mod 4096"
    by (simp only: unsigned_take_bit_eq) (simp add: take_bit_eq_mod)
  ultimately show ?thesis by (simp add: dvd_eq_mod_eq_0)
qed

lemma free_pages_spec:
  assumes inv: "pm_inv st" and ready: "g_ready st" and n: "n \<noteq> 0"
    and al: "4096 dvd unat pa" and nowrap: "unat pa + unat n * 4096 < 2 ^ 64"
    and room: "length (g_regions st) < kMaxFreeRegions"
  shows "\<exists>st'. free_pages pa n st = (True, st') \<and> pm_inv st' \<and> g_ready st' \<and>
    free_set (g_regions st') = free_set (g_regions st) \<union> {pa ..< pa + n * kPageSize}"
proof -
  have bytes: "unat (n * kPageSize) = unat n * 4096" using nowrap by (simp add: unat_page_bytes)
  have e: "unat (pa + n * kPageSize) = unat pa + unat n * 4096"
    using nowrap bytes by (simp add: unat_add_no_wrap)
  have "0 < unat n" using n by (simp add: unat_gt_0)
  then have be: "pa < pa + n * kPageSize" and nz: "n * kPageSize \<noteq> 0"
    using e bytes by (auto simp: word_less_nat_alt)
  have wf: "regions_wf (g_regions st)" and ral: "regions_aligned (g_regions st)"
    using inv by (auto simp: pm_inv_def)
  from add_free_region_correct [OF wf room be] obtain rs' where
    add: "add_free_region pa (pa + n * kPageSize) (g_regions st) = (True, rs')"
    and "regions_wf rs'" "free_set rs' = free_set (g_regions st) \<union> {pa ..< pa + n * kPageSize}"
    "length rs' \<le> Suc (length (g_regions st))" by blast
  moreover have "regions_aligned rs'"
    using add_free_region_aligned [OF wf room be ral al] add e al by simp
  ultimately show ?thesis
    using ready n al nz room by (auto simp: free_pages_def Let_def page_mask_iff pm_inv_def)
qed

text \<open>The free addresses are exactly the union of maximal runs, so a run of free
  addresses lies inside one region.\<close>

lemma run_in_one_region:
  assumes wf: "regions_wf rs" and run: "{a ..< b} \<subseteq> free_set rs" and ab: "a < b"
  obtains r where "r \<in> set rs" and "r_base r \<le> a" and "b \<le> r_end r"
proof -
  have "a \<in> free_set rs" using run ab by auto
  then obtain r where r: "r \<in> set rs" "r_base r \<le> a" "a < r_end r"
    by (auto simp: free_set_def region_set_def)
  have "b \<le> r_end r"
  proof (rule ccontr)
    assume "\<not> b \<le> r_end r"
    then have "r_end r \<in> {a ..< b}" using r(3) by (simp add: not_le less_imp_le)
    with run have "r_end r \<in> free_set rs" by (rule subsetD)
    then obtain q where q: "q \<in> set rs" "r_base q \<le> r_end r" "r_end r < r_end q"
      by (auto simp: free_set_def region_set_def)
    have sw: "sorted_wrt (\<lambda>a b. r_end a < r_base b) rs" using wf by (simp add: regions_wf_def)
    from sorted_wrt_trichotomy [OF sw r(1) q(1)]
    consider "q = r" | "r_end q < r_base r" | "r_end r < r_base q" by blast
    then show False using q r by cases auto
  qed
  with r that show ?thesis by blast
qed


section \<open>The contract the kernel heap relies on\<close>

text \<open>
  What a client of the page allocator may assume: a successful allocation takes
  its pages out of the available set, a release puts them back. The client
  lemmas follow the ownership discipline of \<^verbatim>\<open>kernel/heap.cpp\<close>: it releases
  only allocations it holds.
\<close>

locale page_provider =
  fixes alloc :: "u64 \<Rightarrow> 's \<Rightarrow> page_allocation option \<times> 's"
    and release :: "page_allocation \<Rightarrow> 's \<Rightarrow> bool \<times> 's"
    and avail :: "'s \<Rightarrow> u64 set"
    and invar :: "'s \<Rightarrow> bool"
  assumes alloc_taken: "invar s \<Longrightarrow> unat n * 4096 < 2 ^ 64 \<Longrightarrow> alloc n s = (Some a, s') \<Longrightarrow>
      invar s' \<and> page_count a = n \<and> n \<noteq> 0 \<and> unat (physical_address a) + unat n * 4096 < 2 ^ 64 \<and>
      4096 dvd unat (physical_address a) \<and>
      alloc_extent a \<subseteq> avail s \<and> avail s' = avail s - alloc_extent a"
    and alloc_refused: "alloc n s = (None, s') \<Longrightarrow> s' = s"
    and release_given: "invar s \<Longrightarrow> page_count a \<noteq> 0 \<Longrightarrow> 4096 dvd unat (physical_address a) \<Longrightarrow>
      unat (physical_address a) + unat (page_count a) * 4096 < 2 ^ 64 \<Longrightarrow>
      release a s = (True, s') \<Longrightarrow> invar s' \<and> avail s' = avail s \<union> alloc_extent a"
    and release_refused: "release a s = (False, s') \<Longrightarrow> s' = s"
begin

text \<open>A client that holds the allocations \<open>as\<close>: they are pairwise disjoint and
  none of their pages is available.\<close>

definition holds :: "'s \<Rightarrow> page_allocation list \<Rightarrow> bool" where
  "holds s as \<longleftrightarrow> invar s \<and>
     (\<forall>a\<in>set as. page_count a \<noteq> 0 \<and> 4096 dvd unat (physical_address a) \<and>
        unat (physical_address a) + unat (page_count a) * 4096 < 2 ^ 64 \<and>
        alloc_extent a \<inter> avail s = {}) \<and>
     sorted_wrt (\<lambda>a b. alloc_extent a \<inter> alloc_extent b = {}) as"

lemma holds_alloc:
  assumes "holds s as" and "unat n * 4096 < 2 ^ 64" and "alloc n s = (Some a, s')"
  shows "holds s' (a # as)"
proof -
  have inv: "invar s" using assms(1) by (simp add: holds_def)
  have t: "invar s'" "page_count a = n" "n \<noteq> 0" "unat (physical_address a) + unat n * 4096 < 2 ^ 64"
    "4096 dvd unat (physical_address a)" "alloc_extent a \<subseteq> avail s" "avail s' = avail s - alloc_extent a"
    using alloc_taken [OF inv assms(2,3)] by auto
  have "\<forall>b\<in>set as. alloc_extent b \<inter> avail s = {}" using assms(1) by (simp add: holds_def)
  then have "\<forall>b\<in>set as. alloc_extent a \<inter> alloc_extent b = {}" using t(6) by blast
  with assms(1) t show ?thesis by (auto simp: holds_def)
qed

lemma holds_alloc_none: "holds s as \<Longrightarrow> alloc n s = (None, s') \<Longrightarrow> holds s' as"
  using alloc_refused by blast

lemma holds_release:
  assumes "holds s (xs @ a # ys)" and "release a s = (True, s')"
  shows "holds s' (xs @ ys)"
proof -
  have a: "invar s" "page_count a \<noteq> 0" "4096 dvd unat (physical_address a)"
    "unat (physical_address a) + unat (page_count a) * 4096 < 2 ^ 64"
    using assms(1) by (auto simp: holds_def)
  have r: "invar s'" "avail s' = avail s \<union> alloc_extent a"
    using release_given [OF a assms(2)] by auto
  have "alloc_extent b \<inter> alloc_extent a = {}" if "b \<in> set xs \<union> set ys" for b
    using assms(1) that by (auto simp: holds_def sorted_wrt_append)
  with assms(1) r show ?thesis
    by (auto simp: holds_def sorted_wrt_append)
qed

lemma holds_release_refused: "holds s as \<Longrightarrow> release a s = (False, s') \<Longrightarrow> holds s' as"
  using release_refused by blast

lemma holds_drop: "holds s (xs @ a # ys) \<Longrightarrow> holds s (xs @ ys)"
  by (auto simp: holds_def sorted_wrt_append)

lemma alloc_release_restores:
  assumes "invar s" and "unat n * 4096 < 2 ^ 64" and "alloc n s = (Some a, s')"
    and "release a s' = (True, s'')"
  shows "avail s'' = avail s" and "invar s''"
proof -
  have t: "invar s'" "page_count a = n" "n \<noteq> 0" "unat (physical_address a) + unat n * 4096 < 2 ^ 64"
    "4096 dvd unat (physical_address a)" "alloc_extent a \<subseteq> avail s" "avail s' = avail s - alloc_extent a"
    using alloc_taken [OF assms(1-3)] by auto
  have r: "invar s'' \<and> avail s'' = avail s' \<union> alloc_extent a"
    using t assms(4) by (intro release_given) auto
  then show "avail s'' = avail s" "invar s''" using t(6,7) by auto
qed

end

lemma free_pages_cases:
  assumes "pm_inv st" and "n \<noteq> 0" and "4096 dvd unat pa" and "unat pa + unat n * 4096 < 2 ^ 64"
    and "free_pages pa n st = (True, st')"
  shows "pm_inv st' \<and> free_set (g_regions st') = free_set (g_regions st) \<union> {pa ..< pa + n * kPageSize}"
proof -
  have ready: "g_ready st" using assms(5) by (auto simp: free_pages_def split: if_splits)
  have "length (g_regions st) \<noteq> kMaxFreeRegions"
    using assms(5) by (auto simp: free_pages_def Let_def add_free_region_full split: if_splits)
  then have "length (g_regions st) < kMaxFreeRegions" using assms(1) by (simp add: pm_inv_def)
  from free_pages_spec [OF assms(1) ready assms(2-4) this] assms(5) show ?thesis by auto
qed

lemma free_pages_refused: "free_pages pa n st = (False, st') \<Longrightarrow> st' = st"
  by (auto simp: free_pages_def Let_def split: if_splits prod.splits dest: add_free_region_False)

interpretation pm: page_provider allocate_contiguous_pages free_allocation
  "\<lambda>st. free_set (g_regions st)" pm_inv
proof unfold_locales
  fix s n a s'
  assume "pm_inv s" and "unat n * 4096 < 2 ^ 64" and "allocate_contiguous_pages n s = (Some a, s')"
  from allocate_spec [OF this]
  show "pm_inv s' \<and> page_count a = n \<and> n \<noteq> 0 \<and> unat (physical_address a) + unat n * 4096 < 2 ^ 64 \<and>
      4096 dvd unat (physical_address a) \<and> alloc_extent a \<subseteq> free_set (g_regions s) \<and>
      free_set (g_regions s') = free_set (g_regions s) - alloc_extent a"
    by blast
next
  fix n s s'
  assume "allocate_contiguous_pages n s = (None, s')"
  then show "s' = s" by (rule allocate_None(1))
next
  fix s a s'
  assume "pm_inv s" and "page_count a \<noteq> 0" and "4096 dvd unat (physical_address a)"
    and "unat (physical_address a) + unat (page_count a) * 4096 < 2 ^ 64"
    and "free_allocation a s = (True, s')"
  then show "pm_inv s' \<and> free_set (g_regions s') = free_set (g_regions s) \<union> alloc_extent a"
    using free_pages_cases by (simp add: free_allocation_def alloc_extent_def)
next
  fix a s s'
  assume "free_allocation a s = (False, s')"
  then show "s' = s" unfolding free_allocation_def by (rule free_pages_refused)
qed


section \<open>Page accounting\<close>

definition region_pages :: "region list \<Rightarrow> nat" where
  "region_pages rs = (\<Sum>r\<leftarrow>rs. (unat (r_end r) - unat (r_base r)) div 4096)"

lemma regions_wf_total:
  "regions_wf (r # rs) \<Longrightarrow>
     unat (r_base r) + (\<Sum>x\<leftarrow>r # rs. unat (r_end x) - unat (r_base x)) \<le> unat (r_end (last (r # rs)))"
proof (induction rs arbitrary: r)
  case Nil
  then show ?case by (simp add: regions_wf_def word_less_nat_alt)
next
  case (Cons q rs)
  then have "regions_wf (q # rs)" and "r_base r < r_end r" and "r_end r < r_base q"
    by (auto simp: regions_wf_def)
  with Cons.IH [of q] show ?case by (simp add: word_less_nat_alt)
qed

lemma region_pages_bound: "regions_wf rs \<Longrightarrow> region_pages rs < 2 ^ 64"
proof (cases rs)
  case Nil
  then show ?thesis by (simp add: region_pages_def)
next
  case (Cons r rs')
  assume wf: "regions_wf rs"
  have "region_pages rs \<le> (\<Sum>x\<leftarrow>rs. unat (r_end x) - unat (r_base x))"
    unfolding region_pages_def by (rule sum_list_mono) simp
  also have "\<dots> \<le> unat (r_end (last rs))"
    using regions_wf_total [of r rs'] wf Cons by simp
  also have "\<dots> < 2 ^ 64" using unsigned_less [of "r_end (last rs)", where ?'a = nat] by simp
  finally show ?thesis .
qed

lemma foldl_add_words:
  "foldl (\<lambda>p r. p + f r) (a :: u64) rs = a + of_nat (\<Sum>r\<leftarrow>rs. unat (f r))"
  by (induction rs arbitrary: a) (simp_all add: add.assoc)

lemma unat_free_page_count:
  assumes "pm_inv st" and "g_ready st"
  shows "unat (free_page_count st) = region_pages (g_regions st)"
proof -
  let ?rs = "g_regions st"
  have wf: "regions_wf ?rs" using assms(1) by (simp add: pm_inv_def)
  have "unat ((r_end r - r_base r) div kPageSize) = (unat (r_end r) - unat (r_base r)) div 4096"
    if "r \<in> set ?rs" for r
    using that wf by (simp add: regions_wf_def unat_div unat_sub less_imp_le kPageSize_def)
  then have "(\<Sum>r\<leftarrow>?rs. unat ((r_end r - r_base r) div kPageSize)) = region_pages ?rs"
    unfolding region_pages_def by (intro arg_cong [where f = sum_list] map_cong) auto
  then have "free_page_count st = of_nat (region_pages ?rs)"
    using assms(2) by (simp add: free_page_count_def foldl_add_words)
  then show ?thesis
    using region_pages_bound [OF wf] by (simp add: unat_of_nat)
qed

lemma region_pages_append: "region_pages (xs @ ys) = region_pages xs + region_pages ys"
  by (simp add: region_pages_def)

lemma div_take_pages: "(n::nat) * 4096 \<le> x \<Longrightarrow> (x - n * 4096) div 4096 + n = x div 4096"
  by (metis add.commute div_mult_self3 le_add_diff_inverse2 zero_neq_numeral)

lemma allocate_pages_taken:
  assumes inv: "pm_inv st" and small: "unat n * 4096 < 2 ^ 64"
    and alloc: "allocate_contiguous_pages n st = (Some a, st')"
  shows "region_pages (g_regions st') + unat n = region_pages (g_regions st)"
proof -
  from allocate_SomeE [OF alloc] obtain L r R where rs: "g_regions st = L @ r # R"
    and fits: "n * kPageSize \<le> r_end r - r_base r"
    and st': "st' = st\<lparr>g_regions := (if r_base r + n * kPageSize = r_end r then L @ R
           else L @ r\<lparr>r_base := r_base r + n * kPageSize\<rparr> # R)\<rparr>"
    by metis
  let ?m = "r_base r + n * kPageSize"
  have ne: "r_base r < r_end r" using inv rs by (simp add: pm_inv_def regions_wf_def)
  have bytes: "unat (n * kPageSize) = unat n * 4096" by (rule unat_page_bytes [OF small])
  have le: "unat n * 4096 \<le> unat (r_end r) - unat (r_base r)"
    using fits bytes by (simp add: word_le_nat_alt unat_sub [OF less_imp_le [OF ne]])
  then have "unat (r_base r) + unat (n * kPageSize) < 2 ^ 64"
    using unsigned_less [of "r_end r", where ?'a = nat] ne bytes
    by (simp add: word_less_nat_alt)
  then have m: "unat ?m = unat (r_base r) + unat n * 4096"
    using bytes by (simp add: unat_add_no_wrap)
  have taken: "(unat (r_end r) - unat ?m) div 4096 + unat n = (unat (r_end r) - unat (r_base r)) div 4096"
    using div_take_pages [OF le] m by simp
  show ?thesis
    unfolding st' rs using taken by (auto simp: region_pages_append region_pages_def)
qed

section \<open>Start-up from the boot memory map\<close>

definition usable_at :: "memory_region list \<Rightarrow> u64 set" where
  "usable_at mm = {x. kMinimumPhysicalAddress \<le> x \<and>
     (\<exists>en\<in>set mm. mr_type en = usable \<and> align_up (mr_base en) kPageSize \<le> x \<and>
        x < align_down (mr_base en + mr_length en) kPageSize)}"

lemma kPageSize_exp: "kPageSize = 2 ^ 12"
  by (simp add: kPageSize_def)

lemma page_start_aligned:
  "4096 dvd unat (if align_up b kPageSize < kMinimumPhysicalAddress then kMinimumPhysicalAddress
     else align_up b kPageSize)"
  using align_up_dvd [of 12 b] by (simp add: kPageSize_exp kMinimumPhysicalAddress_def)

definition clip_start :: "memory_region \<Rightarrow> u64" where
  "clip_start en = (if align_up (mr_base en) kPageSize < kMinimumPhysicalAddress
    then kMinimumPhysicalAddress else align_up (mr_base en) kPageSize)"

definition clip_end :: "memory_region \<Rightarrow> u64" where
  "clip_end en = align_down (mr_base en + mr_length en) kPageSize"

lemma scan_memory_map_Cons:
  "scan_memory_map (en # mm) st =
     (if mr_type en \<noteq> usable \<or> clip_end en \<le> clip_start en then scan_memory_map mm st
      else (case add_free_region (clip_start en) (clip_end en) (g_regions st) of
          (False, _) \<Rightarrow> None
        | (True, rs) \<Rightarrow> scan_memory_map mm (st\<lparr>g_regions := rs,
            g_total_pages := g_total_pages st + (clip_end en - clip_start en) div kPageSize\<rparr>)))"
  unfolding scan_memory_map.simps Let_def clip_start_def [symmetric] clip_end_def [symmetric]
  by simp

lemma clip_aligned: "4096 dvd unat (clip_start en)" "4096 dvd unat (clip_end en)"
  using page_start_aligned align_down_dvd [of 12]
  by (simp_all add: clip_start_def clip_end_def kPageSize_exp)

lemma usable_at_Cons:
  "usable_at (en # mm) =
     (if mr_type en = usable then {clip_start en ..< clip_end en} else {}) \<union> usable_at mm"
  unfolding usable_at_def clip_start_def clip_end_def by auto

lemma scan_memory_map_spec:
  assumes "scan_memory_map mm st = Some st'" and "pm_inv st"
  shows "pm_inv st' \<and> free_set (g_regions st') = free_set (g_regions st) \<union> usable_at mm"
  using assms
proof (induction mm arbitrary: st)
  case Nil
  then show ?case by (simp add: usable_at_def)
next
  case (Cons en mm)
  let ?b = "clip_start en" and ?e = "clip_end en"
  show ?case
  proof (cases "mr_type en \<noteq> usable \<or> ?e \<le> ?b")
    case True
    then have "scan_memory_map mm st = Some st'"
      using Cons.prems(1) by (simp add: scan_memory_map_Cons del: scan_memory_map.simps)
    with Cons.IH Cons.prems(2) have
      "pm_inv st' \<and> free_set (g_regions st') = free_set (g_regions st) \<union> usable_at mm" by blast
    moreover have "usable_at (en # mm) = usable_at mm" using True by (auto simp: usable_at_Cons)
    ultimately show ?thesis by simp
  next
    case False
    then have us: "mr_type en = usable" and lt: "?b < ?e" by auto
    let ?st = "\<lambda>rs. st\<lparr>g_regions := rs, g_total_pages := g_total_pages st + (?e - ?b) div kPageSize\<rparr>"
    from Cons.prems(1) False obtain rs where add: "add_free_region ?b ?e (g_regions st) = (True, rs)"
      and rest: "scan_memory_map mm (?st rs) = Some st'"
      by (auto simp: scan_memory_map_Cons simp del: scan_memory_map.simps split: prod.splits bool.splits)
    have wf: "regions_wf (g_regions st)" and al: "regions_aligned (g_regions st)"
      using Cons.prems(2) by (auto simp: pm_inv_def)
    have room: "length (g_regions st) < kMaxFreeRegions"
      using add Cons.prems(2) add_free_region_full [of "g_regions st" ?b ?e]
      by (auto simp: pm_inv_def order_less_le)
    have "regions_aligned rs"
      using add_free_region_aligned [OF wf room lt al clip_aligned] add by simp
    with add_free_region_correct [OF wf room lt] add room
    have "pm_inv (?st rs)" and fs: "free_set rs = free_set (g_regions st) \<union> {?b ..< ?e}"
      by (auto simp: pm_inv_def)
    from Cons.IH [OF rest this(1)] show ?thesis using fs us by (auto simp: usable_at_Cons)
  qed
qed


section \<open>The region table is determined by the set of free addresses\<close>

lemma regions_wf_overlap:
  assumes "regions_wf rs" and "r \<in> set rs" and "q \<in> set rs" and "x \<in> region_set r" and "x \<in> region_set q"
  shows "q = r"
proof -
  have sw: "sorted_wrt (\<lambda>a b. r_end a < r_base b) rs" using assms(1) by (simp add: regions_wf_def)
  from sorted_wrt_trichotomy [OF sw assms(2,3)]
  consider "q = r" | "r_end q < r_base r" | "r_end r < r_base q" by blast
  then show ?thesis using assms(4,5) by cases (auto simp: region_set_def)
qed

lemma regions_wf_subset:
  assumes wf: "regions_wf rs" "regions_wf rs'" and same: "free_set rs = free_set rs'"
    and r: "r \<in> set rs"
  shows "r \<in> set rs'"
proof -
  have ne: "r_base r < r_end r" using wf r by (simp add: regions_wf_def)
  have "{r_base r ..< r_end r} \<subseteq> free_set rs'"
    using r same [symmetric] by (auto simp: free_set_def region_set_def)
  from run_in_one_region [OF wf(2) this ne] obtain q where q: "q \<in> set rs'"
    "r_base q \<le> r_base r" "r_end r \<le> r_end q" by blast
  have "r_base q < r_end q" using wf q by (simp add: regions_wf_def)
  moreover have "{r_base q ..< r_end q} \<subseteq> free_set rs"
    using q(1) same by (auto simp: free_set_def region_set_def)
  ultimately obtain r2 where r2: "r2 \<in> set rs" "r_base r2 \<le> r_base q" "r_end q \<le> r_end r2"
    using run_in_one_region [OF wf(1)] by metis
  have "r2 = r"
    using r2 q ne by (intro regions_wf_overlap [OF wf(1) r r2(1), of "r_base r"]) (auto simp: region_set_def)
  with r2 q have "r_base q = r_base r" "r_end q = r_end r" by auto
  then have "q = r" by simp
  with q(1) show ?thesis by simp
qed

lemma regions_wf_canonical:
  assumes "regions_wf rs" and "regions_wf rs'" and "free_set rs = free_set rs'"
  shows "rs = rs'"
proof (rule sorted_wrt_asym_unique [where Q = "\<lambda>r. r_base r < r_end r"])
  show "sorted_wrt (\<lambda>a b. r_end a < r_base b) rs" "sorted_wrt (\<lambda>a b. r_end a < r_base b) rs'"
    "\<forall>r\<in>set rs. r_base r < r_end r"
    using assms(1,2) by (simp_all add: regions_wf_def)
  show "set rs = set rs'"
    using regions_wf_subset [OF assms(1,2,3)] regions_wf_subset [OF assms(2,1) assms(3) [symmetric]]
    by (intro equalityI subsetI)
qed (use order.strict_trans in \<open>metis order.asym\<close>)

section \<open>Properties\<close>

text \<open>C13. For a request whose byte count fits in 64 bits (fewer than \<open>2\<^sup>5\<^sup>2\<close> pages; the code does not
  check it), a successful \<^verbatim>\<open>allocate_contiguous_pages\<close> hands out page-aligned, previously
  free memory of exactly the requested size, removes exactly that range from the
  free set, keeps the table invariant, and lowers the free page count by the
  request.\<close>

theorem pm_allocate_exact:
  assumes "pm_inv st" and "unat n * 4096 < 2 ^ 64"
    and "allocate_contiguous_pages n st = (Some a, st')"
  shows "pm_inv st' \<and> page_count a = n \<and> 4096 dvd unat (physical_address a) \<and>
    alloc_extent a \<subseteq> free_set (g_regions st) \<and>
    free_set (g_regions st') = free_set (g_regions st) - alloc_extent a \<and>
    unat (free_page_count st') + unat n = unat (free_page_count st)"
proof -
  note spec = allocate_spec [OF assms]
  have "unat (free_page_count st') = region_pages (g_regions st')"
    using spec by (intro unat_free_page_count) auto
  moreover have "unat (free_page_count st) = region_pages (g_regions st)"
    using spec assms(1) by (intro unat_free_page_count) auto
  ultimately show ?thesis
    using spec allocate_pages_taken [OF assms] by auto
qed

definition pm_example :: pm_state where
  "pm_example = \<lparr>g_regions = [\<lparr>r_base = 0x100000, r_end = 0x104000\<rparr>],
     g_hhdm_offset = 0xffff800000000000, g_total_pages = 4, g_ready = True\<rparr>"

lemma pm_example_inv: "pm_inv pm_example"
  by (simp add: pm_inv_def pm_example_def regions_wf_def regions_aligned_def kMaxFreeRegions_def)

lemma pm_example_alloc:
  "allocate_contiguous_pages 3 pm_example =
     (Some \<lparr>physical_address = 0x100000, virtual_address = 0xffff800000100000, page_count = 3\<rparr>,
      pm_example\<lparr>g_regions := [\<lparr>r_base = 0x103000, r_end = 0x104000\<rparr>]\<rparr>)"
  by (simp add: allocate_contiguous_pages_def pm_example_def kPageSize_def)

theorem pm_allocate_exact_witness:
  "free_page_count pm_example = 4 \<and>
   (case allocate_contiguous_pages 3 pm_example of (Some a, st') \<Rightarrow>
      alloc_extent a \<subseteq> free_set (g_regions pm_example) \<and> unat (free_page_count st') + 3 = 4
    | _ \<Rightarrow> False)"
proof -
  have "free_page_count pm_example = 4"
    by (simp add: free_page_count_def pm_example_def kPageSize_def)
  moreover have "unat (3 :: u64) * 4096 < 2 ^ 64" by simp
  ultimately show ?thesis
    using pm_allocate_exact [OF pm_example_inv _ pm_example_alloc] by (simp add: pm_example_alloc)
qed

text \<open>C25. When \<^verbatim>\<open>allocate_contiguous_pages\<close> fails on an initialised allocator, the state
  is unchanged and no contiguous run of free addresses of the requested size
  exists anywhere: fragmentation inside the table never causes a spurious failure.\<close>

theorem pm_allocate_complete:
  assumes "pm_inv st" and "g_ready st" and "n \<noteq> 0" and "unat n * 4096 < 2 ^ 64"
    and "allocate_contiguous_pages n st = (None, st')"
  shows "st' = st \<and> \<not> (\<exists>x. unat x + unat n * 4096 < 2 ^ 64 \<and>
    {x ..< x + n * kPageSize} \<subseteq> free_set (g_regions st))"
proof (intro conjI notI)
  show "st' = st" by (rule allocate_None(1) [OF assms(5)])
  assume "\<exists>x. unat x + unat n * 4096 < 2 ^ 64 \<and> {x ..< x + n * kPageSize} \<subseteq> free_set (g_regions st)"
  then obtain x where nw: "unat x + unat n * 4096 < 2 ^ 64"
    and run: "{x ..< x + n * kPageSize} \<subseteq> free_set (g_regions st)" by blast
  have bytes: "unat (n * kPageSize) = unat n * 4096" by (rule unat_page_bytes [OF assms(4)])
  then have e: "unat (x + n * kPageSize) = unat x + unat n * 4096"
    using nw by (simp add: unat_add_no_wrap)
  moreover have "0 < unat n" using assms(3) by (simp add: unat_gt_0)
  ultimately have lt: "x < x + n * kPageSize" by (simp add: word_less_nat_alt)
  have "regions_wf (g_regions st)" using assms(1) by (simp add: pm_inv_def)
  from run_in_one_region [OF this run lt] obtain r where r: "r \<in> set (g_regions st)"
    "r_base r \<le> x" "x + n * kPageSize \<le> r_end r" by blast
  have "r_end r - r_base r < n * kPageSize"
    using allocate_None(2) [OF assms(5,2,3)] r(1) by blast
  then show False
    using r(2,3) e bytes lt by (simp add: word_order_nat unat_sub_le)
qed

theorem pm_allocate_complete_witness:
  "allocate_contiguous_pages 5 pm_example = (None, pm_example) \<and>
   \<not> (\<exists>x. unat x + 20480 < 2 ^ 64 \<and> {x ..< x + 5 * kPageSize} \<subseteq> free_set (g_regions pm_example))"
proof -
  have none: "allocate_contiguous_pages 5 pm_example = (None, pm_example)"
    by (simp add: allocate_contiguous_pages_def pm_example_def kPageSize_def)
  have "g_ready pm_example" by (simp add: pm_example_def)
  from pm_allocate_complete [OF pm_example_inv this _ _ none] show ?thesis
    using none by simp
qed

text \<open>C16. Freeing what was just allocated undoes the allocation exactly: as long as the
  region table is not full and the byte count of the request fits in 64 bits, \<^verbatim>\<open>free_allocation\<close> succeeds and the allocator is back
  in the state it had, region for region.\<close>

theorem pm_allocate_free_identity:
  assumes "pm_inv st" and "unat n * 4096 < 2 ^ 64"
    and "allocate_contiguous_pages n st = (Some a, st')"
    and "length (g_regions st) < kMaxFreeRegions"
  shows "free_allocation a st' = (True, st)"
proof -
  note spec = allocate_spec [OF assms(1-3)]
  have "length (g_regions st') < kMaxFreeRegions" using spec(10) assms(4) by simp
  from free_pages_spec [OF spec(1) _ spec(3) spec(5) spec(4) this] spec(2,8,9)
  obtain st'' where free: "free_allocation a st' = (True, st'')"
    by (auto simp: free_allocation_def)
  note restored = pm.alloc_release_restores [OF assms(1-3) free]
  have "g_regions st'' = g_regions st"
    using restored assms(1) by (intro regions_wf_canonical) (auto simp: pm_inv_def)
  moreover obtain rs where "st' = st\<lparr>g_regions := rs\<rparr>"
    by (rule allocate_SomeE [OF assms(3)]) blast
  moreover obtain rs' where "st'' = st'\<lparr>g_regions := rs'\<rparr>"
    using free by (auto simp: free_allocation_def free_pages_def Let_def split: if_splits prod.splits)
  ultimately have "st'' = st" by (cases st) simp
  with free show ?thesis by simp
qed

theorem pm_allocate_free_identity_witness:
  "(case allocate_contiguous_pages 3 pm_example of
      (Some a, st') \<Rightarrow> st' \<noteq> pm_example \<and> free_allocation a st' = (True, pm_example) | _ \<Rightarrow> False)"
proof -
  have "length (g_regions pm_example) < kMaxFreeRegions"
    by (simp add: pm_example_def kMaxFreeRegions_def)
  from pm_allocate_free_identity [OF pm_example_inv _ pm_example_alloc this] show ?thesis
    by (simp add: pm_example_alloc) (simp add: pm_example_def)
qed

text \<open>Freeing any page-aligned range that does not wrap adds exactly that range to the
  free set, coalescing neighbours so that the table stays sorted, gap-separated
  and aligned, unless the 2048-entry table is full.\<close>

theorem pm_free_adds_range:
  assumes "pm_inv st" and "g_ready st" and "n \<noteq> 0" and "4096 dvd unat pa"
    and "unat pa + unat n * 4096 < 2 ^ 64" and "length (g_regions st) < kMaxFreeRegions"
  shows "\<exists>st'. free_pages pa n st = (True, st') \<and> pm_inv st' \<and>
    free_set (g_regions st') = free_set (g_regions st) \<union> {pa ..< pa + n * kPageSize}"
  using free_pages_spec [OF assms] by blast

theorem pm_free_adds_range_witness:
  "\<exists>st'. free_pages 0x104000 2 pm_example = (True, st') \<and> pm_inv st' \<and>
    free_set (g_regions st') = free_set (g_regions pm_example) \<union> {0x104000 ..< 0x104000 + 2 * kPageSize}"
  using pm_example_inv
  by (intro pm_free_adds_range) (simp_all add: pm_example_def kMaxFreeRegions_def)

text \<open>After \<^verbatim>\<open>memory::initialize\<close> reports ready, the free memory is exactly the
  page-rounded usable ranges of the boot memory map from 1 MiB up, whatever their
  order and overlaps, and the table invariant holds.\<close>

theorem pm_initialize_spec:
  assumes "pm_initialize hhdm mm = st" and "g_ready st"
  shows "pm_inv st \<and> free_set (g_regions st) = usable_at mm"
proof -
  let ?init = "reset_state\<lparr>g_hhdm_offset := hhdm\<rparr>"
  from assms obtain st' where scan: "scan_memory_map mm ?init = Some st'"
    and st: "g_regions st = g_regions st'"
    by (auto simp: pm_initialize_def reset_state_def split: if_splits option.splits)
  have "pm_inv ?init" by (simp add: pm_inv_def reset_state_def regions_wf_def regions_aligned_def)
  from scan_memory_map_spec [OF scan this] st show ?thesis
    by (simp add: pm_inv_def reset_state_def free_set_def)
qed

definition mm_example :: "memory_region list" where
  "mm_example = [\<lparr>mr_base = 0x1ff800, mr_length = 0x3000, mr_type = usable\<rparr>,
     \<lparr>mr_base = 0, mr_length = 0x9f000, mr_type = usable\<rparr>,
     \<lparr>mr_base = 0x300000, mr_length = 0x1000, mr_type = reserved\<rparr>]"

theorem pm_initialize_spec_witness:
  "g_ready (pm_initialize 0x1000 mm_example) \<and>
   g_regions (pm_initialize 0x1000 mm_example) = [\<lparr>r_base = 0x200000, r_end = 0x202000\<rparr>] \<and>
   free_set (g_regions (pm_initialize 0x1000 mm_example)) = usable_at mm_example"
proof -
  have st: "pm_initialize 0x1000 mm_example =
    \<lparr>g_regions = [\<lparr>r_base = 0x200000, r_end = 0x202000\<rparr>], g_hhdm_offset = 0x1000,
     g_total_pages = 2, g_ready = True\<rparr>"
    by (simp add: pm_initialize_def mm_example_def reset_state_def align_up_def align_down_def
        kPageSize_def kMinimumPhysicalAddress_def add_free_region_def insert_region_def
        kMaxFreeRegions_def merge_neighbors_def merge_right.simps Let_def)
  then show ?thesis using pm_initialize_spec [of "0x1000" mm_example, OF refl] by simp
qed

text \<open>C38. The byte count \<^verbatim>\<open>page_count * kPageSize\<close> of an allocation is not checked for
  overflow, although \<^verbatim>\<open>free_pages\<close> checks it: asking for \<open>2\<^sup>5\<^sup>2\<close> pages of an allocator
  with any free region succeeds and hands out an empty range at that region's
  base.\<close>

theorem pm_allocate_overflow:
  assumes "g_ready st" and "g_regions st = r # rs" and "r_base r < r_end r"
  shows "allocate_contiguous_pages (2 ^ 52) st =
    (Some \<lparr>physical_address = r_base r, virtual_address = r_base r + g_hhdm_offset st,
      page_count = 2 ^ 52\<rparr>, st)"
proof -
  have "(2 ^ 52 :: u64) * kPageSize = 0" by (simp add: kPageSize_def)
  moreover have "st\<lparr>g_regions := r # rs\<rparr> = st" using assms(2) [symmetric] by simp
  ultimately show ?thesis
    using assms by (simp add: allocate_contiguous_pages_def Let_def)
qed

theorem pm_allocate_overflow_witness:
  "allocate_contiguous_pages (2 ^ 52) pm_example =
    (Some \<lparr>physical_address = 0x100000, virtual_address = 0xffff800000100000,
      page_count = 2 ^ 52\<rparr>, pm_example)"
  using pm_allocate_overflow [of pm_example "\<lparr>r_base = 0x100000, r_end = 0x104000\<rparr>" "[]"]
  by (simp add: pm_example_def)

end
