(* ===== verification/Kernel_Heap.thy ===== *)
theory Kernel_Heap
  imports Physical_Memory "HOL-Library.Multiset"
begin

text \<open>
  The kernel heap, \<^verbatim>\<open>kernel/heap.cpp\<close>: arenas of contiguous pages taken from the
  page allocator, each tiled by blocks that carry a 48-byte header.

  The doubly linked lists of the source are lists here. An arena is its page
  allocation and its blocks in list order (\<^verbatim>\<open>first_block\<close> and the \<^verbatim>\<open>next\<close> and
  \<^verbatim>\<open>previous\<close> pointers); \<^verbatim>\<open>g_first_arena\<close> heads the list of arenas and
  \<^verbatim>\<open>g_arena_count\<close> is its length. A listed block always carries \<^verbatim>\<open>kBlockMagic\<close> and
  its arena, so \<^verbatim>\<open>block_is_valid\<close> reduces to the bounds test on it. Addresses and
  sizes are 64-bit words. A loop that does not return is the value \<^const>\<open>None\<close> of
  \<open>layout_loop\<close> and \<open>allocate_loop\<close>.
\<close>

section \<open>Data\<close>

definition kDefaultArenaPages :: u64 where "kDefaultArenaPages = 16"
definition kMinimumAlignment :: u64 where "kMinimumAlignment = 16"
definition sizeof_Arena :: u64 where "sizeof_Arena = 48"
definition sizeof_BlockHeader :: u64 where "sizeof_BlockHeader = 48"

lemmas heap_consts = kDefaultArenaPages_def kMinimumAlignment_def sizeof_Arena_def sizeof_BlockHeader_def

record block_header =
  b_addr :: u64
  b_size :: u64
  b_free :: bool

record heap_arena =
  a_allocation :: page_allocation
  a_blocks :: "block_header list"

record allocation_layout =
  header_address :: u64
  leading_span :: u64
  trailing_span :: u64

record heap_state =
  h_arenas :: "heap_arena list"
  h_used_bytes :: u64
  h_ready :: bool
  h_pm :: pm_state

section \<open>Operations\<close>

definition is_power_of_two :: "u64 \<Rightarrow> bool" where
  "is_power_of_two v \<longleftrightarrow> v \<noteq> 0 \<and> v AND (v - 1) = 0"

definition normalize_alignment :: "u64 \<Rightarrow> u64" where
  "normalize_alignment alignment =
     (if \<not> is_power_of_two alignment \<or> alignment < kMinimumAlignment then kMinimumAlignment
      else alignment)"

definition minimum_block_span :: u64 where
  "minimum_block_span = sizeof_BlockHeader + kMinimumAlignment"

definition arena_base :: "heap_arena \<Rightarrow> u64" where
  "arena_base a = virtual_address (a_allocation a)"

definition arena_capacity :: "heap_arena \<Rightarrow> u64" where
  "arena_capacity a = page_count (a_allocation a) * kPageSize"

definition arena_payload_start :: "heap_arena \<Rightarrow> u64" where
  "arena_payload_start a = arena_base a + align_up sizeof_Arena kMinimumAlignment"

definition arena_initial_block_size :: "heap_arena \<Rightarrow> u64" where
  "arena_initial_block_size a =
     arena_capacity a - (arena_payload_start a - arena_base a) - sizeof_BlockHeader"

definition block_end :: "block_header \<Rightarrow> u64" where
  "block_end b = b_addr b + sizeof_BlockHeader + b_size b"

definition blocks_are_adjacent :: "block_header \<Rightarrow> block_header \<Rightarrow> bool" where
  "blocks_are_adjacent l r \<longleftrightarrow> b_addr l + sizeof_BlockHeader + b_size l = b_addr r"

text \<open>\<^verbatim>\<open>merge_with_next\<close> on a block and the blocks that follow it in its arena.\<close>

fun merge_run :: "block_header \<Rightarrow> block_header list \<Rightarrow> block_header list" where
  "merge_run b [] = [b]"
| "merge_run b (n # ns) =
     (if b_free n \<and> blocks_are_adjacent b n
      then merge_run (b\<lparr>b_size := b_size b + (sizeof_BlockHeader + b_size n)\<rparr>) ns
      else b # n # ns)"

definition merge_with_next :: "block_header \<Rightarrow> block_header list \<Rightarrow> block_header list" where
  "merge_with_next b ns = (if \<not> b_free b then b # ns else merge_run b ns)"

definition block_is_valid :: "heap_arena \<Rightarrow> block_header \<Rightarrow> bool" where
  "block_is_valid a b \<longleftrightarrow>
     arena_payload_start a \<le> b_addr b \<and> block_end b \<le> arena_base a + arena_capacity a"

partial_function (option) layout_loop ::
  "u64 \<Rightarrow> u64 \<Rightarrow> u64 \<Rightarrow> u64 \<Rightarrow> u64 \<Rightarrow> allocation_layout option option" where
  "layout_loop block_start b_end nbytes alignment payload_address =
     (let header = payload_address - sizeof_BlockHeader in
      if header < block_start \<or> b_end < header + sizeof_BlockHeader + nbytes then Some None
      else
        let leading = header - block_start in
        if leading = 0 \<or> minimum_block_span \<le> leading
        then Some (Some \<lparr>header_address = header, leading_span = leading,
               trailing_span = b_end - (header + sizeof_BlockHeader + nbytes)\<rparr>)
        else layout_loop block_start b_end nbytes alignment
               (align_up (payload_address + alignment) alignment))"

definition compute_layout :: "block_header \<Rightarrow> u64 \<Rightarrow> u64 \<Rightarrow> allocation_layout option option" where
  "compute_layout b nbytes alignment =
     (if \<not> b_free b then Some None
      else layout_loop (b_addr b) (block_end b) nbytes alignment
             (align_up (b_addr b + sizeof_BlockHeader) alignment))"

text \<open>The blocks that replace \<open>b\<close>, with the allocated one first.\<close>

definition commit_allocation ::
  "block_header \<Rightarrow> allocation_layout \<Rightarrow> u64 \<Rightarrow> block_header \<times> block_header list" where
  "commit_allocation b layout nbytes =
     (let pre = (if leading_span layout \<noteq> 0
                 then [\<lparr>b_addr = b_addr b, b_size = leading_span layout - sizeof_BlockHeader, b_free = True\<rparr>]
                 else []);
          addr = (if leading_span layout \<noteq> 0 then header_address layout else b_addr b)
      in if minimum_block_span \<le> trailing_span layout
         then let allocated = \<lparr>b_addr = addr, b_size = nbytes, b_free = False\<rparr>;
                  trailing = \<lparr>b_addr = header_address layout + sizeof_BlockHeader + nbytes,
                    b_size = trailing_span layout - sizeof_BlockHeader, b_free = True\<rparr>
              in (allocated, pre @ [allocated, trailing])
         else let allocated = \<lparr>b_addr = addr,
                    b_size = block_end b - (header_address layout + sizeof_BlockHeader), b_free = False\<rparr>
              in (allocated, pre @ [allocated]))"

text \<open>The page count \<^verbatim>\<open>acquire_arena\<close> asks for.\<close>

definition arena_page_count :: "u64 \<Rightarrow> u64 \<Rightarrow> u64" where
  "arena_page_count minimum_payload_bytes alignment =
     (let minimum_bytes = align_up sizeof_Arena kMinimumAlignment + sizeof_BlockHeader
            + minimum_payload_bytes + alignment;
          wanted_bytes = (if kDefaultArenaPages * kPageSize < minimum_bytes then minimum_bytes
            else kDefaultArenaPages * kPageSize)
      in (wanted_bytes + kPageSize - 1) div kPageSize)"

definition acquire_arena :: "u64 \<Rightarrow> u64 \<Rightarrow> heap_state \<Rightarrow> bool \<times> heap_state" where
  "acquire_arena minimum_payload_bytes alignment st =
     (case allocate_contiguous_pages (arena_page_count minimum_payload_bytes alignment) (h_pm st) of
        (None, pm') \<Rightarrow> (False, st\<lparr>h_pm := pm'\<rparr>)
      | (Some allocation, pm') \<Rightarrow>
          let arena = \<lparr>a_allocation = allocation, a_blocks = []\<rparr>;
              initial = \<lparr>b_addr = arena_payload_start arena,
                b_size = arena_initial_block_size arena, b_free = True\<rparr>
          in (True, st\<lparr>h_pm := pm', h_arenas := arena\<lparr>a_blocks := [initial]\<rparr> # h_arenas st\<rparr>))"

definition arena_is_fully_free :: "heap_arena \<Rightarrow> bool" where
  "arena_is_fully_free a =
     (case a_blocks a of
        [b] \<Rightarrow> b_free b \<and> b_addr b = arena_payload_start a \<and> b_size b = arena_initial_block_size a
      | _ \<Rightarrow> False)"

definition release_arena :: "nat \<Rightarrow> heap_state \<Rightarrow> heap_state" where
  "release_arena ai st =
     (if length (h_arenas st) \<le> 1 \<or> \<not> arena_is_fully_free (h_arenas st ! ai) then st
      else st\<lparr>h_arenas := take ai (h_arenas st) @ drop (Suc ai) (h_arenas st),
             h_pm := snd (free_allocation (a_allocation (h_arenas st ! ai)) (h_pm st))\<rparr>)"

fun find_in_blocks :: "u64 \<Rightarrow> u64 \<Rightarrow> block_header list \<Rightarrow> (nat \<times> allocation_layout) option option" where
  "find_in_blocks nbytes alignment [] = Some None"
| "find_in_blocks nbytes alignment (b # bs) =
     (case compute_layout b nbytes alignment of
        None \<Rightarrow> None
      | Some (Some layout) \<Rightarrow> Some (Some (0, layout))
      | Some None \<Rightarrow> map_option (map_option (apfst Suc)) (find_in_blocks nbytes alignment bs))"

fun find_allocated_block ::
  "u64 \<Rightarrow> u64 \<Rightarrow> heap_arena list \<Rightarrow> (nat \<times> nat \<times> allocation_layout) option option" where
  "find_allocated_block nbytes alignment [] = Some None"
| "find_allocated_block nbytes alignment (a # arenas) =
     (case find_in_blocks nbytes alignment (a_blocks a) of
        None \<Rightarrow> None
      | Some (Some (bi, layout)) \<Rightarrow> Some (Some (0, bi, layout))
      | Some None \<Rightarrow> map_option (map_option (apfst Suc)) (find_allocated_block nbytes alignment arenas))"

definition heap_initialize :: "pm_state \<Rightarrow> heap_state" where
  "heap_initialize pm =
     (case acquire_arena kMinimumAlignment kMinimumAlignment
             \<lparr>h_arenas = [], h_used_bytes = 0, h_ready = False, h_pm = pm\<rparr> of
        (ok, st) \<Rightarrow> st\<lparr>h_ready := ok\<rparr>)"

text \<open>The blocks of an arena after the block at an index is replaced.\<close>

definition splice :: "nat \<Rightarrow> 'a list \<Rightarrow> 'a list \<Rightarrow> 'a list" where
  "splice i new xs = take i xs @ new @ drop (Suc i) xs"

definition take_block :: "u64 \<Rightarrow> nat \<Rightarrow> nat \<Rightarrow> allocation_layout \<Rightarrow> heap_state \<Rightarrow> u64 \<times> heap_state" where
  "take_block nbytes ai bi layout st =
     (let a = h_arenas st ! ai;
          (allocated, blocks) = commit_allocation (a_blocks a ! bi) layout nbytes
      in (b_addr allocated + sizeof_BlockHeader,
          st\<lparr>h_arenas := (h_arenas st)[ai := a\<lparr>a_blocks := splice bi blocks (a_blocks a)\<rparr>],
             h_used_bytes := h_used_bytes st + b_size allocated\<rparr>))"

partial_function (option) allocate_loop ::
  "u64 \<Rightarrow> u64 \<Rightarrow> heap_state \<Rightarrow> (u64 option \<times> heap_state) option" where
  "allocate_loop nbytes alignment st =
     (case find_allocated_block nbytes alignment (h_arenas st) of
        None \<Rightarrow> None
      | Some (Some (ai, bi, layout)) \<Rightarrow> Some (apfst Some (take_block nbytes ai bi layout st))
      | Some None \<Rightarrow>
          (case acquire_arena nbytes alignment st of
             (ok, st') \<Rightarrow>
               if ok then allocate_loop nbytes alignment st' else Some (None, st')))"

definition heap_allocate :: "u64 \<Rightarrow> u64 \<Rightarrow> heap_state \<Rightarrow> (u64 option \<times> heap_state) option" where
  "heap_allocate nbytes alignment st =
     (if \<not> h_ready st \<or> nbytes = 0 then Some (None, st)
      else allocate_loop (align_up nbytes kMinimumAlignment) (normalize_alignment alignment) st)"

text \<open>The blocks of an arena after the block at \<open>bi\<close> is marked free and merged with
  its neighbours.\<close>

definition free_in_blocks :: "nat \<Rightarrow> block_header list \<Rightarrow> block_header list" where
  "free_in_blocks bi bs =
     (let pre = take bi bs;
          rest = merge_with_next ((bs ! bi)\<lparr>b_free := True\<rparr>) (drop (Suc bi) bs)
      in if pre \<noteq> [] \<and> b_free (last pre)
         then butlast pre @ merge_with_next (last pre) rest
         else pre @ rest)"

text \<open>\<open>Panicked\<close> is the call of \<^verbatim>\<open>panic\<close>; \<open>Wild\<close> is an address in front of which no block
  header of the heap stands, where the source reads memory that is not a header.\<close>

datatype free_outcome = Freed heap_state | Panicked | Wild

definition heap_free :: "u64 \<Rightarrow> heap_state \<Rightarrow> free_outcome" where
  "heap_free address st =
     (if address = 0 then Freed st
      else
        let header = address - sizeof_BlockHeader in
        case find_slot (\<lambda>a. list_ex (\<lambda>b. b_addr b = header) (a_blocks a)) (h_arenas st) of
          None \<Rightarrow> Wild
        | Some ai \<Rightarrow>
            let a = h_arenas st ! ai in
            (case find_slot (\<lambda>b. b_addr b = header) (a_blocks a) of
               None \<Rightarrow> Wild
             | Some bi \<Rightarrow>
                 let b = a_blocks a ! bi in
                 if \<not> block_is_valid a b \<or> b_free b then Panicked
                 else
                   let used = (if b_size b \<le> h_used_bytes st then h_used_bytes st - b_size b else 0);
                       a' = a\<lparr>a_blocks := free_in_blocks bi (a_blocks a)\<rparr>
                   in Freed (release_arena ai
                        (st\<lparr>h_arenas := (h_arenas st)[ai := a'], h_used_bytes := used\<rparr>))))"

definition sum_block_bytes :: "bool \<Rightarrow> bool \<Rightarrow> heap_state \<Rightarrow> u64" where
  "sum_block_bytes include_free include_used st =
     foldl (\<lambda>total b. if (b_free b \<and> include_free) \<or> (\<not> b_free b \<and> include_used)
                      then total + b_size b else total)
       0 (concat (map a_blocks (h_arenas st)))"

definition total_bytes :: "heap_state \<Rightarrow> u64" where
  "total_bytes st = sum_block_bytes True True st"

definition free_bytes :: "heap_state \<Rightarrow> u64" where
  "free_bytes st = sum_block_bytes True False st"

section \<open>Alignment of requests\<close>

lemma word_and_minus_one_exp:
  assumes "is_power_of_two v"
  shows "\<exists>k<64. v = 2 ^ k"
proof -
  have v: "v \<noteq> 0" "v AND (v - 1) = 0" using assms by (auto simp: is_power_of_two_def)
  define n where "n = unat v"
  have n: "0 < n" using v(1) by (simp add: n_def unat_gt_0)
  have and0: "n AND (n - 1) = 0"
  proof -
    have "unat (v AND (v - 1)) = unat v AND unat (v - 1)" by (simp add: unsigned_and_eq)
    moreover have "unat (v - 1) = n - 1" using v(1) by (simp add: n_def unat_minus_one)
    ultimately show ?thesis using v(2) by (simp add: n_def)
  qed
  have "\<exists>k. n = 2 ^ k" using n and0
  proof (induction n rule: less_induct)
    case (less n)
    show ?case
    proof (cases "even n")
      case True
      then obtain m where m: "n = 2 * m" by (elim evenE)
      with less.prems have "0 < m" by simp
      have "n - 1 = 2 * (m - 1) + 1" using m \<open>0 < m\<close> by simp
      moreover have "2 * m AND (2 * p + 1) = 2 * (m AND p)" for p by (subst and_rec) simp
      ultimately have "n AND (n - 1) = 2 * (m AND (m - 1))" using m by metis
      then have "m AND (m - 1) = 0" using less.prems by simp
      moreover have "m < n" using m \<open>0 < m\<close> by simp
      ultimately obtain k where "m = 2 ^ k" using less.IH \<open>0 < m\<close> by blast
      with m have "n = 2 ^ Suc k" by simp
      then show ?thesis by blast
    next
      case False
      then obtain m where m: "n = 2 * m + 1" by (elim oddE)
      have "(2 * m + 1) AND 2 * m = 2 * (m AND m)" by (subst and_rec) simp
      then have "n AND (n - 1) = 2 * m" using m by simp
      with less.prems m have "n = 2 ^ 0" by simp
      then show ?thesis by blast
    qed
  qed
  then obtain k where k: "n = 2 ^ k" by blast
  have "n < 2 ^ 64" using unsigned_less [of v, where ?'a = nat] by (simp add: n_def)
  with k have "k < 64" by (metis nat_power_less_imp_less zero_less_numeral)
  moreover have "v = of_nat n" by (simp add: n_def)
  ultimately show ?thesis using k by auto
qed

lemma normalize_alignment_exp:
  assumes "unat alignment \<le> 2 ^ 43"
  shows "\<exists>k. 4 \<le> k \<and> k \<le> 43 \<and> normalize_alignment alignment = 2 ^ k"
proof (cases "is_power_of_two alignment \<and> \<not> alignment < kMinimumAlignment")
  case True
  then obtain k where k: "k < 64" "alignment = 2 ^ k" using word_and_minus_one_exp by blast
  have u: "unat alignment = 2 ^ k"
    using k by (simp add: unat_exp)
  have "(16::nat) \<le> 2 ^ k" using True u by (simp add: kMinimumAlignment_def word_less_nat_alt)
  then have "4 \<le> k" using power_le_imp_le_exp [of "2::nat" 4 k] by simp
  moreover have "k \<le> 43" using u assms power_le_imp_le_exp [of "2::nat" k 43] by simp
  ultimately show ?thesis using True k by (auto simp: normalize_alignment_def)
next
  case False
  then have "normalize_alignment alignment = 2 ^ 4"
    by (auto simp: normalize_alignment_def kMinimumAlignment_def)
  then show ?thesis by (intro exI [of _ 4]) simp
qed

section \<open>The layout search\<close>

text \<open>Where neither the request nor the block reaches the end of the address space, the
  candidate payload moves up by the alignment until the space in front of it is
  empty or can hold a block: at most four times.\<close>

definition layout_ok :: "nat \<Rightarrow> nat \<Rightarrow> nat \<Rightarrow> nat \<Rightarrow> nat \<Rightarrow> bool" where
  "layout_ok s e n al h \<longleftrightarrow> s \<le> h \<and> al dvd h + 48 \<and> h + 48 + n \<le> e \<and> (h = s \<or> s + 64 \<le> h)"

definition layout_fits :: "nat \<Rightarrow> nat \<Rightarrow> nat \<Rightarrow> nat \<Rightarrow> allocation_layout \<Rightarrow> bool" where
  "layout_fits s e n al l \<longleftrightarrow>
     (let h = unat (header_address l) in
      layout_ok s e n al h \<and> unat (leading_span l) = h - s \<and> unat (trailing_span l) = e - (h + 48 + n))"

lemma unat_minimum_block_span [simp]: "unat minimum_block_span = 64"
  by (simp add: minimum_block_span_def heap_consts)

lemma unat_header_size [simp]: "unat sizeof_BlockHeader = 48"
  by (simp add: sizeof_BlockHeader_def)

lemma layout_loop_spec:
  fixes p :: u64
  assumes k: "4 \<le> k" "k \<le> 43" and n: "unat nbytes \<le> 2 ^ 44" and e: "unat e + 2 ^ 46 < 2 ^ 64"
    and se: "unat s + 48 \<le> unat e"
  shows "unat s + 48 \<le> unat p \<Longrightarrow> 2 ^ k dvd unat p \<Longrightarrow> unat p < unat s + 112 + 2 ^ k \<Longrightarrow>
    \<exists>r. layout_loop s e nbytes (2 ^ k) p = Some r \<and>
      (case r of None \<Rightarrow> \<forall>h. unat p \<le> h + 48 \<longrightarrow> \<not> layout_ok (unat s) (unat e) (unat nbytes) (2 ^ k) h
       | Some l \<Rightarrow> layout_fits (unat s) (unat e) (unat nbytes) (2 ^ k) l)"
proof (induction "64 - (unat p - 48 - unat s)" arbitrary: p rule: less_induct)
  case less
  have k43: "(2::nat) ^ k \<le> 2 ^ 43" using k(2) by (rule power_increasing) simp
  have k4: "(2::nat) ^ 4 \<le> 2 ^ k" using k(1) by (rule power_increasing) simp
  have h: "unat (p - sizeof_BlockHeader) = unat p - 48"
    using less.prems(1) by (simp add: unat_sub_le word_le_nat_alt)
  then have pn: "unat (p - sizeof_BlockHeader + sizeof_BlockHeader + nbytes) = unat p + unat nbytes"
    using less.prems n e se k43 by (simp add: unat_add_no_wrap)
  have sle: "s \<le> p - sizeof_BlockHeader" using h less.prems(1) by (simp add: word_le_nat_alt)
  have lead: "unat (p - sizeof_BlockHeader - s) = unat p - 48 - unat s"
    using h sle by (simp add: unat_sub_le)
  show ?case
  proof (cases "unat e < unat p + unat nbytes")
    case True
    then have "e < p - sizeof_BlockHeader + sizeof_BlockHeader + nbytes"
      using pn by (simp add: word_less_nat_alt)
    with True show ?thesis by (subst layout_loop.simps) (auto simp: Let_def layout_ok_def)
  next
    case fits: False
    then have ok: "\<not> (p - sizeof_BlockHeader < s \<or> e < p - sizeof_BlockHeader + sizeof_BlockHeader + nbytes)"
      using sle pn by (simp add: word_less_nat_alt word_le_nat_alt)
    have trail: "unat (e - (p - sizeof_BlockHeader + sizeof_BlockHeader + nbytes)) = unat e - (unat p + unat nbytes)"
      using ok pn by (subst unat_sub_le) (simp_all add: not_less)
    let ?lead = "p - sizeof_BlockHeader - s"
    show ?thesis
    proof (cases "?lead = 0 \<or> minimum_block_span \<le> ?lead")
      case True
      then have "unat p = unat s + 48 \<or> unat s + 112 \<le> unat p"
        using lead less.prems(1) by (auto simp: unat_eq_zero word_le_nat_alt)
      with True ok h lead trail less.prems fits show ?thesis
        by (subst layout_loop.simps) (auto simp: Let_def layout_fits_def layout_ok_def)
    next
      case False
      then have "unat ?lead \<noteq> 0" and "unat ?lead < 64"
        by (simp_all add: word_le_nat_alt unat_0_iff del: right_minus_eq)
      then have lt: "unat s + 48 < unat p" "unat p < unat s + 112"
        using lead less.prems(1) by linarith+
      have unext: "unat (p + 2 ^ k) = unat p + 2 ^ k"
        using lt e se k k43 by (simp add: unat_add_no_wrap unat_exp)
      have dvd: "2 ^ k dvd unat (p + 2 ^ k)" using unext less.prems(2) by simp
      have "unat (p + 2 ^ k) + 2 ^ k \<le> 2 ^ 64" using unext lt e se k43 by simp
      then have next_eq: "align_up (p + 2 ^ k) (2 ^ k) = p + 2 ^ k"
        using k dvd by (intro align_up_multiple) simp_all
      have "\<exists>r. layout_loop s e nbytes (2 ^ k) (p + 2 ^ k) = Some r \<and>
        (case r of None \<Rightarrow> \<forall>h. unat (p + 2 ^ k) \<le> h + 48 \<longrightarrow> \<not> layout_ok (unat s) (unat e) (unat nbytes) (2 ^ k) h
         | Some l \<Rightarrow> layout_fits (unat s) (unat e) (unat nbytes) (2 ^ k) l)"
      proof (rule less.hyps)
        have pos: "(0::nat) < 2 ^ k" by simp
        show "64 - (unat (p + 2 ^ k) - 48 - unat s) < 64 - (unat p - 48 - unat s)"
          unfolding unext using lt pos by linarith
        show "unat s + 48 \<le> unat (p + 2 ^ k)" "unat (p + 2 ^ k) < unat s + 112 + 2 ^ k"
          unfolding unext using lt by linarith+
      qed (rule dvd)
      then obtain r where r: "layout_loop s e nbytes (2 ^ k) (p + 2 ^ k) = Some r"
        and rs: "case r of None \<Rightarrow> \<forall>h. unat (p + 2 ^ k) \<le> h + 48 \<longrightarrow> \<not> layout_ok (unat s) (unat e) (unat nbytes) (2 ^ k) h
           | Some l \<Rightarrow> layout_fits (unat s) (unat e) (unat nbytes) (2 ^ k) l" by blast
      have skip: "unat (p + 2 ^ k) \<le> h + 48"
        if "unat p \<le> h + 48" "layout_ok (unat s) (unat e) (unat nbytes) (2 ^ k) h" for h
      proof (rule next_multiple [OF less.prems(2) _ that(1) _ unext])
        show "2 ^ k dvd h + 48" using that(2) by (simp add: layout_ok_def)
        have "h = unat s \<or> unat s + 64 \<le> h" using that(2) by (simp add: layout_ok_def)
        then show "unat p \<noteq> h + 48" using lt by linarith
      qed
      have "layout_loop s e nbytes (2 ^ k) p = Some r"
        using False ok next_eq r by (subst layout_loop.simps) (simp only: Let_def if_False)
      moreover have "\<not> layout_ok (unat s) (unat e) (unat nbytes) (2 ^ k) h"
        if "r = None" "unat p \<le> h + 48" for h
        using rs skip [OF that(2)] that(1) by fastforce
      ultimately show ?thesis using rs by (cases r) simp_all
    qed
  qed
qed


lemma compute_layout_spec:
  assumes k: "4 \<le> k" "k \<le> 43" and n: "unat nbytes \<le> 2 ^ 44"
    and e: "unat (b_addr b) + 48 + unat (b_size b) + 2 ^ 46 < 2 ^ 64"
  shows "\<exists>r. compute_layout b nbytes (2 ^ k) = Some r \<and>
    (case r of
       None \<Rightarrow> b_free b \<longrightarrow> (\<forall>h. \<not> layout_ok (unat (b_addr b)) (unat (block_end b)) (unat nbytes) (2 ^ k) h)
     | Some l \<Rightarrow> b_free b \<and> layout_fits (unat (b_addr b)) (unat (block_end b)) (unat nbytes) (2 ^ k) l)"
proof (cases "b_free b")
  case False
  then show ?thesis by (simp add: compute_layout_def)
next
  case True
  let ?s = "b_addr b" and ?p = "align_up (b_addr b + sizeof_BlockHeader) (2 ^ k)"
  have k43: "(2::nat) ^ k \<le> 2 ^ 43" using k(2) by (rule power_increasing) simp
  have s48: "unat (?s + sizeof_BlockHeader) = unat ?s + 48" using e by (simp add: unat_add_no_wrap)
  have be: "unat (block_end b) = unat ?s + 48 + unat (b_size b)"
    using e s48 by (simp add: block_end_def unat_add_no_wrap)
  have "unat ?s + 48 + (2 ^ k - 1) < 2 ^ 64" using e k43 by simp
  then have up: "unat ?p = (unat ?s + 48 + (2 ^ k - 1)) - (unat ?s + 48 + (2 ^ k - 1)) mod 2 ^ k"
    using k s48 by (simp add: unat_align_up)
  note bounds = nat_round_up_bounds [of "2 ^ k" "unat ?s + 48", folded up]
  have dvd: "2 ^ k dvd unat ?p" by (rule align_up_dvd)
  have first: "unat ?p \<le> h + 48" if "unat ?s \<le> h" "2 ^ k dvd h + 48" for h
  proof (rule ccontr)
    assume "\<not> unat ?p \<le> h + 48"
    moreover from this have "h + 48 + 2 ^ k \<le> unat ?p"
      using next_multiple [OF that(2) dvd] by simp
    ultimately show False using bounds(2) that(1) by simp
  qed
  have "\<exists>r. layout_loop ?s (block_end b) nbytes (2 ^ k) ?p = Some r \<and>
      (case r of None \<Rightarrow> \<forall>h. unat ?p \<le> h + 48 \<longrightarrow> \<not> layout_ok (unat ?s) (unat (block_end b)) (unat nbytes) (2 ^ k) h
       | Some l \<Rightarrow> layout_fits (unat ?s) (unat (block_end b)) (unat nbytes) (2 ^ k) l)"
    using bounds dvd be e by (intro layout_loop_spec [OF k n]) simp_all
  then obtain r where r: "layout_loop ?s (block_end b) nbytes (2 ^ k) ?p = Some r"
    and rs: "case r of None \<Rightarrow> \<forall>h. unat ?p \<le> h + 48 \<longrightarrow> \<not> layout_ok (unat ?s) (unat (block_end b)) (unat nbytes) (2 ^ k) h
       | Some l \<Rightarrow> layout_fits (unat ?s) (unat (block_end b)) (unat nbytes) (2 ^ k) l"
    by blast
  have "compute_layout b nbytes (2 ^ k) = Some r" using True r by (simp add: compute_layout_def)
  moreover have "\<forall>h. \<not> layout_ok (unat ?s) (unat (block_end b)) (unat nbytes) (2 ^ k) h" if "r = None"
    using that rs first by (auto simp: layout_ok_def)
  ultimately show ?thesis using True rs by (cases r) auto
qed

section \<open>Blocks tile an arena\<close>

fun tiles :: "nat \<Rightarrow> block_header list \<Rightarrow> nat \<Rightarrow> bool" where
  "tiles lo [] hi \<longleftrightarrow> lo = hi"
| "tiles lo (b # bs) hi \<longleftrightarrow> unat (b_addr b) = lo \<and> tiles (lo + 48 + unat (b_size b)) bs hi"

definition separated :: "block_header list \<Rightarrow> bool" where
  "separated bs \<longleftrightarrow> successively (\<lambda>a b. \<not> (b_free a \<and> b_free b)) bs"

definition used_blocks :: "block_header list \<Rightarrow> block_header list" where
  "used_blocks bs = filter (\<lambda>b. \<not> b_free b) bs"

lemma used_blocks_simps [simp]:
  "used_blocks [] = []"
  "used_blocks (b # bs) = (if b_free b then used_blocks bs else b # used_blocks bs)"
  "used_blocks (xs @ ys) = used_blocks xs @ used_blocks ys"
  by (simp_all add: used_blocks_def)

lemma tiles_append: "tiles lo (xs @ ys) hi \<longleftrightarrow> (\<exists>m. tiles lo xs m \<and> tiles m ys hi)"
  by (induction xs arbitrary: lo) auto

lemma tiles_le: "tiles lo bs hi \<Longrightarrow> lo + 48 * length bs + sum_list (map (unat \<circ> b_size) bs) = hi"
  by (induction bs arbitrary: lo) fastforce+

lemma tiles_bounds:
  assumes "tiles lo bs hi" and "b \<in> set bs"
  shows "lo \<le> unat (b_addr b)" and "unat (b_addr b) + 48 + unat (b_size b) \<le> hi"
  using assms
proof (induction bs arbitrary: lo)
  case (Cons c bs)
  { case 1 with Cons.IH(1) [of "lo + 48 + unat (b_size c)"] show ?case by fastforce }
  { case 2 with Cons.IH(2) [of "lo + 48 + unat (b_size c)"] tiles_le [of _ bs hi] show ?case by fastforce }
qed simp_all

lemma tiles_addr_order:
  assumes "tiles lo bs hi"
  shows "sorted_wrt (\<lambda>a b. unat (b_addr a) + 48 + unat (b_size a) \<le> unat (b_addr b)) bs"
  using assms
proof (induction bs arbitrary: lo)
  case (Cons c bs)
  then have "tiles (lo + 48 + unat (b_size c)) bs hi" "unat (b_addr c) = lo" by simp_all
  with Cons.IH [of "lo + 48 + unat (b_size c)"] tiles_bounds(1) show ?case by fastforce
qed simp

lemma unat_block_end:
  assumes "unat (b_addr b) + 48 + unat (b_size b) < 2 ^ 64"
  shows "unat (block_end b) = unat (b_addr b) + 48 + unat (b_size b)"
proof -
  have "unat (b_addr b + sizeof_BlockHeader) = unat (b_addr b) + 48"
    using assms by (simp add: unat_add_no_wrap)
  with assms show ?thesis by (simp add: block_end_def unat_add_no_wrap)
qed

text \<open>Committing a layout splits the block into at most three that tile it; only the
  middle one is in use.\<close>

lemma commit_allocation_spec:
  assumes b: "unat (b_addr b) + 48 + unat (b_size b) < 2 ^ 64" and free: "b_free b"
    and l: "layout_fits (unat (b_addr b)) (unat (block_end b)) (unat nbytes) al l"
    and c: "commit_allocation b l nbytes = (x, new)"
  shows "tiles (unat (b_addr b)) new (unat (block_end b))"
    and "used_blocks new = [x]"
    and "al dvd unat (b_addr x) + 48" and "nbytes \<le> b_size x" and "x \<in> set new"
    and "\<And>L R. separated (L @ b # R) \<Longrightarrow> separated (L @ new @ R)"
proof -
  let ?s = "unat (b_addr b)" and ?e = "unat (block_end b)" and ?h = "unat (header_address l)"
  have e: "?e = ?s + 48 + unat (b_size b)" by (rule unat_block_end [OF b])
  have ok: "?s \<le> ?h" "al dvd ?h + 48" "?h + 48 + unat nbytes \<le> ?e" "?h = ?s \<or> ?s + 64 \<le> ?h"
    and lead: "unat (leading_span l) = ?h - ?s" and trail: "unat (trailing_span l) = ?e - (?h + 48 + unat nbytes)"
    using l by (auto simp: layout_fits_def layout_ok_def Let_def)
  have lead0: "leading_span l = 0 \<longleftrightarrow> ?h = ?s"
    using lead ok(1) by (metis diff_is_0_eq le_antisym order_refl unat_eq_zero)
  have h0: "leading_span l = 0 \<Longrightarrow> header_address l = b_addr b"
    using lead0 by (simp add: word_unat_eq_iff)
  have e64: "?e < 2 ^ 64" using unsigned_less [of "block_end b", where ?'a = nat] by simp
  have p: "unat (header_address l + sizeof_BlockHeader) = ?h + 48"
    using ok e64 by (simp add: unat_add_no_wrap)
  then have q: "unat (header_address l + sizeof_BlockHeader + nbytes) = ?h + 48 + unat nbytes"
    using ok e64 by (simp add: unat_add_no_wrap)
  have r: "unat (block_end b - (header_address l + sizeof_BlockHeader)) = ?e - (?h + 48)"
    using ok p by (subst unat_sub_le) (simp_all add: word_le_nat_alt)
  have pre: "unat (leading_span l - sizeof_BlockHeader) = ?h - ?s - 48" if "leading_span l \<noteq> 0"
    using that lead0 ok lead by (subst unat_sub_le) (auto simp: word_le_nat_alt)
  have post: "unat (trailing_span l - sizeof_BlockHeader) = ?e - (?h + 48 + unat nbytes) - 48"
    if "minimum_block_span \<le> trailing_span l"
    using that trail by (subst unat_sub_le) (auto simp: word_le_nat_alt)
  have big: "?h + 48 + unat nbytes + 64 \<le> ?e" if "minimum_block_span \<le> trailing_span l"
    using that trail by (simp add: word_le_nat_alt)
  show "tiles ?s new ?e"
    using c ok lead0 h0 pre post q r big e
    by (auto simp: commit_allocation_def Let_def split: if_splits)
  show "used_blocks new = [x]" "x \<in> set new"
    using c by (auto simp: commit_allocation_def Let_def split: if_splits)
  show "al dvd unat (b_addr x) + 48"
    using c ok(2) h0 by (auto simp: commit_allocation_def Let_def split: if_splits)
  show "nbytes \<le> b_size x"
    using c ok(3) r by (auto simp: commit_allocation_def Let_def word_le_nat_alt split: if_splits)
  show "separated (L @ new @ R)" if "separated (L @ b # R)" for L R
    using that free c
    by (auto simp: separated_def successively_append_iff successively_Cons commit_allocation_def Let_def
        split: if_splits)
qed

text \<open>Freeing a block: it merges with the free blocks on both sides, so the blocks
  still tile the arena, no two neighbours are free, and the blocks in use are the
  others.\<close>

lemma merge_run_spec:
  assumes "tiles lo (b # ns) hi" and "hi < 2 ^ 64" and "b_free b" and "separated ns"
  shows "\<exists>c ms. merge_run b ns = c # ms \<and> b_free c \<and> tiles lo (c # ms) hi \<and>
    separated (c # ms) \<and> used_blocks ms = used_blocks ns"
proof (cases ns)
  case Nil
  with assms show ?thesis by (simp add: separated_def)
next
  case (Cons n ms)
  have n: "unat (b_addr n) = unat (b_addr b) + 48 + unat (b_size b)" and lo: "unat (b_addr b) = lo"
    and tl: "tiles (unat (b_addr n) + 48 + unat (b_size n)) ms hi"
    using assms(1) Cons by simp_all
  have "unat (b_addr b) + 48 + unat (b_size b) < 2 ^ 64"
    using n unsigned_less [of "b_addr n", where ?'a = nat] by simp
  then have adj: "blocks_are_adjacent b n"
    using n unat_block_end [of b] by (simp add: blocks_are_adjacent_def block_end_def word_unat_eq_iff)
  show ?thesis
  proof (cases "b_free n")
    case False
    with assms Cons show ?thesis by (simp add: separated_def)
  next
    case True
    let ?c = "b\<lparr>b_size := b_size b + (sizeof_BlockHeader + b_size n)\<rparr>"
    have hi: "unat (b_addr n) + 48 + unat (b_size n) \<le> hi" using tiles_le [OF tl] by simp
    have "unat (sizeof_BlockHeader + b_size n) = 48 + unat (b_size n)"
      using hi assms(2) by (simp add: unat_add_no_wrap)
    then have "unat (b_size ?c) = unat (b_size b) + 48 + unat (b_size n)"
      using hi assms(2) n by (simp add: unat_add_no_wrap)
    with tl n lo have t: "tiles lo (?c # ms) hi" by (simp add: add.commute add.left_commute)
    have nf: "ms \<noteq> [] \<Longrightarrow> \<not> b_free (hd ms)" "separated ms"
      using assms(4) Cons True by (auto simp: separated_def successively_Cons)
    then have stop: "merge_run ?c ms = ?c # ms" by (cases ms) auto
    have "separated (?c # ms)"
      using nf assms(3) by (cases ms) (auto simp: separated_def successively_Cons)
    with stop t Cons True adj assms(3) show ?thesis by auto
  qed
qed

lemma free_in_blocks_spec:
  assumes t: "tiles lo (L @ b # R) hi" and hi: "hi < 2 ^ 64" and sep: "separated (L @ b # R)"
    and used: "\<not> b_free b"
  shows "tiles lo (free_in_blocks (length L) (L @ b # R)) hi"
    and "separated (free_in_blocks (length L) (L @ b # R))"
    and "used_blocks (free_in_blocks (length L) (L @ b # R)) = used_blocks L @ used_blocks R"
proof -
  let ?b = "b\<lparr>b_free := True\<rparr>"
  obtain m where m: "tiles lo L m" "tiles m (b # R) hi" using t by (auto simp: tiles_append)
  then have "tiles m (?b # R) hi" by simp
  moreover have sR: "separated R" and sL: "separated L"
    using sep by (auto simp: separated_def successively_append_iff successively_Cons)
  ultimately obtain c ms where cm: "merge_run ?b R = c # ms" "b_free c" "tiles m (c # ms) hi"
    "separated (c # ms)" "used_blocks ms = used_blocks R"
    using merge_run_spec [of m ?b R hi] hi by auto
  have rest: "merge_with_next ?b R = c # ms" using cm by (simp add: merge_with_next_def)
  have "tiles lo (free_in_blocks (length L) (L @ b # R)) hi \<and>
    separated (free_in_blocks (length L) (L @ b # R)) \<and>
    used_blocks (free_in_blocks (length L) (L @ b # R)) = used_blocks L @ used_blocks R"
  proof (cases "L \<noteq> [] \<and> b_free (last L)")
    case False
    then have "free_in_blocks (length L) (L @ b # R) = L @ c # ms"
      using rest by (auto simp: free_in_blocks_def)
    with False m cm sL show ?thesis
      by (auto simp: tiles_append separated_def successively_append_iff)
  next
    case True
    then obtain K p where L: "L = K @ [p]" and p: "b_free p" by (cases L rule: rev_cases) auto
    obtain m' where m': "tiles lo K m'" "tiles m' [p] m" using m L by (auto simp: tiles_append)
    then have "tiles m' (p # c # ms) hi" using cm by simp
    from merge_run_spec [OF this hi p cm(4)] obtain d ks where dk: "merge_run p (c # ms) = d # ks"
      "b_free d" "tiles m' (d # ks) hi" "separated (d # ks)" "used_blocks ks = used_blocks (c # ms)"
      by blast
    have "free_in_blocks (length L) (L @ b # R) = K @ d # ks"
      using rest L p dk(1) by (simp add: free_in_blocks_def merge_with_next_def nth_append)
    moreover have "K = [] \<or> \<not> b_free (last K)" "separated K"
      using sL L p by (auto simp: separated_def successively_append_iff)
    ultimately show ?thesis
      using m' dk cm L p by (auto simp: tiles_append separated_def successively_append_iff)
  qed
  then show "tiles lo (free_in_blocks (length L) (L @ b # R)) hi"
    "separated (free_in_blocks (length L) (L @ b # R))"
    "used_blocks (free_in_blocks (length L) (L @ b # R)) = used_blocks L @ used_blocks R" by auto
qed

section \<open>The search over arenas\<close>

lemma find_in_blocks_spec:
  assumes k: "4 \<le> k" "k \<le> 43" and n: "unat nbytes \<le> 2 ^ 44"
    and e: "\<forall>b\<in>set bs. unat (b_addr b) + 48 + unat (b_size b) + 2 ^ 46 < 2 ^ 64"
  shows "\<exists>r. find_in_blocks nbytes (2 ^ k) bs = Some r \<and>
    (case r of
       None \<Rightarrow> \<forall>b\<in>set bs. b_free b \<longrightarrow>
         (\<forall>h. \<not> layout_ok (unat (b_addr b)) (unat (block_end b)) (unat nbytes) (2 ^ k) h)
     | Some (i, l) \<Rightarrow> i < length bs \<and> b_free (bs ! i) \<and>
         layout_fits (unat (b_addr (bs ! i))) (unat (block_end (bs ! i))) (unat nbytes) (2 ^ k) l)"
  using e
proof (induction bs)
  case (Cons b bs)
  from compute_layout_spec [OF k n, of b] Cons.prems obtain r where
    r: "compute_layout b nbytes (2 ^ k) = Some r"
    "case r of
       None \<Rightarrow> b_free b \<longrightarrow> (\<forall>h. \<not> layout_ok (unat (b_addr b)) (unat (block_end b)) (unat nbytes) (2 ^ k) h)
     | Some l \<Rightarrow> b_free b \<and> layout_fits (unat (b_addr b)) (unat (block_end b)) (unat nbytes) (2 ^ k) l"
    by auto
  show ?case
  proof (cases r)
    case (Some l)
    with r show ?thesis by simp
  next
    case None
    from Cons obtain q where "find_in_blocks nbytes (2 ^ k) bs = Some q"
      "case q of
       None \<Rightarrow> \<forall>b\<in>set bs. b_free b \<longrightarrow>
         (\<forall>h. \<not> layout_ok (unat (b_addr b)) (unat (block_end b)) (unat nbytes) (2 ^ k) h)
     | Some (i, l) \<Rightarrow> i < length bs \<and> b_free (bs ! i) \<and>
         layout_fits (unat (b_addr (bs ! i))) (unat (block_end (bs ! i))) (unat nbytes) (2 ^ k) l"
      by auto
    with None r show ?thesis by (cases q) auto
  qed
qed simp

lemma find_allocated_block_spec:
  assumes k: "4 \<le> k" "k \<le> 43" and n: "unat nbytes \<le> 2 ^ 44"
    and e: "\<forall>a\<in>set as. \<forall>b\<in>set (a_blocks a). unat (b_addr b) + 48 + unat (b_size b) + 2 ^ 46 < 2 ^ 64"
  shows "\<exists>r. find_allocated_block nbytes (2 ^ k) as = Some r \<and>
    (case r of
       None \<Rightarrow> \<forall>a\<in>set as. \<forall>b\<in>set (a_blocks a). b_free b \<longrightarrow>
         (\<forall>h. \<not> layout_ok (unat (b_addr b)) (unat (block_end b)) (unat nbytes) (2 ^ k) h)
     | Some (j, i, l) \<Rightarrow> j < length as \<and> i < length (a_blocks (as ! j)) \<and> b_free (a_blocks (as ! j) ! i) \<and>
         layout_fits (unat (b_addr (a_blocks (as ! j) ! i))) (unat (block_end (a_blocks (as ! j) ! i)))
           (unat nbytes) (2 ^ k) l)"
  using e
proof (induction as)
  case (Cons a as)
  from find_in_blocks_spec [OF k n, of "a_blocks a"] Cons.prems obtain r where
    r: "find_in_blocks nbytes (2 ^ k) (a_blocks a) = Some r"
    "case r of
       None \<Rightarrow> \<forall>b\<in>set (a_blocks a). b_free b \<longrightarrow>
         (\<forall>h. \<not> layout_ok (unat (b_addr b)) (unat (block_end b)) (unat nbytes) (2 ^ k) h)
     | Some (i, l) \<Rightarrow> i < length (a_blocks a) \<and> b_free (a_blocks a ! i) \<and>
         layout_fits (unat (b_addr (a_blocks a ! i))) (unat (block_end (a_blocks a ! i))) (unat nbytes) (2 ^ k) l"
    by auto
  show ?case
  proof (cases r)
    case (Some il)
    with r show ?thesis by (cases il) simp
  next
    case None
    from Cons obtain q where "find_allocated_block nbytes (2 ^ k) as = Some q"
      "case q of
       None \<Rightarrow> \<forall>a\<in>set as. \<forall>b\<in>set (a_blocks a). b_free b \<longrightarrow>
         (\<forall>h. \<not> layout_ok (unat (b_addr b)) (unat (block_end b)) (unat nbytes) (2 ^ k) h)
     | Some (j, i, l) \<Rightarrow> j < length as \<and> i < length (a_blocks (as ! j)) \<and> b_free (a_blocks (as ! j) ! i) \<and>
         layout_fits (unat (b_addr (a_blocks (as ! j) ! i))) (unat (block_end (a_blocks (as ! j) ! i)))
           (unat nbytes) (2 ^ k) l"
      by auto
    with None r show ?thesis by (cases q) auto
  qed
qed simp

section \<open>The heap invariant\<close>

text \<open>What the heap relies on from the boot environment: the direct map is page
  aligned and every page the allocator owns lies at least 64 TiB below the end of
  the address space once mapped.\<close>

definition direct_map_ok :: "pm_state \<Rightarrow> bool" where
  "direct_map_ok pm \<longleftrightarrow> 4096 dvd unat (g_hhdm_offset pm) \<and>
     (\<forall>x\<in>free_set (g_regions pm). unat x + unat (g_hhdm_offset pm) + 1 + 2 ^ 46 < 2 ^ 64)"

definition arena_wf :: "u64 \<Rightarrow> heap_arena \<Rightarrow> bool" where
  "arena_wf hhdm a \<longleftrightarrow>
     (let pa = physical_address (a_allocation a); n = page_count (a_allocation a);
          base = unat pa + unat hhdm in
      virtual_address (a_allocation a) = pa + hhdm \<and> base + unat n * 4096 + 2 ^ 46 < 2 ^ 64 \<and>
      tiles (base + 48) (a_blocks a) (base + unat n * 4096) \<and> separated (a_blocks a))"

definition live_blocks :: "heap_state \<Rightarrow> block_header list" where
  "live_blocks st = concat (map (\<lambda>a. used_blocks (a_blocks a)) (h_arenas st))"

definition heap_shape :: "heap_state \<Rightarrow> bool" where
  "heap_shape st \<longleftrightarrow> pm.holds (h_pm st) (map a_allocation (h_arenas st)) \<and> direct_map_ok (h_pm st) \<and>
     (\<forall>a\<in>set (h_arenas st). arena_wf (g_hhdm_offset (h_pm st)) a)"

definition heap_inv :: "heap_state \<Rightarrow> bool" where
  "heap_inv st \<longleftrightarrow> heap_shape st \<and>
     unat (h_used_bytes st) = sum_list (map (unat \<circ> b_size) (live_blocks st)) \<and>
     (h_ready st \<longrightarrow> h_arenas st \<noteq> [])"

definition footprint :: "block_header \<Rightarrow> nat set" where
  "footprint b = {unat (b_addr b) ..< unat (b_addr b) + 48 + unat (b_size b)}"

definition arena_span :: "u64 \<Rightarrow> heap_arena \<Rightarrow> nat set" where
  "arena_span hhdm a =
     (let base = unat (physical_address (a_allocation a)) + unat hhdm
      in {base ..< base + unat (page_count (a_allocation a)) * 4096})"

lemma arena_span_extent:
  assumes "unat (physical_address (a_allocation a)) + unat (page_count (a_allocation a)) * 4096 < 2 ^ 64"
  shows "arena_span hhdm a = (\<lambda>x. unat x + unat hhdm) ` alloc_extent (a_allocation a)"
proof -
  let ?pa = "physical_address (a_allocation a)" and ?n = "page_count (a_allocation a)"
  have e: "unat (?pa + ?n * kPageSize) = unat ?pa + unat ?n * 4096"
    using assms unat_page_bytes [of ?n] by (simp add: unat_add_no_wrap)
  have "y \<in> (\<lambda>x. unat x + unat hhdm) ` alloc_extent (a_allocation a)" if "y \<in> arena_span hhdm a" for y
  proof -
    let ?x = "of_nat (y - unat hhdm) :: u64"
    have y: "unat ?pa + unat hhdm \<le> y" "y < unat ?pa + unat hhdm + unat ?n * 4096"
      using that by (auto simp: arena_span_def Let_def)
    then have "y - unat hhdm < 2 ^ 64" using assms by simp
    then have "unat ?x = y - unat hhdm" by (simp add: unat_of_nat)
    then have "?x \<in> alloc_extent (a_allocation a)" and "y = unat ?x + unat hhdm"
      using y e by (auto simp: alloc_extent_def word_le_nat_alt word_less_nat_alt)
    then show ?thesis by (rule_tac image_eqI)
  qed
  moreover have "unat x + unat hhdm \<in> arena_span hhdm a" if "x \<in> alloc_extent (a_allocation a)" for x
    using that e by (auto simp: arena_span_def alloc_extent_def word_le_nat_alt word_less_nat_alt Let_def)
  ultimately show ?thesis by auto
qed

lemma spans_disjoint:
  assumes "pm.holds p (map a_allocation as)"
  shows "sorted_wrt (\<lambda>a b. arena_span hhdm a \<inter> arena_span hhdm b = {}) as"
proof -
  have ext: "\<forall>a\<in>set as. arena_span hhdm a = (\<lambda>x. unat x + unat hhdm) ` alloc_extent (a_allocation a)"
    using assms arena_span_extent by (auto simp: pm.holds_def)
  have dis: "sorted_wrt (\<lambda>a b. alloc_extent (a_allocation a) \<inter> alloc_extent (a_allocation b) = {}) as"
    using assms by (auto simp: pm.holds_def sorted_wrt_map)
  show ?thesis
  proof (rule sorted_wrt_mono_rel [OF _ dis])
    fix a b assume "a \<in> set as" "b \<in> set as"
      "alloc_extent (a_allocation a) \<inter> alloc_extent (a_allocation b) = {}"
    then show "arena_span hhdm a \<inter> arena_span hhdm b = {}"
      using ext by (auto simp: word_unat_eq_iff [symmetric])
  qed
qed

lemma arena_used_in_span:
  assumes "arena_wf hhdm a" and "b \<in> set (a_blocks a)"
  shows "footprint b \<subseteq> arena_span hhdm a"
    and "unat (b_addr b) + 48 + unat (b_size b) + 2 ^ 46 < 2 ^ 64"
  using assms tiles_bounds [of _ "a_blocks a" _ b]
  by (fastforce simp: arena_wf_def arena_span_def footprint_def Let_def)+

lemma arena_used_disjoint:
  assumes "arena_wf hhdm a"
  shows "sorted_wrt (\<lambda>b c. footprint b \<inter> footprint c = {}) (used_blocks (a_blocks a))"
proof -
  have "sorted_wrt (\<lambda>b c. unat (b_addr b) + 48 + unat (b_size b) \<le> unat (b_addr c)) (used_blocks (a_blocks a))"
    using assms tiles_addr_order unfolding used_blocks_def arena_wf_def Let_def
    by (blast intro: sorted_wrt_filter)
  then show ?thesis by (rule sorted_wrt_mono_rel [rotated]) (auto simp: footprint_def)
qed

text \<open>Live allocations never overlap, headers included.\<close>

lemma live_blocks_disjoint:
  assumes "heap_shape st"
  shows "sorted_wrt (\<lambda>b c. footprint b \<inter> footprint c = {}) (live_blocks st)"
proof -
  let ?hh = "g_hhdm_offset (h_pm st)"
  have "sorted_wrt (\<lambda>a b. arena_span ?hh a \<inter> arena_span ?hh b = {}) (h_arenas st)"
    using assms spans_disjoint by (auto simp: heap_shape_def)
  moreover have "\<forall>a\<in>set (h_arenas st). arena_wf ?hh a" using assms by (simp add: heap_shape_def)
  ultimately show ?thesis
    unfolding live_blocks_def using arena_used_disjoint arena_used_in_span(1)
    by (intro sorted_wrt_disjoint_concat [where S = "arena_span ?hh"]) (auto simp: used_blocks_def)
qed

lemma live_bytes_bound:
  assumes "heap_shape st"
  shows "sum_list (map (unat \<circ> b_size) (live_blocks st)) < 2 ^ 64"
proof -
  have "footprint b \<subseteq> {..<2 ^ 64 - 1}" if "b \<in> set (live_blocks st)" for b
    using that assms arena_used_in_span(2)
    by (fastforce simp: live_blocks_def heap_shape_def used_blocks_def footprint_def)
  then have "sum_list (map (card \<circ> footprint) (live_blocks st)) \<le> 2 ^ 64 - 1"
    by (intro sum_card_disjoint_le [OF live_blocks_disjoint [OF assms]]) auto
  moreover have "sum_list (map (unat \<circ> b_size) bs) \<le> sum_list (map (card \<circ> footprint) bs)" for bs
    by (induction bs) (auto simp: footprint_def)
  ultimately have "sum_list (map (unat \<circ> b_size) (live_blocks st)) \<le> 2 ^ 64 - 1"
    using order.trans by blast
  then show ?thesis by simp
qed

section \<open>Acquiring an arena\<close>

lemma align_up_sizes [simp]: "align_up sizeof_Arena kMinimumAlignment = 48"
  by (simp add: align_up_def heap_consts)

lemma round_to_pages:
  "(x::nat) \<le> (x + 4095) div 4096 * 4096 \<and> (x + 4095) div 4096 * 4096 < x + 4096"
proof -
  have "(x + 4095) div 4096 * 4096 + (x + 4095) mod 4096 = x + 4095" by (rule div_mult_mod_eq)
  moreover have "(x + 4095) mod 4096 < 4096" by simp
  ultimately show ?thesis by linarith
qed

lemma arena_page_count_bounds:
  assumes k: "4 \<le> k" "k \<le> 43" and n: "unat nbytes \<le> 2 ^ 44"
  shows "unat (arena_page_count nbytes (2 ^ k)) * 4096 < 2 ^ 64"
    and "96 + unat nbytes + 2 ^ k \<le> unat (arena_page_count nbytes (2 ^ k)) * 4096"
    and "unat (arena_page_count nbytes (2 ^ k)) * 4096 < max 65536 (96 + unat nbytes + 2 ^ k) + 4096"
proof -
  have k43: "(2::nat) ^ k \<le> 2 ^ 43" using k(2) by (rule power_increasing) simp
  let ?min = "align_up sizeof_Arena kMinimumAlignment + sizeof_BlockHeader + nbytes + 2 ^ k :: u64"
  have "unat (48 + sizeof_BlockHeader :: u64) = 96" by (simp add: sizeof_BlockHeader_def)
  then have "unat (48 + sizeof_BlockHeader + nbytes) = 96 + unat nbytes"
    using n by (simp add: unat_add_no_wrap)
  then have mn: "unat ?min = 96 + unat nbytes + 2 ^ k"
    using n k k43 by (simp add: unat_add_no_wrap unat_exp)
  let ?w = "if kDefaultArenaPages * kPageSize < ?min then ?min else kDefaultArenaPages * kPageSize"
  have w: "unat ?w = max 65536 (96 + unat nbytes + 2 ^ k)"
    using mn by (simp add: heap_consts kPageSize_def word_less_nat_alt)
  then have wb: "unat ?w \<le> 2 ^ 46" using n k43 by simp
  have "unat (?w + kPageSize) = unat ?w + 4096" using wb by (simp add: kPageSize_def unat_add_no_wrap)
  then have "unat (?w + kPageSize - 1) = unat ?w + 4095"
    by (subst unat_sub_le) (simp_all add: word_le_nat_alt)
  then have p: "unat (arena_page_count nbytes (2 ^ k)) = (unat ?w + 4095) div 4096"
    unfolding arena_page_count_def Let_def by (simp add: unat_div kPageSize_def)
  show "unat (arena_page_count nbytes (2 ^ k)) * 4096 < 2 ^ 64" using p wb by simp
  have "unat ?w \<le> unat (arena_page_count nbytes (2 ^ k)) * 4096 \<and>
      unat (arena_page_count nbytes (2 ^ k)) * 4096 < unat ?w + 4096" unfolding p by (rule round_to_pages)
  then show "96 + unat nbytes + 2 ^ k \<le> unat (arena_page_count nbytes (2 ^ k)) * 4096"
    and "unat (arena_page_count nbytes (2 ^ k)) * 4096 < max 65536 (96 + unat nbytes + 2 ^ k) + 4096"
    unfolding w by linarith+
qed

lemma acquire_arena_refused: "acquire_arena nbytes al st = (False, st') \<Longrightarrow> st' = st"
  using allocate_None(1) by (auto simp: acquire_arena_def Let_def split: prod.splits option.splits)

lemma acquire_arena_spec:
  assumes k: "4 \<le> k" "k \<le> 43" and n: "unat nbytes \<le> 2 ^ 44" and shape: "heap_shape st"
    and acq: "acquire_arena nbytes (2 ^ k) st = (True, st')"
  shows "\<exists>a pm'. allocate_contiguous_pages (arena_page_count nbytes (2 ^ k)) (h_pm st) = (Some (a_allocation a), pm') \<and>
     st' = st\<lparr>h_pm := pm', h_arenas := a # h_arenas st\<rparr> \<and>
     a_blocks a = [\<lparr>b_addr = arena_payload_start a, b_size = arena_initial_block_size a, b_free = True\<rparr>] \<and>
     page_count (a_allocation a) = arena_page_count nbytes (2 ^ k) \<and>
     4096 dvd unat (arena_base a) \<and>
     unat (arena_payload_start a) = unat (arena_base a) + 48 \<and>
     unat (arena_base a) + 96 + unat (arena_initial_block_size a) =
       unat (arena_base a) + unat (arena_page_count nbytes (2 ^ k)) * 4096 \<and>
     heap_shape st' \<and> region_pages (g_regions pm') < region_pages (g_regions (h_pm st))"
proof -
  let ?n = "arena_page_count nbytes (2 ^ k)" and ?hh = "g_hhdm_offset (h_pm st)"
  note pages = arena_page_count_bounds [OF k n]
  obtain al pm' where al: "allocate_contiguous_pages ?n (h_pm st) = (Some al, pm')"
    using acq by (auto simp: acquire_arena_def split: prod.splits option.splits)
  define a where "a = (let arena = \<lparr>a_allocation = al, a_blocks = []\<rparr> in
    arena\<lparr>a_blocks := [\<lparr>b_addr = arena_payload_start arena, b_size = arena_initial_block_size arena, b_free = True\<rparr>]\<rparr>)"
  have alloc: "a_allocation a = al" by (simp add: a_def Let_def)
  have blocks: "a_blocks a = [\<lparr>b_addr = arena_payload_start a, b_size = arena_initial_block_size a, b_free = True\<rparr>]"
    by (simp add: a_def Let_def arena_payload_start_def arena_initial_block_size_def arena_base_def arena_capacity_def)
  have st': "st' = st\<lparr>h_pm := pm', h_arenas := a # h_arenas st\<rparr>"
    using acq al by (simp add: acquire_arena_def a_def Let_def)
  have inv: "pm_inv (h_pm st)" and dm: "direct_map_ok (h_pm st)"
    and holds: "pm.holds (h_pm st) (map a_allocation (h_arenas st))"
    using shape by (auto simp: heap_shape_def pm.holds_def)
  note spec = allocate_spec [OF inv pages(1) al]
  obtain r where al_eq: "virtual_address al = physical_address al + ?hh"
    by (rule allocate_SomeE [OF al]) auto
  let ?pa = "physical_address al"
  have e: "unat (?pa + ?n * kPageSize) = unat ?pa + unat ?n * 4096"
    using spec(4) unat_page_bytes [OF pages(1)] by (simp add: unat_add_no_wrap)
  have npos: "0 < unat ?n" using spec(3) by (simp add: unat_gt_0)
  let ?last = "?pa + ?n * kPageSize - 1"
  have last: "unat ?last = unat ?pa + unat ?n * 4096 - 1"
    using e npos by (subst unat_sub_le) (auto simp: word_le_nat_alt)
  have "?last \<in> alloc_extent al"
    using last e npos spec(2) by (auto simp: alloc_extent_def word_le_nat_alt word_less_nat_alt)
  then have "unat ?last + unat ?hh + 1 + 2 ^ 46 < 2 ^ 64"
    using spec(6) dm by (auto simp: direct_map_ok_def)
  then have room: "unat ?pa + unat ?hh + unat ?n * 4096 + 2 ^ 46 < 2 ^ 64"
    using last npos by simp
  have base: "unat (arena_base a) = unat ?pa + unat ?hh"
    using al_eq alloc room by (simp add: arena_base_def unat_add_no_wrap)
  have start: "unat (arena_payload_start a) = unat (arena_base a) + 48"
    using base room by (simp add: arena_payload_start_def unat_add_no_wrap)
  have cap: "unat (arena_capacity a) = unat ?n * 4096"
    using alloc spec(2) unat_page_bytes [OF pages(1)] by (simp add: arena_capacity_def)
  have off: "arena_payload_start a - arena_base a = 48" by (simp add: arena_payload_start_def)
  have "unat (arena_capacity a - 48) = unat ?n * 4096 - 48"
    using cap pages(2) by (subst unat_sub_le) (auto simp: word_le_nat_alt)
  then have init: "unat (arena_initial_block_size a) = unat ?n * 4096 - 96"
    unfolding arena_initial_block_size_def off
    using pages(2) by (subst unat_sub_le) (auto simp: word_le_nat_alt)
  have wf: "arena_wf ?hh a"
    using alloc al_eq room base start init blocks spec(2) pages(2)
    by (auto simp: arena_wf_def Let_def separated_def)
  have hh: "g_hhdm_offset pm' = ?hh" by (rule allocate_keeps_hhdm [OF al])
  have "heap_shape st'"
    using st' wf hh shape dm spec(7) pm.holds_alloc [OF holds pages(1) al] alloc
    by (auto simp: heap_shape_def direct_map_ok_def)
  moreover have "4096 dvd unat (arena_base a)" using base spec(5) dm by (simp add: direct_map_ok_def)
  moreover have "region_pages (g_regions pm') < region_pages (g_regions (h_pm st))"
    using allocate_pages_taken [OF inv pages(1) al] npos by simp
  ultimately show ?thesis
    using al alloc st' blocks spec(2) start init pages(2) by (intro exI [of _ a] exI [of _ pm']) auto
qed

section \<open>Allocation\<close>

lemma used_bytes_step:
  assumes "heap_shape st" and "unat u = n" and "n + unat (s :: u64) = sum_list (map (unat \<circ> b_size) (live_blocks st))"
  shows "unat (u + s) = sum_list (map (unat \<circ> b_size) (live_blocks st))"
  using live_bytes_bound [OF assms(1)] assms(2,3) by (simp add: unat_add_no_wrap)

lemma sum_list_mset_insert:
  assumes "mset xs = add_mset x (mset ys)"
  shows "sum_list (map f xs) = f x + sum_list (map f ys :: nat list)"
  using arg_cong [OF assms, of "\<lambda>M. sum_mset (image_mset f M)"]
  by (simp add: sum_mset_sum_list [symmetric])

lemma take_block_spec:
  assumes inv: "heap_inv st" and j: "j < length (h_arenas st)" and i: "i < length (a_blocks (h_arenas st ! j))"
    and free: "b_free (a_blocks (h_arenas st ! j) ! i)"
    and l: "layout_fits (unat (b_addr (a_blocks (h_arenas st ! j) ! i)))
      (unat (block_end (a_blocks (h_arenas st ! j) ! i))) (unat nbytes) al l"
    and take: "take_block nbytes j i l st = (p, st')"
  shows "heap_inv st' \<and> h_pm st' = h_pm st \<and> h_ready st' = h_ready st \<and>
    (\<exists>x. mset (live_blocks st') = add_mset x (mset (live_blocks st)) \<and>
       unat p = unat (b_addr x) + 48 \<and> al dvd unat p \<and> nbytes \<le> b_size x)"
proof -
  let ?hh = "g_hhdm_offset (h_pm st)"
  define a where "a = h_arenas st ! j"
  define b where "b = a_blocks a ! i"
  define A where "A = take j (h_arenas st)"
  define B where "B = drop (Suc j) (h_arenas st)"
  define L where "L = take i (a_blocks a)"
  define R where "R = drop (Suc i) (a_blocks a)"
  have as: "h_arenas st = A @ a # B" unfolding A_def B_def a_def by (rule id_take_nth_drop [OF j])
  have upd: "(h_arenas st)[j := y] = A @ y # B" for y
    unfolding A_def B_def by (rule upd_conv_take_nth_drop [OF j])
  have bs: "a_blocks a = L @ b # R"
    unfolding L_def R_def b_def a_def by (rule id_take_nth_drop [OF i])
  obtain x new where c: "commit_allocation b l nbytes = (x, new)" by fastforce
  let ?a' = "a\<lparr>a_blocks := L @ new @ R\<rparr>"
  have take_eq: "p = b_addr x + sizeof_BlockHeader"
    "st' = st\<lparr>h_arenas := A @ ?a' # B, h_used_bytes := h_used_bytes st + b_size x\<rparr>"
    using take c upd
    by (auto simp: take_block_def Let_def splice_def a_def [symmetric] b_def [symmetric] L_def R_def split: prod.splits)
  have wf: "arena_wf ?hh a" using inv as by (simp add: heap_inv_def heap_shape_def)
  have room: "unat (b_addr b) + 48 + unat (b_size b) + 2 ^ 46 < 2 ^ 64"
    using arena_used_in_span(2) [OF wf, of b] bs by simp
  have bfree: "b_free b" and fits: "layout_fits (unat (b_addr b)) (unat (block_end b)) (unat nbytes) al l"
    using free l by (simp_all add: b_def a_def)
  have small: "unat (b_addr b) + 48 + unat (b_size b) < 2 ^ 64" using room by simp
  note com = commit_allocation_spec [OF small bfree fits c]
  have be: "unat (block_end b) = unat (b_addr b) + 48 + unat (b_size b)" by (rule unat_block_end [OF small])
  have tiles': "tiles lo (L @ new @ R) hi" if "tiles lo (L @ b # R) hi" for lo hi
    using that com(1) be by (auto simp: tiles_append)
  have wf': "arena_wf ?hh ?a'"
    using wf bs tiles' com(6) by (auto simp: arena_wf_def Let_def)
  have shape': "heap_shape st'"
    using inv as wf' take_eq by (auto simp: heap_inv_def heap_shape_def)
  have live: "mset (live_blocks st') = add_mset x (mset (live_blocks st))"
    using as take_eq bs bfree com(2) by (simp add: live_blocks_def)
  have "unat (h_used_bytes st') = sum_list (map (unat \<circ> b_size) (live_blocks st'))"
    using inv take_eq sum_list_mset_insert [OF live, of "unat \<circ> b_size"]
    by (simp add: used_bytes_step [OF shape', of _ "unat (h_used_bytes st)"] heap_inv_def)
  moreover have "h_ready st' \<longrightarrow> h_arenas st' \<noteq> []" using take_eq by simp
  ultimately have inv': "heap_inv st'" using shape' by (simp add: heap_inv_def)
  have "x \<in> set (a_blocks ?a')" using com(5) by simp
  from arena_used_in_span(2) [OF wf' this] have "unat p = unat (b_addr x) + 48"
    using take_eq by (simp add: unat_add_no_wrap)
  with inv' live com(3,4) take_eq show ?thesis by auto
qed

lemma heap_room:
  assumes "heap_shape st" shows "\<forall>a\<in>set (h_arenas st). \<forall>b\<in>set (a_blocks a).
    unat (b_addr b) + 48 + unat (b_size b) + 2 ^ 46 < 2 ^ 64"
  using assms arena_used_in_span(2) by (auto simp: heap_shape_def)

text \<open>The retry loop always returns: each round takes pages from the page allocator.\<close>

lemma allocate_loop_spec:
  assumes k: "4 \<le> k" "k \<le> 43" and n: "unat nbytes \<le> 2 ^ 44" and inv: "heap_inv st"
  shows "\<exists>r st'. allocate_loop nbytes (2 ^ k) st = Some (r, st') \<and> heap_inv st' \<and> h_ready st' = h_ready st \<and>
    (case r of
       None \<Rightarrow> live_blocks st' = live_blocks st \<and>
         fst (allocate_contiguous_pages (arena_page_count nbytes (2 ^ k)) (h_pm st')) = None
     | Some p \<Rightarrow> (\<exists>x. mset (live_blocks st') = add_mset x (mset (live_blocks st)) \<and>
         unat p = unat (b_addr x) + 48 \<and> 2 ^ k dvd unat p \<and> nbytes \<le> b_size x))"
  using inv
proof (induction "region_pages (g_regions (h_pm st))" arbitrary: st rule: less_induct)
  case less
  have shape: "heap_shape st" using less.prems by (simp add: heap_inv_def)
  from find_allocated_block_spec [OF k n heap_room [OF shape]] obtain f where
    f: "find_allocated_block nbytes (2 ^ k) (h_arenas st) = Some f"
    and fs: "case f of
       None \<Rightarrow> \<forall>a\<in>set (h_arenas st). \<forall>b\<in>set (a_blocks a). b_free b \<longrightarrow>
         (\<forall>h. \<not> layout_ok (unat (b_addr b)) (unat (block_end b)) (unat nbytes) (2 ^ k) h)
     | Some (j, i, l) \<Rightarrow> j < length (h_arenas st) \<and> i < length (a_blocks (h_arenas st ! j)) \<and>
         b_free (a_blocks (h_arenas st ! j) ! i) \<and>
         layout_fits (unat (b_addr (a_blocks (h_arenas st ! j) ! i)))
           (unat (block_end (a_blocks (h_arenas st ! j) ! i))) (unat nbytes) (2 ^ k) l" by blast
  show ?case
  proof (cases f)
    case (Some jil)
    obtain j i l where jil: "jil = (j, i, l)" by (cases jil)
    obtain p st' where t: "take_block nbytes j i l st = (p, st')" by fastforce
    have "allocate_loop nbytes (2 ^ k) st = Some (Some p, st')"
      using f Some jil t by (subst allocate_loop.simps) simp
    moreover note take_block_spec [OF less.prems _ _ _ _ t, of "2 ^ k"]
    ultimately show ?thesis using fs Some jil by auto
  next
    case None
    show ?thesis
    proof (cases "acquire_arena nbytes (2 ^ k) st")
      case (Pair ok st1)
      show ?thesis
      proof (cases ok)
        case False
        with Pair have "acquire_arena nbytes (2 ^ k) st = (False, st1)" by simp
        then have st1: "st1 = st" by (rule acquire_arena_refused)
        have "allocate_loop nbytes (2 ^ k) st = Some (None, st)"
          using f None Pair False st1 by (subst allocate_loop.simps) simp
        moreover have "fst (allocate_contiguous_pages (arena_page_count nbytes (2 ^ k)) (h_pm st)) = None"
          using Pair False by (auto simp: acquire_arena_def Let_def split: prod.splits option.splits)
        ultimately show ?thesis using less.prems by auto
      next
        case True
        from acquire_arena_spec [OF k n shape, of st1] Pair True obtain a pm' where
          st1: "st1 = st\<lparr>h_pm := pm', h_arenas := a # h_arenas st\<rparr>"
          and blocks: "a_blocks a = [\<lparr>b_addr = arena_payload_start a, b_size = arena_initial_block_size a, b_free = True\<rparr>]"
          and shape1: "heap_shape st1" and dec: "region_pages (g_regions pm') < region_pages (g_regions (h_pm st))"
          by auto
        have live: "live_blocks st1 = live_blocks st" using st1 blocks by (simp add: live_blocks_def)
        have inv1: "heap_inv st1" using less.prems shape1 live st1 by (simp add: heap_inv_def)
        have "allocate_loop nbytes (2 ^ k) st = allocate_loop nbytes (2 ^ k) st1"
          using f None Pair True by (subst allocate_loop.simps) simp
        moreover have "region_pages (g_regions (h_pm st1)) < region_pages (g_regions (h_pm st))"
          using st1 dec by simp
        moreover have "h_ready st1 = h_ready st" using st1 by simp
        ultimately show ?thesis using less.hyps [OF _ inv1, unfolded live] by simp
      qed
    qed
  qed
qed

section \<open>Release\<close>

lemma release_direct_map:
  assumes dm: "direct_map_ok p" and wf: "arena_wf (g_hhdm_offset p) a" and inv: "pm_inv p"
    and pages: "page_count (a_allocation a) \<noteq> 0" "4096 dvd unat (physical_address (a_allocation a))"
      "unat (physical_address (a_allocation a)) + unat (page_count (a_allocation a)) * 4096 < 2 ^ 64"
  shows "direct_map_ok (snd (free_allocation (a_allocation a) p))"
proof -
  let ?al = "a_allocation a"
  have hh: "g_hhdm_offset (snd (free_allocation ?al p)) = g_hhdm_offset p" by (rule free_keeps_hhdm)
  have e: "unat (physical_address ?al + page_count ?al * kPageSize) =
      unat (physical_address ?al) + unat (page_count ?al) * 4096"
    using pages(3) unat_page_bytes [of "page_count ?al"] by (simp add: unat_add_no_wrap)
  have ext: "unat x + unat (g_hhdm_offset p) + 1 + 2 ^ 46 < 2 ^ 64" if "x \<in> alloc_extent ?al" for x
    using that e wf by (auto simp: alloc_extent_def word_less_nat_alt arena_wf_def Let_def)
  show ?thesis
  proof (cases "free_allocation ?al p")
    case (Pair ok p')
    show ?thesis
    proof (cases ok)
      case True
      with Pair have f: "free_allocation ?al p = (True, p')" by simp
      have "free_set (g_regions p') = free_set (g_regions p) \<union> alloc_extent ?al"
        using pm.release_given [OF inv pages f] by simp
      with Pair dm ext hh show ?thesis by (auto simp: direct_map_ok_def)
    next
      case False
      with Pair have "free_allocation ?al p = (False, p')" by simp
      then have "p' = p" by (rule pm.release_refused)
      with Pair dm show ?thesis by simp
    qed
  qed
qed

lemma release_holds:
  assumes "pm.holds p (xs @ a # ys)"
  shows "pm.holds (snd (free_allocation a p)) (xs @ ys)"
proof (cases "free_allocation a p")
  case (Pair ok p')
  show ?thesis
  proof (cases ok)
    case True
    with Pair have "free_allocation a p = (True, p')" by simp
    from pm.holds_release [OF assms this] Pair show ?thesis by simp
  next
    case False
    with Pair have "free_allocation a p = (False, p')" by simp
    then have "p' = p" by (rule pm.release_refused)
    with pm.holds_drop [OF assms] Pair show ?thesis by simp
  qed
qed

lemma release_arena_spec:
  assumes inv: "heap_inv st" and ai: "ai < length (h_arenas st)"
  shows "heap_inv (release_arena ai st) \<and> live_blocks (release_arena ai st) = live_blocks st \<and>
    h_ready (release_arena ai st) = h_ready st"
proof (cases "length (h_arenas st) \<le> 1 \<or> \<not> arena_is_fully_free (h_arenas st ! ai)")
  case True
  then show ?thesis using inv by (auto simp: release_arena_def)
next
  case False
  define a where "a = h_arenas st ! ai"
  define A where "A = take ai (h_arenas st)"
  define B where "B = drop (Suc ai) (h_arenas st)"
  let ?p = "h_pm st" and ?al = "a_allocation a"
  have as: "h_arenas st = A @ a # B" unfolding A_def B_def a_def by (rule id_take_nth_drop [OF ai])
  have st': "release_arena ai st = st\<lparr>h_arenas := A @ B, h_pm := snd (free_allocation ?al ?p)\<rparr>"
    using False by (simp add: release_arena_def A_def B_def a_def)
  have ff: "used_blocks (a_blocks a) = []"
    using False by (auto simp: a_def arena_is_fully_free_def split: list.splits)
  have shape: "heap_shape st" using inv by (simp add: heap_inv_def)
  have holds: "pm.holds ?p (map a_allocation A @ ?al # map a_allocation B)"
    using shape as by (simp add: heap_shape_def)
  have "direct_map_ok (snd (free_allocation ?al ?p))"
    using shape holds as by (intro release_direct_map) (auto simp: heap_shape_def pm.holds_def)
  moreover have "pm.holds (snd (free_allocation ?al ?p)) (map a_allocation (A @ B))"
    using release_holds [OF holds] by simp
  ultimately have "heap_shape (release_arena ai st)"
    using shape as st' by (auto simp: heap_shape_def free_keeps_hhdm)
  moreover have live: "live_blocks (release_arena ai st) = live_blocks st"
    using st' as ff by (simp add: live_blocks_def)
  moreover have "A @ B \<noteq> []" using False as by auto
  ultimately show ?thesis using inv st' by (auto simp: heap_inv_def)
qed

lemma block_at_unique:
  assumes shape: "heap_shape st" and a: "a \<in> set (h_arenas st)" "a' \<in> set (h_arenas st)"
    and b: "b \<in> set (a_blocks a)" "b' \<in> set (a_blocks a')" and same: "b_addr b = b_addr b'"
  shows "a = a' \<and> b = b'"
proof -
  let ?hh = "g_hhdm_offset (h_pm st)"
  have wf: "arena_wf ?hh a" "arena_wf ?hh a'" using shape a by (auto simp: heap_shape_def)
  have mem: "unat (b_addr b) \<in> footprint b" "unat (b_addr b) \<in> footprint b'"
    using same by (auto simp: footprint_def)
  have in_spans: "unat (b_addr b) \<in> arena_span ?hh a" "unat (b_addr b) \<in> arena_span ?hh a'"
    using mem arena_used_in_span(1) [OF wf(1) b(1)] arena_used_in_span(1) [OF wf(2) b(2)] by auto
  have "sorted_wrt (\<lambda>x y. arena_span ?hh x \<inter> arena_span ?hh y = {}) (h_arenas st)"
    using shape spans_disjoint by (auto simp: heap_shape_def)
  from sorted_wrt_trichotomy [OF this a] in_spans have eq: "a = a'" by auto
  have "sorted_wrt (\<lambda>x y. unat (b_addr x) + 48 + unat (b_size x) \<le> unat (b_addr y)) (a_blocks a)"
    using wf(1) tiles_addr_order unfolding arena_wf_def Let_def by blast
  from sorted_wrt_trichotomy [OF this b(1)] b(2) eq same have "b = b'" by fastforce
  with eq show ?thesis by simp
qed

lemma live_block_at:
  assumes "x \<in> set (live_blocks st)"
  obtains a where "a \<in> set (h_arenas st)" and "x \<in> set (a_blocks a)" and "\<not> b_free x"
  using assms by (auto simp: live_blocks_def used_blocks_def)

lemma heap_free_finds:
  assumes shape: "heap_shape st" and a: "a \<in> set (h_arenas st)" "x \<in> set (a_blocks a)"
  obtains ai bi where "find_slot (\<lambda>a. list_ex (\<lambda>b. b_addr b = b_addr x) (a_blocks a)) (h_arenas st) = Some ai"
    and "find_slot (\<lambda>b. b_addr b = b_addr x) (a_blocks (h_arenas st ! ai)) = Some bi"
    and "ai < length (h_arenas st)" and "bi < length (a_blocks (h_arenas st ! ai))"
    and "a_blocks (h_arenas st ! ai) ! bi = x"
proof -
  let ?P = "\<lambda>a. list_ex (\<lambda>b. b_addr b = b_addr x) (a_blocks a)"
  let ?Q = "\<lambda>b. b_addr b = b_addr x"
  from a have "\<exists>a\<in>set (h_arenas st). ?P a" by (auto simp: list_ex_iff)
  from find_slot_Some_ex [OF this] obtain ai where ai: "find_slot ?P (h_arenas st) = Some ai"
    by (elim exE)
  have l: "ai < length (h_arenas st)" by (rule find_slot_less [OF ai])
  have ex: "?P (h_arenas st ! ai)" by (rule find_slot_holds [OF ai])
  have "\<exists>b\<in>set (a_blocks (h_arenas st ! ai)). ?Q b" using ex by (simp add: list_ex_iff)
  from find_slot_Some_ex [OF this] obtain bi where
    bi: "find_slot ?Q (a_blocks (h_arenas st ! ai)) = Some bi" by (elim exE)
  have m: "bi < length (a_blocks (h_arenas st ! ai))" by (rule find_slot_less [OF bi])
  have "a_blocks (h_arenas st ! ai) ! bi = x"
    by (rule conjunct2 [OF block_at_unique [OF shape nth_mem [OF l] a(1) nth_mem [OF m] a(2)]])
      (rule find_slot_holds [OF bi])
  with ai bi l m show ?thesis by (rule that)
qed

lemma live_block_valid:
  assumes "arena_wf hhdm a" and "b \<in> set (a_blocks a)"
  shows "block_is_valid a b"
proof -
  let ?pa = "physical_address (a_allocation a)" and ?n = "page_count (a_allocation a)"
  have w: "virtual_address (a_allocation a) = ?pa + hhdm" "unat ?pa + unat hhdm + unat ?n * 4096 + 2 ^ 46 < 2 ^ 64"
    "tiles (unat ?pa + unat hhdm + 48) (a_blocks a) (unat ?pa + unat hhdm + unat ?n * 4096)"
    using assms(1) by (auto simp: arena_wf_def Let_def)
  have base: "unat (arena_base a) = unat ?pa + unat hhdm"
    using w by (simp add: arena_base_def unat_add_no_wrap)
  have start: "unat (arena_payload_start a) = unat (arena_base a) + 48"
    using base w by (simp add: arena_payload_start_def unat_add_no_wrap)
  have cap: "unat (arena_capacity a) = unat ?n * 4096"
    using w(2) unat_page_bytes [of ?n] by (simp add: arena_capacity_def)
  have e: "unat (arena_base a + arena_capacity a) = unat ?pa + unat hhdm + unat ?n * 4096"
    using base cap w by (simp add: unat_add_no_wrap)
  note t = tiles_bounds [OF w(3) assms(2)]
  have "unat (block_end b) = unat (b_addr b) + 48 + unat (b_size b)"
    using t w by (intro unat_block_end) linarith
  with t start base e show ?thesis by (simp add: block_is_valid_def word_le_nat_alt)
qed

lemma heap_free_spec:
  assumes inv: "heap_inv st" and x: "x \<in> set (live_blocks st)"
  shows "\<exists>st'. heap_free (b_addr x + sizeof_BlockHeader) st = Freed st' \<and> heap_inv st' \<and>
    mset (live_blocks st) = add_mset x (mset (live_blocks st')) \<and> h_ready st' = h_ready st"
proof -
  have shape: "heap_shape st" using inv by (simp add: heap_inv_def)
  let ?hh = "g_hhdm_offset (h_pm st)"
  obtain a0 where a0: "a0 \<in> set (h_arenas st)" "x \<in> set (a_blocks a0)" "\<not> b_free x"
    using x by (rule live_block_at)
  obtain ai bi where ai: "find_slot (\<lambda>a. list_ex (\<lambda>b. b_addr b = b_addr x) (a_blocks a)) (h_arenas st) = Some ai"
    and bi: "find_slot (\<lambda>b. b_addr b = b_addr x) (a_blocks (h_arenas st ! ai)) = Some bi"
    and l: "ai < length (h_arenas st)" and m: "bi < length (a_blocks (h_arenas st ! ai))"
    and xb: "a_blocks (h_arenas st ! ai) ! bi = x" 
    by (rule heap_free_finds [OF shape a0(1,2)])
  define a where "a = h_arenas st ! ai"
  define A where "A = take ai (h_arenas st)"
  define B where "B = drop (Suc ai) (h_arenas st)"
  define L where "L = take bi (a_blocks a)"
  define R where "R = drop (Suc bi) (a_blocks a)"
  have as: "h_arenas st = A @ a # B" unfolding A_def B_def a_def by (rule id_take_nth_drop [OF l])
  have upd: "(h_arenas st)[ai := y] = A @ y # B" for y
    unfolding A_def B_def by (rule upd_conv_take_nth_drop [OF l])
  have bs: "a_blocks a = L @ x # R"
    unfolding L_def R_def xb [symmetric] a_def by (rule id_take_nth_drop [OF m])
  have bil: "bi = length L" using m by (simp add: L_def a_def)
  have used: "\<not> b_free x" by (rule a0(3))
  have wf: "arena_wf ?hh a" using shape as by (simp add: heap_shape_def)
  have valid: "block_is_valid a x" using live_block_valid [OF wf] bs by simp
  have room: "unat (b_addr x) + 48 + unat (b_size x) + 2 ^ 46 < 2 ^ 64"
    using arena_used_in_span(2) [OF wf, of x] bs by simp
  let ?a' = "a\<lparr>a_blocks := free_in_blocks bi (a_blocks a)\<rparr>"
  let ?lo = "unat (physical_address (a_allocation a)) + unat ?hh"
  let ?hi = "?lo + unat (page_count (a_allocation a)) * 4096"
  have "tiles (?lo + 48) (L @ x # R) ?hi" "?hi < 2 ^ 64" "separated (L @ x # R)"
    using wf bs by (simp_all add: arena_wf_def Let_def)
  note freed = free_in_blocks_spec [OF this used, folded bil bs]
  have wf': "arena_wf ?hh ?a'"
    using wf freed(1,2) by (simp add: arena_wf_def Let_def)
  have used': "used_blocks (a_blocks ?a') = used_blocks L @ used_blocks R"
    using freed(3) by simp
  let ?st1 = "st\<lparr>h_arenas := A @ ?a' # B, h_used_bytes := h_used_bytes st - b_size x\<rparr>"
  have live: "mset (live_blocks st) = add_mset x (mset (live_blocks ?st1))"
    using as bs used used' by (simp add: live_blocks_def)
  have sum: "unat (h_used_bytes st) = unat (b_size x) + sum_list (map (unat \<circ> b_size) (live_blocks ?st1))"
    using inv sum_list_mset_insert [OF live, of "unat \<circ> b_size"] by (simp add: heap_inv_def)
  then have le: "b_size x \<le> h_used_bytes st" by (simp add: word_le_nat_alt)
  have "heap_shape ?st1" using shape as wf' by (auto simp: heap_shape_def)
  moreover have "unat (h_used_bytes ?st1) = sum_list (map (unat \<circ> b_size) (live_blocks ?st1))"
    using sum le by (simp add: unat_sub_le)
  ultimately have inv1: "heap_inv ?st1" by (simp add: heap_inv_def)
  have "b_addr x + sizeof_BlockHeader \<noteq> 0"
    using room unat_add_no_wrap [of "b_addr x" sizeof_BlockHeader] by auto
  then have "heap_free (b_addr x + sizeof_BlockHeader) st = Freed (release_arena ai ?st1)"
    using ai bi xb valid used le upd by (simp add: heap_free_def Let_def a_def)
  moreover have "length A = ai" using l by (simp add: A_def)
  then have "ai < length (h_arenas ?st1)" by simp
  note released = release_arena_spec [OF inv1 this]
  moreover have "h_ready ?st1 = h_ready st" by simp
  ultimately show ?thesis using live by (intro exI [of _ "release_arena ai ?st1"]) (simp only: simp_thms)
qed

lemma heap_free_free_block:
  assumes shape: "heap_shape st" and a: "a \<in> set (h_arenas st)" "b \<in> set (a_blocks a)" and free: "b_free b"
  shows "heap_free (b_addr b + sizeof_BlockHeader) st = Panicked"
proof -
  have "arena_wf (g_hhdm_offset (h_pm st)) a" using shape a by (simp add: heap_shape_def)
  from arena_used_in_span(2) [OF this a(2)] have "b_addr b + sizeof_BlockHeader \<noteq> 0"
    using unat_add_no_wrap [of "b_addr b" sizeof_BlockHeader] by auto
  moreover obtain ai bi where
    "find_slot (\<lambda>a. list_ex (\<lambda>c. b_addr c = b_addr b) (a_blocks a)) (h_arenas st) = Some ai"
    "find_slot (\<lambda>c. b_addr c = b_addr b) (a_blocks (h_arenas st ! ai)) = Some bi"
    "a_blocks (h_arenas st ! ai) ! bi = b" by (rule heap_free_finds [OF shape a])
  ultimately show ?thesis using free by (simp add: heap_free_def Let_def)
qed

section \<open>The heap interface\<close>

text \<open>
  What the rest of the kernel relies on: an allocation returns, adds one live
  block at least as large as the request or leaves the live blocks alone; freeing
  a live block removes exactly it.
\<close>

locale heap_provider =
  fixes allocate :: "u64 \<Rightarrow> u64 \<Rightarrow> 's \<Rightarrow> (u64 option \<times> 's) option"
    and release :: "u64 \<Rightarrow> 's \<Rightarrow> free_outcome"
    and unwrap :: "free_outcome \<Rightarrow> 's option"
    and live :: "'s \<Rightarrow> block_header multiset"
    and invar :: "'s \<Rightarrow> bool"
  assumes allocate_ok: "invar s \<Longrightarrow> unat n \<le> 2 ^ 43 \<Longrightarrow> unat al \<le> 2 ^ 43 \<Longrightarrow>
      \<exists>r s'. allocate n al s = Some (r, s') \<and> invar s' \<and>
        (case r of None \<Rightarrow> live s' = live s
         | Some p \<Rightarrow> \<exists>x. live s' = add_mset x (live s) \<and> p = b_addr x + sizeof_BlockHeader \<and> n \<le> b_size x)"
    and release_ok: "invar s \<Longrightarrow> x \<in># live s \<Longrightarrow>
      \<exists>s'. unwrap (release (b_addr x + sizeof_BlockHeader) s) = Some s' \<and> invar s' \<and>
        live s = add_mset x (live s')"
begin

text \<open>Freeing what was just allocated gives back the live blocks there were.\<close>

lemma allocate_release:
  assumes "invar s" and "unat n \<le> 2 ^ 43" and "unat al \<le> 2 ^ 43" and "allocate n al s = Some (Some p, s')"
  shows "\<exists>s''. unwrap (release p s') = Some s'' \<and> invar s'' \<and> live s'' = live s"
proof -
  from allocate_ok [OF assms(1-3)] assms(4) obtain x where
    x: "invar s'" "live s' = add_mset x (live s)" "p = b_addr x + sizeof_BlockHeader" by auto
  then have "x \<in># live s'" by simp
  from release_ok [OF x(1) this] x show ?thesis by auto
qed

end

fun freed_state :: "free_outcome \<Rightarrow> heap_state option" where
  "freed_state (Freed st) = Some st"
| "freed_state Panicked = None"
| "freed_state Wild = None"

lemma unat_align_up_16:
  assumes "unat v \<le> 2 ^ 43"
  shows "unat v \<le> unat (align_up v kMinimumAlignment)" and "unat (align_up v kMinimumAlignment) \<le> 2 ^ 44"
proof -
  have eq: "kMinimumAlignment = 2 ^ 4" by (simp add: kMinimumAlignment_def)
  have "unat v + (2 ^ 4 - 1) < 2 ^ 64" using assms by simp
  then have u: "unat (align_up v (2 ^ 4)) = unat v + (2 ^ 4 - 1) - (unat v + (2 ^ 4 - 1)) mod 2 ^ 4"
    by (intro unat_align_up) simp_all
  note b = nat_round_up_bounds [of "2 ^ 4" "unat v", folded u]
  show "unat v \<le> unat (align_up v kMinimumAlignment)" unfolding eq using b(1) by simp
  show "unat (align_up v kMinimumAlignment) \<le> 2 ^ 44" unfolding eq using b(2) assms by simp
qed

lemma heap_allocate_full:
  assumes inv: "heap_inv st" and n: "unat n \<le> 2 ^ 43" and al: "unat al \<le> 2 ^ 43"
  shows "\<exists>r st'. heap_allocate n al st = Some (r, st') \<and> heap_inv st' \<and> h_ready st' = h_ready st \<and>
    (case r of
       None \<Rightarrow> live_blocks st' = live_blocks st \<and> (h_ready st \<longrightarrow> n \<noteq> 0 \<longrightarrow>
         fst (allocate_contiguous_pages (arena_page_count (align_up n kMinimumAlignment) (normalize_alignment al)) (h_pm st')) = None)
     | Some p \<Rightarrow> (\<exists>x. mset (live_blocks st') = add_mset x (mset (live_blocks st)) \<and>
         unat p = unat (b_addr x) + 48 \<and> unat (normalize_alignment al) dvd unat p \<and> n \<le> b_size x))"
proof (cases "\<not> h_ready st \<or> n = 0")
  case True
  then show ?thesis using inv by (auto simp: heap_allocate_def)
next
  case False
  let ?n = "align_up n kMinimumAlignment"
  obtain k where k: "4 \<le> k" "k \<le> 43" "normalize_alignment al = 2 ^ k"
    using normalize_alignment_exp [OF al] by blast
  have ak: "unat (normalize_alignment al) = 2 ^ k" using k by (simp add: unat_exp)
  from allocate_loop_spec [OF k(1,2) unat_align_up_16(2) [OF n] inv] obtain r st' where
    r: "allocate_loop ?n (2 ^ k) st = Some (r, st')" "heap_inv st'" "h_ready st' = h_ready st"
    and rs: "case r of
       None \<Rightarrow> live_blocks st' = live_blocks st \<and>
         fst (allocate_contiguous_pages (arena_page_count ?n (2 ^ k)) (h_pm st')) = None
     | Some p \<Rightarrow> (\<exists>x. mset (live_blocks st') = add_mset x (mset (live_blocks st)) \<and>
         unat p = unat (b_addr x) + 48 \<and> 2 ^ k dvd unat p \<and> ?n \<le> b_size x)" by blast
  have "heap_allocate n al st = Some (r, st')" using False r(1) k(3) by (simp add: heap_allocate_def)
  moreover have "n \<le> b_size x" if "?n \<le> b_size x" for x
    using that unat_align_up_16(1) [OF n] by (simp add: word_le_nat_alt)
  ultimately show ?thesis using r(2,3) rs ak k(3)
    by (intro exI [of _ r] exI [of _ st']) (auto split: option.splits)
qed

lemma heap_allocate_spec:
  assumes "heap_inv st" and "unat n \<le> 2 ^ 43" and "unat al \<le> 2 ^ 43"
  shows "\<exists>r st'. heap_allocate n al st = Some (r, st') \<and> heap_inv st' \<and>
    (case r of
       None \<Rightarrow> live_blocks st' = live_blocks st
     | Some p \<Rightarrow> (\<exists>x. mset (live_blocks st') = add_mset x (mset (live_blocks st)) \<and>
         unat p = unat (b_addr x) + 48 \<and> unat (normalize_alignment al) dvd unat p \<and> n \<le> b_size x))"
proof -
  obtain r st' where r: "heap_allocate n al st = Some (r, st')" "heap_inv st'"
    using heap_allocate_full [OF assms] by blast
  with heap_allocate_full [OF assms] show ?thesis by (cases r) auto
qed

interpretation kh: heap_provider heap_allocate heap_free freed_state
  "\<lambda>st. mset (live_blocks st)" heap_inv
proof unfold_locales
  fix s and n al :: u64
  assume "heap_inv s" and "unat n \<le> 2 ^ 43" and "unat al \<le> 2 ^ 43"
  from heap_allocate_spec [OF this] obtain r s' where
    r: "heap_allocate n al s = Some (r, s')" "heap_inv s'"
    "case r of
       None \<Rightarrow> live_blocks s' = live_blocks s
     | Some p \<Rightarrow> (\<exists>x. mset (live_blocks s') = add_mset x (mset (live_blocks s)) \<and>
         unat p = unat (b_addr x) + 48 \<and> unat (normalize_alignment al) dvd unat p \<and> n \<le> b_size x)" by blast
  have p: "p = b_addr x + sizeof_BlockHeader" if "unat p = unat (b_addr x) + 48" for p x
  proof -
    have "unat (b_addr x + sizeof_BlockHeader) = unat (b_addr x) + 48"
      using that unsigned_less [of p, where ?'a = nat] by (simp add: unat_add_no_wrap)
    with that show ?thesis by (simp add: word_unat_eq_iff)
  qed
  show "\<exists>r s'. heap_allocate n al s = Some (r, s') \<and> heap_inv s' \<and>
      (case r of None \<Rightarrow> mset (live_blocks s') = mset (live_blocks s)
       | Some p \<Rightarrow> \<exists>x. mset (live_blocks s') = add_mset x (mset (live_blocks s)) \<and>
           p = b_addr x + sizeof_BlockHeader \<and> n \<le> b_size x)"
    using r p by (intro exI [of _ r] exI [of _ s']) (auto split: option.splits)
next
  fix s x
  assume "heap_inv s" and "x \<in># mset (live_blocks s)"
  then have "x \<in> set (live_blocks s)" by simp
  from heap_free_spec [OF \<open>heap_inv s\<close> this]
  show "\<exists>s'. freed_state (heap_free (b_addr x + sizeof_BlockHeader) s) = Some s' \<and> heap_inv s' \<and>
      mset (live_blocks s) = add_mset x (mset (live_blocks s'))" by auto
qed

section \<open>When one new arena is enough\<close>

lemma fresh_arena_fits:
  assumes k: "4 \<le> k" "k \<noteq> 6" "k \<noteq> 7" and base: "4096 dvd B" and cap: "96 + n + 2 ^ k \<le> C"
  shows "\<exists>h. layout_ok (B + 48) (B + C) n (2 ^ k) h"
proof (cases "k \<le> 5")
  case True
  then have "(2::nat) ^ k dvd 2 ^ 5" by (rule le_imp_power_dvd)
  then have k32: "(2::nat) ^ k dvd 32" by simp
  have "(32::nat) dvd 4096" "(32::nat) dvd 96" by simp_all
  with k32 base have "(2::nat) ^ k dvd B" "(2::nat) ^ k dvd 96" by (blast intro: dvd_trans)+
  then have "2 ^ k dvd B + 96" by (rule dvd_add)
  moreover have "B + 96 = B + 48 + 48" by simp
  ultimately have d: "2 ^ k dvd B + 48 + 48" by (simp only:)
  have "96 + n \<le> C" using cap by (rule add_leD1)
  then have e: "B + 48 + 48 + n \<le> B + C" by simp
  show ?thesis
    unfolding layout_ok_def using d e by (intro exI [of _ "B + 48"]) (simp only: order_refl simp_thms)
next
  case False
  then have k8: "8 \<le> k" using k by linarith
  define p where "p = (B + 96 + (2 ^ k - 1)) - (B + 96 + (2 ^ k - 1)) mod 2 ^ k"
  have b: "B + 96 \<le> p" "p < B + 96 + 2 ^ k"
    unfolding p_def by (rule nat_round_up_bounds; simp)+
  have dvd: "2 ^ k dvd p" unfolding p_def by (rule dvd_minus_mod)
  have "(2::nat) ^ 8 dvd 2 ^ k" using k8 by (rule le_imp_power_dvd)
  from dvd_trans [OF this dvd] have "2 ^ 8 dvd p" .
  moreover have "(2::nat) ^ 8 dvd 4096" by simp
  from dvd_trans [OF this base] have "2 ^ 8 dvd B" .
  moreover have "B \<le> p" "B \<noteq> p" using b(1) by linarith+
  ultimately have far: "B + 2 ^ 8 \<le> p" using next_multiple [of "2 ^ 8" B p] by blast
  have "p - 48 + 48 = p" using b(1) by simp
  moreover have "B + 48 \<le> p - 48" "B + 48 + 64 \<le> p - 48" "p - 48 + 48 + n \<le> B + C"
    using far b cap by simp_all
  ultimately have "layout_ok (B + 48) (B + C) n (2 ^ k) (p - 48)"
    using dvd by (simp only: layout_ok_def simp_thms)
  then show ?thesis by blast
qed

lemma find_allocated_block_ex:
  assumes "4 \<le> k" and "k \<le> 43" and "unat nbytes \<le> 2 ^ 44"
    and "\<forall>a\<in>set as. \<forall>b\<in>set (a_blocks a). unat (b_addr b) + 48 + unat (b_size b) + 2 ^ 46 < 2 ^ 64"
    and "a \<in> set as" and "b \<in> set (a_blocks a)" and "b_free b"
    and "layout_ok (unat (b_addr b)) (unat (block_end b)) (unat nbytes) (2 ^ k) h"
  shows "\<exists>f. find_allocated_block nbytes (2 ^ k) as = Some (Some f)"
proof -
  obtain r where r: "find_allocated_block nbytes (2 ^ k) as = Some r" and
    rs: "r = None \<longrightarrow> (\<forall>a\<in>set as. \<forall>b\<in>set (a_blocks a). b_free b \<longrightarrow>
         (\<forall>h. \<not> layout_ok (unat (b_addr b)) (unat (block_end b)) (unat nbytes) (2 ^ k) h))"
    using find_allocated_block_spec [OF assms(1-4)] by (auto simp del: not_None_eq) fastforce
  have "r \<noteq> None" using rs assms(5-8) by blast
  with r show ?thesis by auto
qed

lemma find_allocated_block_none:
  assumes "4 \<le> k" and "k \<le> 43" and "unat nbytes \<le> 2 ^ 44"
    and "\<forall>a\<in>set as. \<forall>b\<in>set (a_blocks a). unat (b_addr b) + 48 + unat (b_size b) + 2 ^ 46 < 2 ^ 64"
    and "\<forall>a\<in>set as. \<forall>b\<in>set (a_blocks a). b_free b \<longrightarrow>
      (\<forall>h. \<not> layout_ok (unat (b_addr b)) (unat (block_end b)) (unat nbytes) (2 ^ k) h)"
  shows "find_allocated_block nbytes (2 ^ k) as = Some None"
proof -
  obtain r where r: "find_allocated_block nbytes (2 ^ k) as = Some r" and
    rs: "\<And>j i l. r = Some (j, i, l) \<Longrightarrow> j < length as \<and> i < length (a_blocks (as ! j)) \<and>
      b_free (a_blocks (as ! j) ! i) \<and>
      layout_fits (unat (b_addr (a_blocks (as ! j) ! i))) (unat (block_end (a_blocks (as ! j) ! i)))
           (unat nbytes) (2 ^ k) l"
    using find_allocated_block_spec [OF assms(1-4)] by fastforce
  have "r = None"
  proof (rule ccontr)
    assume "r \<noteq> None"
    then obtain j i l where "r = Some (j, i, l)" by (cases r) auto
    from rs [OF this] assms(5) show False
      by (metis layout_fits_def nth_mem)
  qed
  with r show ?thesis by simp
qed

lemma acquire_then_find:
  assumes k: "4 \<le> k" "k \<le> 43" "k \<noteq> 6" "k \<noteq> 7" and n: "unat nbytes \<le> 2 ^ 44" and inv: "heap_inv st"
    and acq: "acquire_arena nbytes (2 ^ k) st = (True, st')"
  shows "\<exists>f. find_allocated_block nbytes (2 ^ k) (h_arenas st') = Some (Some f)"
proof -
  have shape: "heap_shape st" using inv by (simp add: heap_inv_def)
  from acquire_arena_spec [OF k(1,2) n shape acq] obtain a pm' where
    st': "st' = st\<lparr>h_pm := pm', h_arenas := a # h_arenas st\<rparr>" and shape': "heap_shape st'"
    and blocks: "a_blocks a = [\<lparr>b_addr = arena_payload_start a, b_size = arena_initial_block_size a, b_free = True\<rparr>]"
    and base: "4096 dvd unat (arena_base a)" and start: "unat (arena_payload_start a) = unat (arena_base a) + 48"
    and fin: "unat (arena_base a) + 96 + unat (arena_initial_block_size a) =
       unat (arena_base a) + unat (arena_page_count nbytes (2 ^ k)) * 4096" by blast
  let ?b = "\<lparr>b_addr = arena_payload_start a, b_size = arena_initial_block_size a, b_free = True\<rparr>"
  have mem: "a \<in> set (h_arenas st')" "?b \<in> set (a_blocks a)" using st' blocks by simp_all
  have room: "unat (b_addr ?b) + 48 + unat (b_size ?b) + 2 ^ 46 < 2 ^ 64"
    using heap_room [OF shape'] mem by blast
  then have "unat (block_end ?b) = unat (arena_base a) + unat (arena_page_count nbytes (2 ^ k)) * 4096"
    using unat_block_end [of ?b] start fin by simp
  moreover obtain h where "layout_ok (unat (arena_base a) + 48)
      (unat (arena_base a) + unat (arena_page_count nbytes (2 ^ k)) * 4096) (unat nbytes) (2 ^ k) h"
    using fresh_arena_fits [OF k(1,3,4) base arena_page_count_bounds(2) [OF k(1,2) n]] by blast
  ultimately have ok: "layout_ok (unat (b_addr ?b)) (unat (block_end ?b)) (unat nbytes) (2 ^ k) h"
    using start by simp
  show ?thesis by (rule find_allocated_block_ex [OF k(1,2) n heap_room [OF shape'] mem _ ok]) simp
qed

text \<open>With alignment 64, a block of the size \<^verbatim>\<open>acquire_arena\<close> computes can be 32 bytes
  short: the payload at offset 128 leaves a 32-byte lead, which cannot hold a
  block, and the next candidate at offset 192 overruns the arena.\<close>

lemma short_arena_64:
  assumes "4096 dvd B" and "layout_ok (B + 48) (B + C) n 64 h"
  shows "192 + n \<le> C"
proof -
  have h: "64 dvd h + 48" "h + 48 + n \<le> B + C" "h = B + 48 \<or> B + 112 \<le> h"
    using assms(2) by (auto simp: layout_ok_def)
  obtain m where m: "h + 48 = 64 * m" using h(1) by (elim dvdE)
  obtain q where q: "B = 4096 * q" using assms(1) by (elim dvdE)
  have "64 * m \<noteq> 4096 * q + 96"
  proof
    assume "64 * m = 4096 * q + 96"
    then have "(64 * m) mod 64 = (4096 * q + 96) mod 64" by simp
    moreover have "(4096 * q + 96) mod 64 = 32"
      using mod_mult_self4 [of 64 "64 * q" 96] by simp
    ultimately show False by simp
  qed
  then have "B + 160 \<le> h + 48" using h(3) m q by linarith
  then have "64 * q + 3 \<le> m" using m q by linarith
  then have "B + 192 \<le> h + 48" using m q by linarith
  with h(2) show ?thesis by linarith
qed

definition nothing_fits :: "u64 \<Rightarrow> nat \<Rightarrow> heap_state \<Rightarrow> bool" where
  "nothing_fits n k st \<longleftrightarrow> (\<forall>a\<in>set (h_arenas st). \<forall>b\<in>set (a_blocks a). b_free b \<longrightarrow>
     (\<forall>h. \<not> layout_ok (unat (b_addr b)) (unat (block_end b)) (unat n) (2 ^ k) h))"

lemma acquire_keeps_nothing_fits:
  assumes k: "4 \<le> k" "k \<le> 43" and n: "unat nbytes \<le> 2 ^ 44" and shape: "heap_shape st"
    and none: "nothing_fits nbytes k st"
    and short: "\<And>B h. 4096 dvd B \<Longrightarrow>
      \<not> layout_ok (B + 48) (B + unat (arena_page_count nbytes (2 ^ k)) * 4096) (unat nbytes) (2 ^ k) h"
    and acq: "acquire_arena nbytes (2 ^ k) st = (True, st')"
  shows "nothing_fits nbytes k st' \<and> heap_shape st' \<and> live_blocks st' = live_blocks st \<and>
    region_pages (g_regions (h_pm st')) < region_pages (g_regions (h_pm st))"
proof -
  from acquire_arena_spec [OF k n shape acq] obtain a pm' where
    st': "st' = st\<lparr>h_pm := pm', h_arenas := a # h_arenas st\<rparr>" and shape': "heap_shape st'"
    and blocks: "a_blocks a = [\<lparr>b_addr = arena_payload_start a, b_size = arena_initial_block_size a, b_free = True\<rparr>]"
    and base: "4096 dvd unat (arena_base a)" and start: "unat (arena_payload_start a) = unat (arena_base a) + 48"
    and fin: "unat (arena_base a) + 96 + unat (arena_initial_block_size a) =
       unat (arena_base a) + unat (arena_page_count nbytes (2 ^ k)) * 4096"
    and dec: "region_pages (g_regions pm') < region_pages (g_regions (h_pm st))" by blast
  let ?b = "\<lparr>b_addr = arena_payload_start a, b_size = arena_initial_block_size a, b_free = True\<rparr>"
  have "a \<in> set (h_arenas st')" "?b \<in> set (a_blocks a)" using st' blocks by simp_all
  then have "unat (b_addr ?b) + 48 + unat (b_size ?b) + 2 ^ 46 < 2 ^ 64"
    using heap_room [OF shape'] by blast
  then have "unat (block_end ?b) = unat (arena_base a) + unat (arena_page_count nbytes (2 ^ k)) * 4096"
    using unat_block_end [of ?b] start fin by simp
  then have "\<not> layout_ok (unat (b_addr ?b)) (unat (block_end ?b)) (unat nbytes) (2 ^ k) h" for h
    using short [OF base, of h] start by simp
  then have "nothing_fits nbytes k st'"
    using none st' blocks by (simp add: nothing_fits_def)
  moreover have "live_blocks st' = live_blocks st" using st' blocks by (simp add: live_blocks_def)
  ultimately show ?thesis using shape' st' dec by simp
qed

text \<open>If no arena of the size \<^verbatim>\<open>acquire_arena\<close> asks for can satisfy the request, the retry
  loop takes arena after arena and gives up only when the pages run out.\<close>

lemma allocate_loop_exhausts:
  assumes k: "4 \<le> k" "k \<le> 43" and n: "unat nbytes \<le> 2 ^ 44"
    and short: "\<And>B h. 4096 dvd B \<Longrightarrow>
      \<not> layout_ok (B + 48) (B + unat (arena_page_count nbytes (2 ^ k)) * 4096) (unat nbytes) (2 ^ k) h"
  shows "heap_shape st \<Longrightarrow> nothing_fits nbytes k st \<Longrightarrow>
    \<exists>st'. allocate_loop nbytes (2 ^ k) st = Some (None, st') \<and> live_blocks st' = live_blocks st \<and>
      fst (allocate_contiguous_pages (arena_page_count nbytes (2 ^ k)) (h_pm st')) = None"
proof (induction "region_pages (g_regions (h_pm st))" arbitrary: st rule: less_induct)
  case less
  have f: "find_allocated_block nbytes (2 ^ k) (h_arenas st) = Some None"
    using less.prems(2) unfolding nothing_fits_def
    by (rule find_allocated_block_none [OF k n heap_room [OF less.prems(1)]])
  show ?case
  proof (cases "acquire_arena nbytes (2 ^ k) st")
    case (Pair ok st1)
    show ?thesis
    proof (cases ok)
      case False
      with Pair have acq: "acquire_arena nbytes (2 ^ k) st = (False, st1)" by simp
      then have "st1 = st" by (rule acquire_arena_refused)
      then have "allocate_loop nbytes (2 ^ k) st = Some (None, st)"
        using f acq by (subst allocate_loop.simps) simp
      moreover have "fst (allocate_contiguous_pages (arena_page_count nbytes (2 ^ k)) (h_pm st)) = None"
        using acq by (auto simp: acquire_arena_def Let_def split: prod.splits option.splits)
      ultimately show ?thesis by simp
    next
      case True
      with Pair have acq: "acquire_arena nbytes (2 ^ k) st = (True, st1)" by simp
      note kept = acquire_keeps_nothing_fits [OF k n less.prems short acq]
      have "allocate_loop nbytes (2 ^ k) st = allocate_loop nbytes (2 ^ k) st1"
        using f acq by (subst allocate_loop.simps) simp
      moreover have "\<exists>st'. allocate_loop nbytes (2 ^ k) st1 = Some (None, st') \<and> live_blocks st' = live_blocks st1 \<and>
          fst (allocate_contiguous_pages (arena_page_count nbytes (2 ^ k)) (h_pm st')) = None"
        using kept by (intro less.hyps) simp_all
      ultimately show ?thesis using kept by simp
    qed
  qed
qed

section \<open>Clients of the heap\<close>

text \<open>A sequence of calls: \<open>Heap_alloc n al\<close> asks for \<open>n\<close> bytes and keeps the pointer it gets,
  \<open>Heap_release k\<close> frees the \<open>k\<close>-th pointer still held. The result is the pointers held with
  the sizes asked for; \<open>None\<close> is a call that does not return, or a panic.\<close>

datatype heap_op = Heap_alloc u64 u64 | Heap_release nat

fun heap_client :: "heap_op list \<Rightarrow> (u64 \<times> u64) list \<Rightarrow> heap_state \<Rightarrow> ((u64 \<times> u64) list \<times> heap_state) option" where
  "heap_client [] own st = Some (own, st)"
| "heap_client (Heap_alloc n al # ops) own st =
     (case heap_allocate n al st of
        None \<Rightarrow> None
      | Some (None, st') \<Rightarrow> heap_client ops own st'
      | Some (Some p, st') \<Rightarrow> heap_client ops ((p, n) # own) st')"
| "heap_client (Heap_release k # ops) own st =
     (if k < length own
      then (case freed_state (heap_free (fst (own ! k)) st) of
              None \<Rightarrow> None
            | Some st' \<Rightarrow> heap_client ops (take k own @ drop (Suc k) own) st')
      else heap_client ops own st)"

fun heap_op_small :: "heap_op \<Rightarrow> bool" where
  "heap_op_small (Heap_alloc n al) \<longleftrightarrow> unat n \<le> 2 ^ 43 \<and> unat al \<le> 2 ^ 43"
| "heap_op_small (Heap_release k) \<longleftrightarrow> True"

definition payload :: "u64 \<times> u64 \<Rightarrow> nat set" where
  "payload o1 = {unat (fst o1) ..< unat (fst o1) + unat (snd o1)}"

text \<open>The pointers held are the live blocks, one each.\<close>

definition owns :: "(u64 \<times> u64) list \<Rightarrow> block_header list \<Rightarrow> bool" where
  "owns own bs \<longleftrightarrow> list_all2 (\<lambda>o1 x. unat (fst o1) = unat (b_addr x) + 48 \<and> snd o1 \<le> b_size x) own bs"

lemma sorted_wrt_mset:
  assumes "\<And>x y. R x y \<Longrightarrow> R y x"
  shows "mset xs = mset ys \<Longrightarrow> sorted_wrt R xs \<Longrightarrow> sorted_wrt R ys"
proof (induction xs arbitrary: ys)
  case Nil
  then show ?case by simp
next
  case (Cons x xs)
  have "x \<in> set ys" using Cons.prems(1) by (metis list.set_intros(1) set_mset_mset)
  then obtain us vs where ys: "ys = us @ x # vs" by (auto simp: in_set_conv_decomp)
  then have m: "mset xs = mset (us @ vs)" using Cons.prems(1) by simp
  then have "set xs = set (us @ vs)" by (metis set_mset_mset)
  moreover have "sorted_wrt R (us @ vs)" using Cons.IH [OF m] Cons.prems(2) by simp
  ultimately show ?case using ys Cons.prems(2) assms by (auto simp: sorted_wrt_append)
qed

lemma heap_client_spec:
  "heap_inv st \<Longrightarrow> owns own bs \<Longrightarrow> mset bs = mset (live_blocks st) \<Longrightarrow> list_all heap_op_small ops \<Longrightarrow>
   \<exists>own' st' bs'. heap_client ops own st = Some (own', st') \<and> heap_inv st' \<and> owns own' bs' \<and>
     mset bs' = mset (live_blocks st')"
proof (induction ops own st arbitrary: bs rule: heap_client.induct)
  case (1 own st)
  then show ?case by auto
next
  case (2 n al ops own st)
  from heap_allocate_spec [OF 2(3), of n al] 2(6) obtain r st1 where
    a: "heap_allocate n al st = Some (r, st1)" "heap_inv st1"
    and rs: "case r of None \<Rightarrow> live_blocks st1 = live_blocks st
       | Some p \<Rightarrow> (\<exists>x. mset (live_blocks st1) = add_mset x (mset (live_blocks st)) \<and>
         unat p = unat (b_addr x) + 48 \<and> unat (normalize_alignment al) dvd unat p \<and> n \<le> b_size x)" by auto
  show ?case
  proof (cases r)
    case None
    then show ?thesis using 2(1) [OF a(1) refl None, of bs] 2(4-6) a rs by simp
  next
    case (Some p)
    with rs obtain x where x: "mset (live_blocks st1) = add_mset x (mset (live_blocks st))"
      "unat p = unat (b_addr x) + 48" "n \<le> b_size x" by auto
    have "owns ((p, n) # own) (x # bs)" using 2(4) x by (simp add: owns_def)
    moreover have "mset (x # bs) = mset (live_blocks st1)" using 2(5) x(1) by simp
    ultimately show ?thesis using 2(2) [OF a(1) refl Some, of "x # bs"] 2(6) a Some by simp
  qed
next
  case (3 k ops own st)
  show ?case
  proof (cases "k < length own")
    case False
    then show ?thesis using 3(2) [OF False] 3(3-6) by simp
  next
    case True
    have len: "length own = length bs" using 3(4) by (auto simp: owns_def dest: list_all2_lengthD)
    have bk: "bs = take k bs @ bs ! k # drop (Suc k) bs" using True len by (simp add: id_take_nth_drop [symmetric])
    then have mbs: "mset bs = add_mset (bs ! k) (mset (take k bs @ drop (Suc k) bs))"
      by (metis mset.simps(2) mset_append union_mset_add_mset_right)
    have p: "unat (fst (own ! k)) = unat (b_addr (bs ! k)) + 48"
      using 3(4) True by (auto simp: owns_def list_all2_conv_all_nth)
    then have "fst (own ! k) = b_addr (bs ! k) + sizeof_BlockHeader"
      using unsigned_less [of "fst (own ! k)", where ?'a = nat] by (simp add: word_unat_eq_iff unat_add_no_wrap)
    moreover have "bs ! k \<in># mset (live_blocks st)" using 3(5) True len by (metis nth_mem set_mset_mset)
    ultimately obtain st1 where f: "freed_state (heap_free (fst (own ! k)) st) = Some st1" "heap_inv st1"
      "mset (live_blocks st) = add_mset (bs ! k) (mset (live_blocks st1))"
      using kh.release_ok [OF 3(3)] by metis
    have "owns (take k own @ drop (Suc k) own) (take k bs @ drop (Suc k) bs)"
      using 3(4) unfolding owns_def by (intro list_all2_appendI list_all2_takeI list_all2_dropI)
    moreover have "mset (take k bs @ drop (Suc k) bs) = mset (live_blocks st1)"
      using f(3) 3(5) mbs by simp
    ultimately show ?thesis using 3(1) [OF True f(1,2)] 3(6) True f(1) by simp
  qed
qed

lemma owns_payload:
  assumes "owns own bs" and "i < length own"
  shows "i < length bs" and "payload (own ! i) \<subseteq> footprint (bs ! i)"
  using assms by (auto simp: owns_def list_all2_conv_all_nth payload_def footprint_def word_le_nat_alt)

lemma owns_disjoint:
  assumes "heap_inv st" and "owns own bs" and "mset bs = mset (live_blocks st)"
  shows "sorted_wrt (\<lambda>a b. payload a \<inter> payload b = {}) own"
proof -
  have "sorted_wrt (\<lambda>b c. footprint b \<inter> footprint c = {}) bs"
    using assms(1,3) by (intro sorted_wrt_mset [OF _ _ live_blocks_disjoint]) (auto simp: heap_inv_def)
  then have d: "footprint (bs ! i) \<inter> footprint (bs ! j) = {}" if "i < j" "j < length bs" for i j
    using that by (simp add: sorted_wrt_iff_nth_less)
  have "payload (own ! i) \<inter> payload (own ! j) = {}" if ij: "i < j" "j < length own" for i j
  proof -
    have "i < length own" using ij by simp
    note pi = owns_payload(2) [OF assms(2) this] and pj = owns_payload [OF assms(2) ij(2)]
    from d [OF ij(1) pj(1)] pi pj(2) show ?thesis by blast
  qed
  then show ?thesis by (simp add: sorted_wrt_iff_nth_less)
qed

lemma owns_in_arena:
  assumes "heap_inv st" and "owns own bs" and "mset bs = mset (live_blocks st)" and "o1 \<in> set own"
  shows "\<exists>a\<in>set (h_arenas st). payload o1 \<subseteq> arena_span (g_hhdm_offset (h_pm st)) a"
proof -
  from assms(4) obtain i where i: "i < length own" "o1 = own ! i" by (metis in_set_conv_nth)
  have "bs ! i \<in> set (live_blocks st)" using owns_payload(1) [OF assms(2) i(1)] assms(3) by (metis nth_mem set_mset_mset)
  then obtain a where a: "a \<in> set (h_arenas st)" "bs ! i \<in> set (a_blocks a)"
    by (auto simp: live_blocks_def used_blocks_def)
  then have "arena_wf (g_hhdm_offset (h_pm st)) a" using assms(1) by (simp add: heap_inv_def heap_shape_def)
  then have "footprint (bs ! i) \<subseteq> arena_span (g_hhdm_offset (h_pm st)) a" using a(2) by (rule arena_used_in_span(1))
  then show ?thesis using owns_payload(2) [OF assms(2) i(1)] i(2) a(1) by blast
qed

section \<open>Requests that wrap\<close>

lemma find_in_blocks_skip:
  assumes "\<forall>c\<in>set pre. \<not> b_free c" and "compute_layout b n al = Some (Some l)"
  shows "find_in_blocks n al (pre @ b # post) = Some (Some (length pre, l))"
  using assms by (induction pre) (auto simp: compute_layout_def)

lemma find_in_blocks_none_free: "\<forall>c\<in>set bs. \<not> b_free c \<Longrightarrow> find_in_blocks n al bs = Some None"
  by (induction bs) (auto simp: compute_layout_def)

lemma find_allocated_block_skip:
  assumes "\<forall>a\<in>set as. \<forall>c\<in>set (a_blocks a). \<not> b_free c" and "find_in_blocks n al (a_blocks a) = Some (Some (i, l))"
  shows "find_allocated_block n al (as @ a # rest) = Some (Some (length as, i, l))"
  using assms by (induction as) (auto simp: find_in_blocks_none_free)

lemma align_up_16_wraps:
  assumes "unat n + 15 < 2 ^ 64"
  shows "unat n \<le> unat (align_up n kMinimumAlignment)" "unat (align_up n kMinimumAlignment) < unat n + 16"
proof -
  have eq: "kMinimumAlignment = 2 ^ 4" by (simp add: kMinimumAlignment_def)
  have "unat (align_up n (2 ^ 4)) = unat n + (2 ^ 4 - 1) - (unat n + (2 ^ 4 - 1)) mod 2 ^ 4"
    using assms by (intro unat_align_up) simp_all
  note b = nat_round_up_bounds [of "2 ^ 4" "unat n", folded this]
  show "unat n \<le> unat (align_up n kMinimumAlignment)" "unat (align_up n kMinimumAlignment) < unat n + 16"
    unfolding eq using b by simp_all
qed

lemma align_up_16_zero:
  assumes "2 ^ 64 \<le> unat n + 15"
  shows "align_up n kMinimumAlignment = 0"
proof -
  have "unat (n + (2 ^ 4 - 1)) = (unat n + 15) mod 2 ^ 64" by (simp add: unat_word_ariths)
  moreover have "\<dots> < 16" using assms unsigned_less [of n, where ?'a = nat] by (subst mod_if) simp
  ultimately have "unat (align_down (n + (2 ^ 4 - 1)) (2 ^ 4)) = 0" unfolding unat_align_down by simp
  then show ?thesis by (simp add: align_up_eq_down [of n 4, simplified] kMinimumAlignment_def unat_eq_zero)
qed

text \<open>A request whose end wraps around the address space fits every free block.\<close>

lemma compute_layout_wraps:
  assumes "b_free b" and "unat (b_addr b) + 48 + unat (b_size b) < 2 ^ 64" and "16 dvd unat (b_addr b)"
    and "b_addr b + sizeof_BlockHeader + m \<le> block_end b"
  shows "compute_layout b m 16 = Some (Some \<lparr>header_address = b_addr b, leading_span = 0,
    trailing_span = block_end b - (b_addr b + sizeof_BlockHeader + m)\<rparr>)"
proof -
  have s: "unat (b_addr b + sizeof_BlockHeader) = unat (b_addr b) + 48" using assms(2) by (simp add: unat_add_no_wrap)
  have "align_up (b_addr b + sizeof_BlockHeader) (2 ^ 4) = b_addr b + sizeof_BlockHeader"
  proof (rule align_up_multiple)
    show "2 ^ 4 dvd unat (b_addr b + sizeof_BlockHeader)" using s assms(3) by simp
    then show "unat (b_addr b + sizeof_BlockHeader) + 2 ^ 4 \<le> 2 ^ 64" using s assms(2) by simp presburger
  qed simp
  then show ?thesis using assms(1,4) by (subst compute_layout_def) (simp add: layout_loop.simps Let_def not_less)
qed

lemma normalize_small: "unat al \<le> 16 \<Longrightarrow> normalize_alignment al = 16"
  by (auto simp: normalize_alignment_def kMinimumAlignment_def word_less_nat_alt word_unat_eq_iff)

lemma oversized_fits:
  assumes "unat (b_addr b) + 48 + unat (b_size b) < 2 ^ 64" and "2 ^ 64 \<le> unat (b_addr b) + 48 + unat n"
  shows "b_addr b + sizeof_BlockHeader + align_up n kMinimumAlignment \<le> block_end b"
    and "unat n + 80 \<le> 2 ^ 64 \<Longrightarrow>
      unat (b_addr b + sizeof_BlockHeader + align_up n kMinimumAlignment) + (2 ^ 64 - unat (align_up n kMinimumAlignment))
        = unat (b_addr b) + 48"
proof -
  let ?m = "align_up n kMinimumAlignment" and ?p = "b_addr b + sizeof_BlockHeader"
  have p: "unat ?p = unat (b_addr b) + 48" using assms(1) by (simp add: unat_add_no_wrap)
  have e: "unat (block_end b) = unat (b_addr b) + 48 + unat (b_size b)"
    using assms(1) p by (simp add: block_end_def unat_add_no_wrap)
  have m: "unat ?m < 2 ^ 64" using unsigned_less [of ?m, where ?'a = nat] by simp
  have w: "unat (?p + ?m) = unat ?p + unat ?m - 2 ^ 64" if "unat n + 15 < 2 ^ 64"
    using align_up_16_wraps [OF that] assms p m by (subst unat_plus_if') simp
  show "?p + ?m \<le> block_end b"
  proof (cases "unat n + 15 < 2 ^ 64")
    case True
    with w m p e show ?thesis by (simp add: word_le_nat_alt)
  next
    case False
    then show ?thesis using p e by (simp add: align_up_16_zero word_le_nat_alt)
  qed
  show "unat (?p + ?m) + (2 ^ 64 - unat ?m) = unat (b_addr b) + 48" if "unat n + 80 \<le> 2 ^ 64"
    using w align_up_16_wraps [of n] that assms(2) p m by simp
qed

section \<open>Properties\<close>

definition heap_example_pm :: pm_state where
  "heap_example_pm = \<lparr>g_regions = [\<lparr>r_base = 0x100000, r_end = 0x128000\<rparr>],
     g_hhdm_offset = 0xffff800000000000, g_total_pages = 40, g_ready = True\<rparr>"

definition heap_example :: heap_state where
  "heap_example = heap_initialize heap_example_pm"

lemma heap_example_eq: "heap_example =
  \<lparr>h_arenas = [\<lparr>a_allocation = \<lparr>physical_address = 0x100000, virtual_address = 0xffff800000100000, page_count = 16\<rparr>,
      a_blocks = [\<lparr>b_addr = 0xffff800000100030, b_size = 65440, b_free = True\<rparr>]\<rparr>],
   h_used_bytes = 0, h_ready = True,
   h_pm = heap_example_pm\<lparr>g_regions := [\<lparr>r_base = 0x110000, r_end = 0x128000\<rparr>]\<rparr>\<rparr>"
  by (simp add: heap_example_def heap_initialize_def acquire_arena_def arena_page_count_def heap_consts
      kPageSize_def align_up_def allocate_contiguous_pages_def heap_example_pm_def arena_payload_start_def
      arena_base_def arena_initial_block_size_def arena_capacity_def Let_def)

lemma heap_initialize_inv:
  assumes "pm_inv pm" and "direct_map_ok pm"
  shows "heap_inv (heap_initialize pm)"
proof -
  let ?st0 = "\<lparr>h_arenas = [], h_used_bytes = 0, h_ready = False, h_pm = pm\<rparr>"
  have shape: "heap_shape ?st0" using assms by (simp add: heap_shape_def pm.holds_def)
  have k: "kMinimumAlignment = 2 ^ 4" by (simp add: kMinimumAlignment_def)
  obtain ok st where acq: "acquire_arena kMinimumAlignment (2 ^ 4) ?st0 = (ok, st)" by fastforce
  show ?thesis
  proof (cases ok)
    case False
    with acq have "st = ?st0" by (auto intro: acquire_arena_refused)
    with acq False shape k show ?thesis
      by (simp add: heap_initialize_def heap_inv_def live_blocks_def heap_shape_def)
  next
    case True
    with acq have acq': "acquire_arena kMinimumAlignment (2 ^ 4) ?st0 = (True, st)" by simp
    have "unat kMinimumAlignment \<le> 2 ^ 44" by (simp add: kMinimumAlignment_def)
    from acquire_arena_spec [OF _ _ this shape acq'] obtain a pm' where
      st: "st = ?st0\<lparr>h_pm := pm', h_arenas := a # h_arenas ?st0\<rparr>" and shape': "heap_shape st"
      and blocks: "a_blocks a = [\<lparr>b_addr = arena_payload_start a, b_size = arena_initial_block_size a, b_free = True\<rparr>]"
      by auto
    have "heap_initialize pm = st\<lparr>h_ready := True\<rparr>"
      using acq' k by (simp add: heap_initialize_def)
    with st shape' blocks show ?thesis
      by (simp add: heap_inv_def live_blocks_def heap_shape_def)
  qed
qed

lemma heap_example_pm_ok: "pm_inv heap_example_pm" "direct_map_ok heap_example_pm"
  by (simp add: pm_inv_def heap_example_pm_def regions_wf_def regions_aligned_def kMaxFreeRegions_def)
    (auto simp: direct_map_ok_def heap_example_pm_def free_set_def region_set_def word_less_nat_alt)

lemma heap_example_inv: "heap_inv heap_example"
  unfolding heap_example_def by (rule heap_initialize_inv [OF heap_example_pm_ok])

text \<open>C4. For a size and an alignment of at most 8 TiB (\<open>2\<^sup>4\<^sup>3\<close> bytes), \<^verbatim>\<open>heap::allocate\<close> always
  returns on a heap in its invariant, whatever arenas it has to acquire. On success exactly
  one live block is added, at least as large as the request and aligned as asked; on failure
  the live blocks are untouched, and a request for a nonzero size on an initialised heap fails
  only when the page allocator has no run left for the arena it needs. The invariant is kept
  on both paths. The bound is needed: a request whose end wraps around the address space is
  granted from a block too small for it.\<close>

theorem heap_allocate_correct:
  assumes "heap_inv st" and "unat n \<le> 2 ^ 43" and "unat al \<le> 2 ^ 43"
  shows "\<exists>r st'. heap_allocate n al st = Some (r, st') \<and> heap_inv st' \<and>
    (case r of
       None \<Rightarrow> live_blocks st' = live_blocks st \<and> (h_ready st \<longrightarrow> n \<noteq> 0 \<longrightarrow>
         fst (allocate_contiguous_pages (arena_page_count (align_up n kMinimumAlignment) (normalize_alignment al)) (h_pm st')) = None)
     | Some p \<Rightarrow> (\<exists>x. mset (live_blocks st') = add_mset x (mset (live_blocks st)) \<and>
         unat p = unat (b_addr x) + 48 \<and> unat (normalize_alignment al) dvd unat p \<and> n \<le> b_size x))"
  using heap_allocate_full [OF assms] by blast

lemma heap_example_allocates:
  "\<exists>st'. heap_allocate 100 16 heap_example = Some (Some 0xffff800000100060, st')"
  unfolding heap_example_eq
  by (simp add: heap_allocate_def normalize_alignment_def is_power_of_two_def allocate_loop.simps
      compute_layout_def layout_loop.simps heap_consts align_up_def block_end_def minimum_block_span_def
      take_block_def commit_allocation_def Let_def)

theorem heap_allocate_correct_witness:
  "\<exists>st' x. heap_allocate 100 16 heap_example = Some (Some 0xffff800000100060, st') \<and> heap_inv st' \<and>
     mset (live_blocks st') = add_mset x (mset (live_blocks heap_example)) \<and> 100 \<le> b_size x"
proof -
  obtain st' where st': "heap_allocate 100 16 heap_example = Some (Some 0xffff800000100060, st')"
    using heap_example_allocates by blast
  have "unat (100 :: u64) \<le> 2 ^ 43" "unat (16 :: u64) \<le> 2 ^ 43" by simp_all
  from heap_allocate_correct [OF heap_example_inv this] st' show ?thesis by auto
qed

text \<open>C26. Whatever the kernel asks of the heap: from \<^verbatim>\<open>initialize\<close> on, in every sequence of
  calls that allocates at most 8 TiB at a time (and with at most that alignment) and frees
  only pointers it holds, every call returns, none panics, and the byte ranges the caller
  holds, each of the size it asked for, never overlap and lie in pages the heap took from
  the page allocator.\<close>

theorem heap_clients_disjoint:
  assumes "pm_inv pm" and "direct_map_ok pm" and "list_all heap_op_small ops"
  shows "\<exists>own st. heap_client ops [] (heap_initialize pm) = Some (own, st) \<and>
    sorted_wrt (\<lambda>a b. payload a \<inter> payload b = {}) own \<and>
    (\<forall>o1\<in>set own. \<exists>a\<in>set (h_arenas st). payload o1 \<subseteq> arena_span (g_hhdm_offset (h_pm st)) a) \<and>
    pm.holds (h_pm st) (map a_allocation (h_arenas st))"
proof -
  have "live_blocks (heap_initialize pm) = []"
    by (auto simp: heap_initialize_def acquire_arena_def live_blocks_def Let_def split: prod.splits option.splits)
  then have "owns [] []" "mset [] = mset (live_blocks (heap_initialize pm))" by (simp_all add: owns_def)
  from heap_client_spec [OF heap_initialize_inv [OF assms(1,2)] this assms(3)] obtain own st bs where
    c: "heap_client ops [] (heap_initialize pm) = Some (own, st)" "heap_inv st" "owns own bs"
    "mset bs = mset (live_blocks st)" by blast
  show ?thesis
  proof (intro exI conjI ballI)
    show "heap_client ops [] (heap_initialize pm) = Some (own, st)" by (rule c(1))
    show "sorted_wrt (\<lambda>a b. payload a \<inter> payload b = {}) own" by (rule owns_disjoint [OF c(2-4)])
    show "pm.holds (h_pm st) (map a_allocation (h_arenas st))" using c(2) by (simp add: heap_inv_def heap_shape_def)
  qed (rule owns_in_arena [OF c(2-4)])
qed

theorem heap_clients_disjoint_witness:
  "\<exists>own st. heap_client [Heap_alloc 100 16, Heap_alloc 70000 4096, Heap_release 1, Heap_alloc 64 8] []
      (heap_initialize heap_example_pm) = Some (own, st) \<and> sorted_wrt (\<lambda>a b. payload a \<inter> payload b = {}) own"
proof -
  have "list_all heap_op_small [Heap_alloc 100 16, Heap_alloc 70000 4096, Heap_release 1, Heap_alloc 64 8]" by simp
  from heap_clients_disjoint [OF heap_example_pm_ok this] show ?thesis by blast
qed

definition heap_example_two :: heap_state where
  "heap_example_two = heap_example\<lparr>h_arenas :=
     [\<lparr>a_allocation = \<lparr>physical_address = 0x100000, virtual_address = 0xffff800000100000, page_count = 16\<rparr>,
       a_blocks = [\<lparr>b_addr = 0xffff800000100030, b_size = 112, b_free = False\<rparr>,
                   \<lparr>b_addr = 0xffff8000001000d0, b_size = 65280, b_free = False\<rparr>]\<rparr>],
     h_used_bytes := 65392\<rparr>"

lemma heap_example_two_inv: "heap_inv heap_example_two"
  using heap_example_inv
  by (simp add: heap_example_two_def heap_inv_def heap_shape_def heap_example_eq arena_wf_def separated_def
      live_blocks_def heap_example_pm_def)

text \<open>C17. \<^verbatim>\<open>heap::free\<close> of a live allocation does not panic and removes exactly that
  allocation; the blocks stay coalesced and the byte counter exact (the invariant).
  An arena that becomes empty goes back to the page allocator without touching
  another live block.\<close>

theorem heap_free_exact:
  assumes "heap_inv st" and "x \<in> set (live_blocks st)"
  shows "\<exists>st'. heap_free (b_addr x + sizeof_BlockHeader) st = Freed st' \<and> heap_inv st' \<and>
    mset (live_blocks st) = add_mset x (mset (live_blocks st'))"
  using heap_free_spec [OF assms] by blast

theorem heap_free_exact_witness:
  "\<exists>st'. heap_free 0xffff800000100060 heap_example_two = Freed st' \<and> heap_inv st' \<and>
    live_blocks st' = [\<lparr>b_addr = 0xffff8000001000d0, b_size = 65280, b_free = False\<rparr>]"
proof -
  let ?x = "\<lparr>b_addr = 0xffff800000100030, b_size = 112, b_free = False\<rparr>"
  have live: "live_blocks heap_example_two = [?x, \<lparr>b_addr = 0xffff8000001000d0, b_size = 65280, b_free = False\<rparr>]"
    by (simp add: heap_example_two_def live_blocks_def)
  from heap_free_exact [OF heap_example_two_inv, of ?x] live show ?thesis
    by (auto simp: sizeof_BlockHeader_def)
qed

text \<open>Freeing an address whose block is already free panics, so a double free is
  caught.\<close>

theorem heap_double_free_panics:
  assumes "heap_inv st" and "a \<in> set (h_arenas st)" and "b \<in> set (a_blocks a)" and "b_free b"
  shows "heap_free (b_addr b + sizeof_BlockHeader) st = Panicked"
  using assms by (intro heap_free_free_block) (simp_all add: heap_inv_def)

theorem heap_double_free_panics_witness: "heap_free 0xffff800000100060 heap_example = Panicked"
  using heap_double_free_panics [OF heap_example_inv, of "h_arenas heap_example ! 0" "a_blocks (h_arenas heap_example ! 0) ! 0"]
  by (simp add: heap_example_eq sizeof_BlockHeader_def)

text \<open>C33. For every power-of-two alignment from 16 bytes to 8 TiB but 64 and 128, and a size of
  at most 16 TiB (\<open>2\<^sup>4\<^sup>4\<close> bytes), a new arena is always large enough: after
  \<^verbatim>\<open>acquire_arena\<close> succeeds the retried search finds a block, so a request takes at
  most one arena.\<close>

theorem heap_one_arena_suffices:
  assumes "heap_inv st" and "unat nbytes \<le> 2 ^ 44" and "4 \<le> k" and "k \<le> 43" and "k \<noteq> 6" and "k \<noteq> 7"
    and "acquire_arena nbytes (2 ^ k) st = (True, st')"
  shows "\<exists>f. find_allocated_block nbytes (2 ^ k) (h_arenas st') = Some (Some f)"
  using acquire_then_find [OF assms(3-6,2,1,7)] .

lemma heap_example_acquires: "fst (acquire_arena 70000 4096 heap_example) = True"
  unfolding heap_example_eq
  by (simp add: acquire_arena_def arena_page_count_def heap_consts align_up_def
      kPageSize_def allocate_contiguous_pages_def heap_example_pm_def Let_def)

theorem heap_one_arena_suffices_witness:
  "\<exists>st' f. acquire_arena 70000 4096 heap_example = (True, st') \<and>
     find_allocated_block 70000 4096 (h_arenas st') = Some (Some f)"
proof -
  obtain st' where acq: "acquire_arena 70000 4096 heap_example = (True, st')"
    using heap_example_acquires by (cases "acquire_arena 70000 4096 heap_example") auto
  then have "acquire_arena 70000 (2 ^ 12) heap_example = (True, st')" by simp
  from heap_one_arena_suffices [OF heap_example_inv _ _ _ _ _ this] acq show ?thesis by auto
qed

text \<open>C39. With alignment 64 a request of 69472 bytes that no free block can hold takes every
  17-page run there is and still fails: the size \<^verbatim>\<open>acquire_arena\<close> computes leaves out
  the block that must fit in front of the aligned payload, so no arena it acquires
  can hold the request, and the arenas are not given back.\<close>

theorem heap_alignment_64_exhausts:
  assumes "heap_inv st" and "h_ready st" and "nothing_fits 69472 6 st"
  shows "\<exists>st'. heap_allocate 69472 64 st = Some (None, st') \<and> live_blocks st' = live_blocks st \<and>
    fst (allocate_contiguous_pages 17 (h_pm st')) = None"
proof -
  have pages: "arena_page_count 69472 (2 ^ 6) = 17"
    by (simp add: arena_page_count_def heap_consts kPageSize_def Let_def align_up_def)
  have short: "\<not> layout_ok (B + 48) (B + unat (arena_page_count 69472 (2 ^ 6)) * 4096) (unat (69472 :: u64)) (2 ^ 6) h"
    if "4096 dvd B" for B h
    using short_arena_64 [OF that, of "17 * 4096" 69472 h] pages by auto
  have "heap_shape st" using assms(1) by (simp add: heap_inv_def)
  from allocate_loop_exhausts [OF _ _ _ short this assms(3)] pages obtain st' where
    "allocate_loop 69472 (2 ^ 6) st = Some (None, st')" "live_blocks st' = live_blocks st"
    "fst (allocate_contiguous_pages 17 (h_pm st')) = None" by auto
  moreover have "heap_allocate 69472 64 st = allocate_loop 69472 (2 ^ 6) st"
    using assms(2) by (simp add: heap_allocate_def normalize_alignment_def is_power_of_two_def
        kMinimumAlignment_def align_up_def)
  ultimately show ?thesis by auto
qed

theorem heap_alignment_64_exhausts_witness:
  "fst (allocate_contiguous_pages 17 (h_pm heap_example)) \<noteq> None \<and>
   (\<exists>st'. heap_allocate 69472 64 heap_example = Some (None, st') \<and>
      fst (allocate_contiguous_pages 17 (h_pm st')) = None)"
proof -
  have "h_ready heap_example" by (simp add: heap_example_eq)
  moreover have "nothing_fits 69472 6 heap_example"
    by (auto simp: nothing_fits_def heap_example_eq layout_ok_def block_end_def heap_consts)
  ultimately have "\<exists>st'. heap_allocate 69472 64 heap_example = Some (None, st') \<and>
      fst (allocate_contiguous_pages 17 (h_pm st')) = None"
    using heap_alignment_64_exhausts [OF heap_example_inv] by blast
  moreover have "fst (allocate_contiguous_pages 17 (h_pm heap_example)) \<noteq> None"
    by (simp add: heap_example_eq heap_example_pm_def allocate_contiguous_pages_def kPageSize_def Let_def)
  ultimately show ?thesis by simp
qed

text \<open>C40. Outside the sizes of the other properties, \<^verbatim>\<open>allocate\<close> grants what it cannot hold. Let \<open>b\<close>
  be the first free block in search order, with its payload 16-byte aligned. Then every
  request so large that its end wraps around the address space is served from \<open>b\<close>, at once
  and with a pointer to the start of its payload, although \<open>b\<close> is smaller than the request:
  the sum \<^verbatim>\<open>compute_layout\<close> compares with the end of the block wraps, as does the rounding of the
  size within 15 bytes of \<open>2\<^sup>6\<^sup>4\<close>. Short of the last 80 sizes, a free block is listed below the
  payload, at the wrapped address, and the heap no longer satisfies its invariant.\<close>

theorem heap_oversized_request_granted:
  assumes "heap_inv st" and "h_ready st" and "h_arenas st = as @ a # rest" and "a_blocks a = pre @ b # post"
    and "\<forall>a\<in>set as. \<forall>c\<in>set (a_blocks a). \<not> b_free c" and "\<forall>c\<in>set pre. \<not> b_free c" and "b_free b"
    and "16 dvd unat (b_addr b)" and "unat al \<le> 16" and "2 ^ 64 \<le> unat (b_addr b) + 48 + unat n"
  shows "\<exists>st'. heap_allocate n al st = Some (Some (b_addr b + sizeof_BlockHeader), st') \<and> b_size b < n \<and>
    (unat n + 80 \<le> 2 ^ 64 \<longrightarrow> \<not> heap_inv st' \<and>
      (\<exists>c\<in>set (a_blocks (h_arenas st' ! length as)). b_free c \<and>
         unat (b_addr c) + (2 ^ 64 - unat (align_up n kMinimumAlignment)) = unat (b_addr b) + 48))"
proof -
  let ?m = "align_up n kMinimumAlignment" and ?p = "b_addr b + sizeof_BlockHeader"
  let ?l = "\<lparr>header_address = b_addr b, leading_span = 0, trailing_span = block_end b - (?p + ?m)\<rparr>"
  let ?r = "take_block ?m (length as) (length pre) ?l st"
  have "arena_wf (g_hhdm_offset (h_pm st)) a" using assms(1,3) by (simp add: heap_inv_def heap_shape_def)
  then have b: "unat (b_addr b) + 48 + unat (b_size b) + 2 ^ 46 < 2 ^ 64"
    using arena_used_in_span(2) [of _ a b] assms(4) by simp
  then have b64: "unat (b_addr b) + 48 + unat (b_size b) < 2 ^ 64" by simp
  have "compute_layout b ?m 16 = Some (Some ?l)"
    by (rule compute_layout_wraps [OF assms(7) b64 assms(8) oversized_fits(1) [OF b64 assms(10)]])
  then have "find_allocated_block ?m 16 (h_arenas st) = Some (Some (length as, length pre, ?l))"
    unfolding assms(3) using assms(4-6) by (intro find_allocated_block_skip) (simp_all add: find_in_blocks_skip)
  moreover have "normalize_alignment al = 16" "n \<noteq> 0"
    using normalize_small [OF assms(9)] b64 assms(10) by auto
  ultimately have alloc: "heap_allocate n al st = Some (apfst Some ?r)"
    using assms(2) by (simp add: heap_allocate_def) (subst allocate_loop.simps, simp)
  have nth: "h_arenas st ! length as = a" "a_blocks a ! length pre = b" using assms(3,4) by simp_all
  have fst_r: "fst ?r = ?p" by (simp add: take_block_def commit_allocation_def nth Let_def)
  have wild: "\<not> heap_inv (snd ?r) \<and> (\<exists>c\<in>set (a_blocks (h_arenas (snd ?r) ! length as)). b_free c \<and>
      unat (b_addr c) + (2 ^ 64 - unat ?m) = unat (b_addr b) + 48)" if n: "unat n + 80 \<le> 2 ^ 64"
  proof -
    note addr = oversized_fits(2) [OF b64 assms(10) n]
    have "unat ?m + 64 \<le> 2 ^ 64" using align_up_16_wraps [of n] n by simp
    then have "minimum_block_span \<le> block_end b - (?p + ?m)"
      using oversized_fits(1) [OF b64 assms(10)] addr unat_block_end [OF b64]
      by (simp add: word_le_nat_alt unat_sub_le)
    then have blocks: "a_blocks (h_arenas (snd ?r) ! length as) =
      pre @ [\<lparr>b_addr = b_addr b, b_size = ?m, b_free = False\<rparr>, \<lparr>b_addr = ?p + ?m,
        b_size = block_end b - (?p + ?m) - sizeof_BlockHeader, b_free = True\<rparr>] @ post"
      by (simp add: take_block_def commit_allocation_def nth Let_def splice_def assms(3,4))
    moreover have "\<not> heap_inv (snd ?r)"
    proof
      assume "heap_inv (snd ?r)"
      moreover have "h_arenas (snd ?r) ! length as \<in> set (h_arenas (snd ?r))"
        by (simp add: take_block_def Let_def assms(3) split: prod.splits)
      ultimately have "arena_wf (g_hhdm_offset (h_pm (snd ?r))) (h_arenas (snd ?r) ! length as)"
        by (simp add: heap_inv_def heap_shape_def)
      from arena_used_in_span(2) [OF this, of "\<lparr>b_addr = b_addr b, b_size = ?m, b_free = False\<rparr>"] blocks
      have "unat (b_addr b) + 48 + unat ?m < 2 ^ 64" by simp
      with addr show False by linarith
    qed
    ultimately show ?thesis using addr by simp
  qed
  have "b_size b < n" using b64 assms(10) by (simp add: word_less_nat_alt)
  then show ?thesis using alloc fst_r wild
    by (intro exI [of _ "snd ?r"]) (simp add: apfst_def map_prod_def split: prod.splits)
qed

theorem heap_oversized_request_granted_witness:
  "\<exists>st'. heap_allocate (2 ^ 47) 16 heap_example = Some (Some 0xffff800000100060, st') \<and> \<not> heap_inv st'"
  using heap_oversized_request_granted [OF heap_example_inv, of "[]" "hd (h_arenas heap_example)" "[]" "[]"
    "\<lparr>b_addr = 0xffff800000100030, b_size = 65440, b_free = True\<rparr>" "[]" 16 "2 ^ 47"]
  by (simp add: heap_example_eq sizeof_BlockHeader_def) blast

end
