(* ===== verification/Kernel_Object.thy ===== *)
theory Kernel_Object
  imports Kernel_Heap
begin

text \<open>
  The kernel's reference-counted objects: \<^verbatim>\<open>kernel/object.cpp\<close> (events, timers,
  sections, semaphores, ports, thread objects, waits), the credentials of
  \<^verbatim>\<open>include/kernel/credentials.hpp\<close>, and the stream objects and pipes of
  \<^verbatim>\<open>kernel/process.cpp\<close> that \<^verbatim>\<open>object::release\<close> reaches through \<^verbatim>\<open>destroy\<close>.

  An object pointer is the table and the slot it points into. The \<^verbatim>\<open>Header\<close> each
  struct starts with is kept in one store \<open>k_hdr\<close> indexed by the pointer; the rest of
  the struct is the entry of its table. \<^verbatim>\<open>int32_t\<close> counters are integers: every update
  of the source stays within their range or is checked here. Calls into other
  components (waking threads, closing a device or a socket) are appended to \<open>k_calls\<close>
  in the order the source makes them; a call of \<^verbatim>\<open>panic\<close> or a failed assertion sets
  \<open>k_panic\<close>.
\<close>

section \<open>Credentials\<close>

record credentials =
  c_uid :: u32
  c_euid :: u32
  c_gid :: u32

definition cred_system :: credentials where
  "cred_system = \<lparr>c_uid = 0, c_euid = 0, c_gid = 0\<rparr>"

definition acts_as_system :: "credentials \<Rightarrow> bool" where
  "acts_as_system who \<longleftrightarrow> c_euid who = 0"

definition elevated :: "credentials \<Rightarrow> bool" where
  "elevated who \<longleftrightarrow> c_euid who = 0 \<and> c_uid who \<noteq> 0"

definition as_real :: "credentials \<Rightarrow> credentials" where
  "as_real who = \<lparr>c_uid = c_uid who, c_euid = c_uid who, c_gid = c_gid who\<rparr>"

section \<open>Headers and tables\<close>

datatype obj_type =
  Ty_none | Ty_io | Ty_process | Ty_thread | Ty_event | Ty_semaphore | Ty_timer | Ty_section | Ty_port

datatype destroy_fn =
  No_destroy | Destroy_event | Destroy_thread | Destroy_timer | Destroy_section | Destroy_port
  | Destroy_semaphore | Destroy_io

record obj_header =
  hd_type :: obj_type
  hd_refcount :: u32
  hd_destroy :: destroy_fn
  hd_waitable :: bool
  hd_manual_reset :: bool
  hd_signal_count :: int

definition zero_header :: obj_header where
  "zero_header = \<lparr>hd_type = Ty_none, hd_refcount = 0, hd_destroy = No_destroy, hd_waitable = False,
     hd_manual_reset = False, hd_signal_count = 0\<rparr>"

datatype obj_ptr =
  Event_at nat | Timer_at nat | Section_at nat | Semaphore_at nat | Port_at nat | Thread_at nat | Io_at nat

record timer_object =
  tm_in_use :: bool
  tm_armed :: bool
  tm_due_ms :: u64
  tm_period_ms :: u64

definition zero_timer :: timer_object where
  "zero_timer = \<lparr>tm_in_use = False, tm_armed = False, tm_due_ms = 0, tm_period_ms = 0\<rparr>"

text \<open>\<open>se_pages\<close> holds the entries of the array \<open>se_pages_ptr\<close> points to.\<close>

record section_object =
  se_in_use :: bool
  se_file_backed :: bool
  se_access_mask :: u32
  se_source_node :: "nat option"
  se_source_offset :: u64
  se_source_length :: u64
  se_size_bytes :: u64
  se_page_count :: u64
  se_pages_ptr :: u64
  se_pages :: "u64 list"

definition zero_section :: section_object where
  "zero_section = \<lparr>se_in_use = False, se_file_backed = False, se_access_mask = 0, se_source_node = None,
     se_source_offset = 0, se_source_length = 0, se_size_bytes = 0, se_page_count = 0, se_pages_ptr = 0,
     se_pages = []\<rparr>"

record semaphore_object =
  sm_in_use :: bool
  sm_max_count :: int

definition zero_semaphore :: semaphore_object where
  "zero_semaphore = \<lparr>sm_in_use = False, sm_max_count = 0\<rparr>"

record thread_object =
  th_in_use :: bool
  th_ended :: bool
  th_tid :: u32
  th_pid :: u32
  th_exit_code :: int

definition zero_thread :: thread_object where
  "zero_thread = \<lparr>th_in_use = False, th_ended = False, th_tid = 0, th_pid = 0, th_exit_code = 0\<rparr>"

record port_connection =
  pc_client_pid :: u32
  pc_client :: credentials
  pc_server_read :: "obj_ptr option"
  pc_server_write :: "obj_ptr option"

definition zero_connection :: port_connection where
  "zero_connection = \<lparr>pc_client_pid = 0, pc_client = cred_system, pc_server_read = None, pc_server_write = None\<rparr>"

record port_object =
  po_in_use :: bool
  po_name :: string
  po_creator :: credentials
  po_pending_head :: nat
  po_pending_count :: nat
  po_pending :: "port_connection list"

definition kPortNameCapacity :: nat where "kPortNameCapacity = 32"
definition kPortPendingCapacity :: nat where "kPortPendingCapacity = 8"

definition zero_port :: port_object where
  "zero_port = \<lparr>po_in_use = False, po_name = [], po_creator = cred_system, po_pending_head = 0,
     po_pending_count = 0, po_pending = replicate kPortPendingCapacity zero_connection\<rparr>"

datatype handle_kind = Kind_none | Kind_tty | Kind_vnode | Kind_pipe | Kind_device | Kind_socket

definition open_read :: u32 where "open_read = 1"
definition open_write :: u32 where "open_write = 2"
definition open_nonblock :: u32 where "open_nonblock = 4"

record io_object =
  io_in_use :: bool
  io_kind :: handle_kind
  io_open_flags :: u32
  io_node :: "nat option"
  io_device :: "nat option"
  io_socket :: "nat option"
  io_pipe :: "nat option"
  io_offset :: u64

definition zero_io :: io_object where
  "zero_io = \<lparr>io_in_use = False, io_kind = Kind_none, io_open_flags = 0, io_node = None, io_device = None,
     io_socket = None, io_pipe = None, io_offset = 0\<rparr>"

definition kPipeCapacity :: nat where "kPipeCapacity = 8192"
definition kPipeHandleQueueCapacity :: nat where "kPipeHandleQueueCapacity = 8"

record pipe_object =
  pi_in_use :: bool
  pi_reader_refs :: u32
  pi_writer_refs :: u32
  pi_read_pos :: nat
  pi_write_pos :: nat
  pi_size :: nat
  pi_buffer :: "u8 list"
  pi_handles :: "obj_ptr option list"
  pi_handle_access :: "u32 list"
  pi_handle_head :: nat
  pi_handle_count :: nat

text \<open>\<^verbatim>\<open>memset\<close> of a pipe clears the struct; its bytes in \<^verbatim>\<open>g_pipe_storage\<close> stay.\<close>

definition clear_pipe :: "pipe_object \<Rightarrow> pipe_object" where
  "clear_pipe p = \<lparr>pi_in_use = False, pi_reader_refs = 0, pi_writer_refs = 0, pi_read_pos = 0,
     pi_write_pos = 0, pi_size = 0, pi_buffer = pi_buffer p,
     pi_handles = replicate kPipeHandleQueueCapacity None,
     pi_handle_access = replicate kPipeHandleQueueCapacity 0, pi_handle_head = 0, pi_handle_count = 0\<rparr>"

datatype kernel_call =
  Wake_readers nat | Wake_writers nat | Wake_object obj_ptr | Device_close nat | Socket_close nat

record kobj_state =
  k_hdr :: "obj_ptr \<Rightarrow> obj_header"
  k_events :: "bool list"
  k_timers :: "timer_object list"
  k_sections :: "section_object list"
  k_semaphores :: "semaphore_object list"
  k_ports :: "port_object list"
  k_threads :: "thread_object list"
  k_ios :: "io_object list"
  k_pipes :: "pipe_object list"
  k_heap :: heap_state
  k_mem :: "u64 \<Rightarrow> u8 list"
  k_calls :: "kernel_call list"
  k_panic :: bool

abbreviation upd_hdr :: "obj_ptr \<Rightarrow> (obj_header \<Rightarrow> obj_header) \<Rightarrow> kobj_state \<Rightarrow> kobj_state" where
  "upd_hdr p f st \<equiv> st\<lparr>k_hdr := (k_hdr st)(p := f (k_hdr st p))\<rparr>"

abbreviation set_hdr :: "obj_ptr \<Rightarrow> obj_header \<Rightarrow> kobj_state \<Rightarrow> kobj_state" where
  "set_hdr p h st \<equiv> st\<lparr>k_hdr := (k_hdr st)(p := h)\<rparr>"

definition calls :: "kernel_call \<Rightarrow> kobj_state \<Rightarrow> kobj_state" where
  "calls c st = st\<lparr>k_calls := k_calls st @ [c]\<rparr>"

section \<open>Port queues\<close>

definition port_enqueue :: "nat \<Rightarrow> port_connection \<Rightarrow> kobj_state \<Rightarrow> bool \<times> kobj_state" where
  "port_enqueue i connection st =
     (let port = k_ports st ! i in
      if kPortPendingCapacity \<le> po_pending_count port then (False, st)
      else
        let tail = (po_pending_head port + po_pending_count port) mod kPortPendingCapacity;
            port' = port\<lparr>po_pending := (po_pending port)[tail := connection],
              po_pending_count := po_pending_count port + 1\<rparr>
        in (True, upd_hdr (Port_at i) (hd_signal_count_update (\<lambda>_. int (po_pending_count port')))
              (st\<lparr>k_ports := (k_ports st)[i := port']\<rparr>)))"

definition port_dequeue :: "nat \<Rightarrow> kobj_state \<Rightarrow> port_connection option \<times> kobj_state" where
  "port_dequeue i st =
     (let port = k_ports st ! i in
      if po_pending_count port = 0 then (None, st)
      else
        let h = po_pending_head port;
            port' = port\<lparr>po_pending := (po_pending port)[h := zero_connection],
              po_pending_head := (h + 1) mod kPortPendingCapacity,
              po_pending_count := po_pending_count port - 1\<rparr>
        in (Some (po_pending port ! h),
            upd_hdr (Port_at i) (hd_signal_count_update (\<lambda>_. int (po_pending_count port')))
              (st\<lparr>k_ports := (k_ports st)[i := port']\<rparr>)))"

section \<open>References and destruction\<close>

definition obj_retain :: "obj_ptr \<Rightarrow> kobj_state \<Rightarrow> kobj_state" where
  "obj_retain p st = upd_hdr p (hd_refcount_update (\<lambda>n. n + 1)) st"

definition destroy_event :: "nat \<Rightarrow> kobj_state \<Rightarrow> kobj_state" where
  "destroy_event i st =
     (if hd_type (k_hdr st (Event_at i)) \<noteq> Ty_event then st
      else set_hdr (Event_at i) zero_header (st\<lparr>k_events := (k_events st)[i := False]\<rparr>))"

definition destroy_thread_object :: "nat \<Rightarrow> kobj_state \<Rightarrow> kobj_state" where
  "destroy_thread_object i st =
     (if hd_type (k_hdr st (Thread_at i)) \<noteq> Ty_thread then st
      else set_hdr (Thread_at i) zero_header (st\<lparr>k_threads := (k_threads st)[i := zero_thread]\<rparr>))"

definition destroy_timer :: "nat \<Rightarrow> kobj_state \<Rightarrow> kobj_state" where
  "destroy_timer i st =
     (if hd_type (k_hdr st (Timer_at i)) \<noteq> Ty_timer then st
      else set_hdr (Timer_at i) zero_header (st\<lparr>k_timers := (k_timers st)[i := zero_timer]\<rparr>))"

definition destroy_semaphore :: "nat \<Rightarrow> kobj_state \<Rightarrow> kobj_state" where
  "destroy_semaphore i st =
     (if hd_type (k_hdr st (Semaphore_at i)) \<noteq> Ty_semaphore then st
      else set_hdr (Semaphore_at i) zero_header
             (st\<lparr>k_semaphores := (k_semaphores st)[i := zero_semaphore]\<rparr>))"

text \<open>The page loop of \<^verbatim>\<open>destroy_section\<close> and of the rollback in \<^verbatim>\<open>allocate_section\<close>.\<close>

fun free_page_list :: "u64 list \<Rightarrow> heap_state \<Rightarrow> heap_state" where
  "free_page_list [] h = h"
| "free_page_list (p # ps) h =
     free_page_list ps (if p \<noteq> 0 then h\<lparr>h_pm := snd (free_pages p 1 (h_pm h))\<rparr> else h)"

definition free_to_heap :: "u64 \<Rightarrow> kobj_state \<Rightarrow> kobj_state" where
  "free_to_heap address st =
     (case heap_free address (k_heap st) of
        Freed h \<Rightarrow> st\<lparr>k_heap := h\<rparr>
      | Panicked \<Rightarrow> st\<lparr>k_panic := True\<rparr>
      | Wild \<Rightarrow> st\<lparr>k_panic := True\<rparr>)"

definition destroy_section :: "nat \<Rightarrow> kobj_state \<Rightarrow> kobj_state" where
  "destroy_section i st =
     (if hd_type (k_hdr st (Section_at i)) \<noteq> Ty_section then st
      else
        let s = k_sections st ! i;
            st' = (if se_pages_ptr s \<noteq> 0
                   then free_to_heap (se_pages_ptr s)
                          (st\<lparr>k_heap := free_page_list (take (unat (se_page_count s)) (se_pages s)) (k_heap st)\<rparr>)
                   else st)
        in set_hdr (Section_at i) zero_header (st'\<lparr>k_sections := (k_sections st')[i := zero_section]\<rparr>))"

text \<open>
  \<^verbatim>\<open>release\<close> destroys an object whose count reaches zero, and destroying one may
  release others: a port its pending pipe ends, a pipe end the handles still queued
  on its pipe. A queued object is neither a stream nor a port
  (\<^verbatim>\<open>native_pipe_send_handle\<close> refuses both), so the nesting ends after three levels:
  \<open>destroy_plain\<close>, \<open>destroy_stream\<close> and \<open>destroy_object\<close> are the destroy functions each
  level can reach.
\<close>

definition release_with :: "(obj_ptr \<Rightarrow> kobj_state \<Rightarrow> kobj_state) \<Rightarrow> obj_ptr option \<Rightarrow> kobj_state \<Rightarrow> kobj_state" where
  "release_with destroy object st =
     (case object of
        None \<Rightarrow> st
      | Some p \<Rightarrow>
          let st1 = (if hd_refcount (k_hdr st p) \<noteq> 0
                     then upd_hdr p (hd_refcount_update (\<lambda>n. n - 1)) st else st)
          in if hd_refcount (k_hdr st1 p) = 0 \<and> hd_destroy (k_hdr st1 p) \<noteq> No_destroy
             then destroy p st1 else st1)"

fun destroy_plain :: "obj_ptr \<Rightarrow> kobj_state \<Rightarrow> kobj_state" where
  "destroy_plain (Event_at i) st = destroy_event i st"
| "destroy_plain (Timer_at i) st = destroy_timer i st"
| "destroy_plain (Semaphore_at i) st = destroy_semaphore i st"
| "destroy_plain (Thread_at i) st = destroy_thread_object i st"
| "destroy_plain (Section_at i) st = destroy_section i st"
| "destroy_plain (Port_at i) st = st"
| "destroy_plain (Io_at i) st = st"

abbreviation upd_pipe :: "nat \<Rightarrow> (pipe_object \<Rightarrow> pipe_object) \<Rightarrow> kobj_state \<Rightarrow> kobj_state" where
  "upd_pipe q f st \<equiv> st\<lparr>k_pipes := (k_pipes st)[q := f (k_pipes st ! q)]\<rparr>"

fun drain_pipe_handles :: "nat \<Rightarrow> nat \<Rightarrow> kobj_state \<Rightarrow> kobj_state" where
  "drain_pipe_handles 0 q st = upd_pipe q (pi_handle_head_update (\<lambda>_. 0)) st"
| "drain_pipe_handles (Suc n) q st =
     (let h = pi_handle_head (k_pipes st ! q);
          st1 = release_with destroy_plain (pi_handles (k_pipes st ! q) ! h) st
      in drain_pipe_handles n q
           (upd_pipe q (\<lambda>pipe. pipe\<lparr>pi_handles := (pi_handles pipe)[h := None],
              pi_handle_access := (pi_handle_access pipe)[h := 0],
              pi_handle_head := (h + 1) mod kPipeHandleQueueCapacity,
              pi_handle_count := pi_handle_count pipe - 1\<rparr>) st1))"

definition free_pipe_if_unused :: "nat \<Rightarrow> kobj_state \<Rightarrow> kobj_state" where
  "free_pipe_if_unused q st =
     (if \<not> pi_in_use (k_pipes st ! q) then st
      else
        let st1 = (if pi_reader_refs (k_pipes st ! q) = 0
              then drain_pipe_handles (pi_handle_count (k_pipes st ! q)) q st else st)
        in if pi_reader_refs (k_pipes st1 ! q) = 0 \<and> pi_writer_refs (k_pipes st1 ! q) = 0
           then upd_pipe q clear_pipe st1 else st1)"

definition drop_pipe_end :: "u32 \<Rightarrow> nat \<Rightarrow> kobj_state \<Rightarrow> kobj_state" where
  "drop_pipe_end flags q st =
     (let st1 = (if flags AND open_read \<noteq> 0
            then calls (Wake_writers q) (upd_pipe q (pi_reader_refs_update (\<lambda>n. n - 1))
                   (st\<lparr>k_panic := k_panic st \<or> pi_reader_refs (k_pipes st ! q) = 0\<rparr>))
            else st);
          st2 = (if flags AND open_write \<noteq> 0
            then calls (Wake_readers q) (upd_pipe q (pi_writer_refs_update (\<lambda>n. n - 1))
                   (st1\<lparr>k_panic := k_panic st1 \<or> pi_writer_refs (k_pipes st1 ! q) = 0\<rparr>))
            else st1)
      in free_pipe_if_unused q st2)"

definition destroy_io_object :: "nat \<Rightarrow> kobj_state \<Rightarrow> kobj_state" where
  "destroy_io_object i st =
     (if hd_type (k_hdr st (Io_at i)) \<noteq> Ty_io then st
      else
        let f = k_ios st ! i;
            st1 = (if io_kind f = Kind_pipe \<and> io_pipe f \<noteq> None
                   then drop_pipe_end (io_open_flags f) (the (io_pipe f)) st
                   else if io_kind f = Kind_device \<and> io_device f \<noteq> None
                   then calls (Device_close (the (io_device f))) st
                   else if io_kind f = Kind_socket \<and> io_socket f \<noteq> None
                   then calls (Socket_close (the (io_socket f))) st
                   else st)
        in set_hdr (Io_at i) zero_header (st1\<lparr>k_ios := (k_ios st1)[i := zero_io]\<rparr>))"

fun destroy_stream :: "obj_ptr \<Rightarrow> kobj_state \<Rightarrow> kobj_state" where
  "destroy_stream (Io_at i) st = destroy_io_object i st"
| "destroy_stream p st = destroy_plain p st"

fun drain_port :: "nat \<Rightarrow> nat \<Rightarrow> kobj_state \<Rightarrow> kobj_state" where
  "drain_port 0 i st = st"
| "drain_port (Suc n) i st =
     (case port_dequeue i st of
        (None, st1) \<Rightarrow> st1
      | (Some c, st1) \<Rightarrow>
          drain_port n i (release_with destroy_stream (pc_server_write c)
            (release_with destroy_stream (pc_server_read c) st1)))"

definition destroy_port :: "nat \<Rightarrow> kobj_state \<Rightarrow> kobj_state" where
  "destroy_port i st =
     (let st1 = drain_port (po_pending_count (k_ports st ! i)) i st
      in set_hdr (Port_at i) zero_header (st1\<lparr>k_ports := (k_ports st1)[i := zero_port]\<rparr>))"

fun destroy_object :: "obj_ptr \<Rightarrow> kobj_state \<Rightarrow> kobj_state" where
  "destroy_object (Port_at i) st = destroy_port i st"
| "destroy_object p st = destroy_stream p st"

definition obj_release :: "obj_ptr option \<Rightarrow> kobj_state \<Rightarrow> kobj_state" where
  "obj_release object st = release_with destroy_object object st"

section \<open>Events, timers, semaphores, threads\<close>

definition create_event :: "bool \<Rightarrow> bool \<Rightarrow> kobj_state \<Rightarrow> nat option \<times> kobj_state" where
  "create_event manual_reset initial_state st =
     (case find_slot (\<lambda>in_use. \<not> in_use) (k_events st) of
        None \<Rightarrow> (None, st)
      | Some i \<Rightarrow> (Some i, set_hdr (Event_at i)
          (zero_header\<lparr>hd_type := Ty_event, hd_destroy := Destroy_event, hd_waitable := True,
             hd_manual_reset := manual_reset, hd_signal_count := (if initial_state then 1 else 0)\<rparr>)
          (st\<lparr>k_events := (k_events st)[i := True]\<rparr>)))"

definition create_timer :: "bool \<Rightarrow> kobj_state \<Rightarrow> nat option \<times> kobj_state" where
  "create_timer manual_reset st =
     (case find_slot (\<lambda>t. \<not> tm_in_use t) (k_timers st) of
        None \<Rightarrow> (None, st)
      | Some i \<Rightarrow> (Some i, set_hdr (Timer_at i)
          (zero_header\<lparr>hd_type := Ty_timer, hd_destroy := Destroy_timer, hd_waitable := True,
             hd_manual_reset := manual_reset\<rparr>)
          (st\<lparr>k_timers := (k_timers st)[i := zero_timer\<lparr>tm_in_use := True\<rparr>]\<rparr>)))"

definition create_semaphore :: "int \<Rightarrow> int \<Rightarrow> kobj_state \<Rightarrow> nat option \<times> kobj_state" where
  "create_semaphore initial_count max_count st =
     (if max_count \<le> 0 \<or> initial_count < 0 \<or> max_count < initial_count then (None, st)
      else case find_slot (\<lambda>s. \<not> sm_in_use s) (k_semaphores st) of
        None \<Rightarrow> (None, st)
      | Some i \<Rightarrow> (Some i, set_hdr (Semaphore_at i)
          (zero_header\<lparr>hd_type := Ty_semaphore, hd_destroy := Destroy_semaphore, hd_waitable := True,
             hd_manual_reset := False, hd_signal_count := initial_count\<rparr>)
          (st\<lparr>k_semaphores := (k_semaphores st)[i := \<lparr>sm_in_use = True, sm_max_count = max_count\<rparr>]\<rparr>)))"

definition release_semaphore :: "nat \<Rightarrow> int \<Rightarrow> kobj_state \<Rightarrow> int option \<times> kobj_state" where
  "release_semaphore i release_count st =
     (let previous = hd_signal_count (k_hdr st (Semaphore_at i)) in
      if \<not> sm_in_use (k_semaphores st ! i) \<or> release_count \<le> 0 then (None, st)
      else if sm_max_count (k_semaphores st ! i) - previous < release_count then (None, st)
      else (Some previous,
        upd_hdr (Semaphore_at i) (hd_signal_count_update (\<lambda>_. previous + release_count)) st))"

definition set_event :: "nat \<Rightarrow> kobj_state \<Rightarrow> kobj_state" where
  "set_event i st =
     (if k_events st ! i then upd_hdr (Event_at i) (hd_signal_count_update (\<lambda>_. 1)) st else st)"

definition reset_event :: "nat \<Rightarrow> kobj_state \<Rightarrow> kobj_state" where
  "reset_event i st =
     (if k_events st ! i then upd_hdr (Event_at i) (hd_signal_count_update (\<lambda>_. 0)) st else st)"

definition set_timer :: "nat \<Rightarrow> u64 \<Rightarrow> u64 \<Rightarrow> kobj_state \<Rightarrow> kobj_state" where
  "set_timer i due period st =
     (if \<not> tm_in_use (k_timers st ! i) then st
      else upd_hdr (Timer_at i) (hd_signal_count_update (\<lambda>_. 0))
             (st\<lparr>k_timers := (k_timers st)[i := (k_timers st ! i)
                \<lparr>tm_armed := True, tm_due_ms := due, tm_period_ms := period\<rparr>]\<rparr>))"

definition cancel_timer :: "nat \<Rightarrow> kobj_state \<Rightarrow> kobj_state" where
  "cancel_timer i st =
     (if \<not> tm_in_use (k_timers st ! i) then st
      else upd_hdr (Timer_at i) (hd_signal_count_update (\<lambda>_. 0))
             (st\<lparr>k_timers := (k_timers st)[i := (k_timers st ! i)
                \<lparr>tm_armed := False, tm_due_ms := 0, tm_period_ms := 0\<rparr>]\<rparr>))"

text \<open>The \<^verbatim>\<open>do ... while\<close> loop that moves a periodic timer past \<open>now\<close>; \<open>None\<close> is a loop
  that never ends.\<close>

partial_function (option) advance_due :: "u64 \<Rightarrow> u64 \<Rightarrow> u64 \<Rightarrow> u64 option" where
  "advance_due now period due =
     (if due + period \<le> now then advance_due now period (due + period) else Some (due + period))"

text \<open>\<open>on_signal\<close> is the function pointer of the source. It runs inside the loop, so the state \<open>'w\<close>
  it works on besides the objects is threaded through.\<close>

type_synonym 'w signal_fn = "obj_ptr \<Rightarrow> 'w \<times> kobj_state \<Rightarrow> 'w \<times> kobj_state"

definition fire_timer :: "'w signal_fn option \<Rightarrow> u64 \<Rightarrow> nat \<Rightarrow> 'w \<times> kobj_state \<Rightarrow> ('w \<times> kobj_state) option" where
  "fire_timer on_signal now i ws =
     (case ws of (w, st) \<Rightarrow>
        let t = k_timers st ! i in
        if \<not> tm_in_use t \<or> \<not> tm_armed t \<or> now < tm_due_ms t then Some (w, st)
        else
          let st1 = upd_hdr (Timer_at i) (hd_signal_count_update (\<lambda>_. 1)) st in
          map_option
            (\<lambda>t'. let ws1 = (w, st1\<lparr>k_timers := (k_timers st1)[i := t']\<rparr>)
                  in case on_signal of None \<Rightarrow> ws1 | Some f \<Rightarrow> f (Timer_at i) ws1)
            (if tm_period_ms t \<noteq> 0
             then map_option (\<lambda>due. t\<lparr>tm_due_ms := due\<rparr>) (advance_due now (tm_period_ms t) (tm_due_ms t))
             else Some (t\<lparr>tm_armed := False, tm_due_ms := 0\<rparr>)))"

fun poll_timers_from :: "'w signal_fn option \<Rightarrow> nat \<Rightarrow> u64 \<Rightarrow> nat \<Rightarrow> 'w \<times> kobj_state \<Rightarrow> ('w \<times> kobj_state) option" where
  "poll_timers_from on_signal i now 0 ws = Some ws"
| "poll_timers_from on_signal i now (Suc n) ws =
     (case fire_timer on_signal now i ws of
        None \<Rightarrow> None
      | Some ws1 \<Rightarrow> poll_timers_from on_signal (Suc i) now n ws1)"

definition poll_timers :: "'w signal_fn option \<Rightarrow> u64 \<Rightarrow> 'w \<times> kobj_state \<Rightarrow> ('w \<times> kobj_state) option" where
  "poll_timers on_signal now ws = poll_timers_from on_signal 0 now (length (k_timers (snd ws))) ws"

definition create_thread_object :: "u32 \<Rightarrow> u32 \<Rightarrow> kobj_state \<Rightarrow> nat option \<times> kobj_state" where
  "create_thread_object tid pid st =
     (case find_slot (\<lambda>t. \<not> th_in_use t) (k_threads st) of
        None \<Rightarrow> (None, st)
      | Some i \<Rightarrow> (Some i, set_hdr (Thread_at i)
          (zero_header\<lparr>hd_type := Ty_thread, hd_destroy := Destroy_thread, hd_waitable := True,
             hd_manual_reset := True\<rparr>)
          (st\<lparr>k_threads := (k_threads st)[i := zero_thread\<lparr>th_in_use := True, th_tid := tid, th_pid := pid\<rparr>]\<rparr>)))"

definition end_thread_object :: "nat \<Rightarrow> int \<Rightarrow> kobj_state \<Rightarrow> kobj_state" where
  "end_thread_object i exit_code st =
     (if th_ended (k_threads st ! i) then st
      else upd_hdr (Thread_at i) (hd_signal_count_update (\<lambda>_. 1))
             (st\<lparr>k_threads := (k_threads st)[i := (k_threads st ! i)
                \<lparr>th_ended := True, th_exit_code := exit_code\<rparr>]\<rparr>))"

section \<open>Waiting\<close>

definition can_satisfy_wait :: "obj_ptr \<Rightarrow> kobj_state \<Rightarrow> bool" where
  "can_satisfy_wait p st \<longleftrightarrow> hd_waitable (k_hdr st p) \<and> 0 < hd_signal_count (k_hdr st p)"

definition try_acquire_wait :: "obj_ptr \<Rightarrow> kobj_state \<Rightarrow> bool \<times> kobj_state" where
  "try_acquire_wait p st =
     (if \<not> can_satisfy_wait p st then (False, st)
      else if hd_manual_reset (k_hdr st p) then (True, st)
      else (True, upd_hdr p (hd_signal_count_update (\<lambda>n. n - 1)) st))"

section \<open>Ports\<close>

text \<open>A port name is the characters before its terminator; \<^verbatim>\<open>names_equal\<close> compares at most
  32 of them, one past the longest name a port can have.\<close>

fun names_equal_upto :: "nat \<Rightarrow> string \<Rightarrow> string \<Rightarrow> bool" where
  "names_equal_upto 0 l r = True"
| "names_equal_upto (Suc n) [] r = (r = [])"
| "names_equal_upto (Suc n) (c # l) [] = False"
| "names_equal_upto (Suc n) (c # l) (d # r) = (c = d \<and> names_equal_upto n l r)"

definition names_equal :: "string \<Rightarrow> string \<Rightarrow> bool" where
  "names_equal l r = names_equal_upto kPortNameCapacity l r"

definition find_port :: "string \<Rightarrow> kobj_state \<Rightarrow> nat option" where
  "find_port name st =
     (if name = [] then None
      else find_slot (\<lambda>p. po_in_use p \<and> names_equal (po_name p) name) (k_ports st))"

definition create_port :: "string \<Rightarrow> kobj_state \<Rightarrow> nat option \<times> kobj_state" where
  "create_port name st =
     (if name = [] \<or> find_port name st \<noteq> None \<or> kPortNameCapacity \<le> length name then (None, st)
      else case find_slot (\<lambda>p. \<not> po_in_use p) (k_ports st) of
        None \<Rightarrow> (None, st)
      | Some i \<Rightarrow> (Some i, set_hdr (Port_at i)
          (zero_header\<lparr>hd_type := Ty_port, hd_destroy := Destroy_port, hd_waitable := True,
             hd_manual_reset := True\<rparr>)
          (st\<lparr>k_ports := (k_ports st)[i := zero_port\<lparr>po_in_use := True, po_name := name\<rparr>]\<rparr>)))"

section \<open>Bounded FIFO queues\<close>

text \<open>The contract of the kernel's bounded queues: a list that grows at the back, shrinks
  at the front, and refuses to grow past its capacity.\<close>

locale bounded_fifo =
  fixes enq :: "'a \<Rightarrow> 's \<Rightarrow> bool \<times> 's"
    and deq :: "'s \<Rightarrow> 'a option \<times> 's"
    and items :: "'s \<Rightarrow> 'a list"
    and cap :: nat
    and invar :: "'s \<Rightarrow> bool"
  assumes enq_room: "invar s \<Longrightarrow> length (items s) < cap \<Longrightarrow> enq x s = (b, s') \<Longrightarrow>
      b \<and> invar s' \<and> items s' = items s @ [x]"
    and enq_full: "invar s \<Longrightarrow> cap \<le> length (items s) \<Longrightarrow> enq x s = (False, s)"
    and deq_some: "invar s \<Longrightarrow> items s = x # xs \<Longrightarrow> deq s = (r, s') \<Longrightarrow>
      r = Some x \<and> invar s' \<and> items s' = xs"
    and deq_none: "invar s \<Longrightarrow> items s = [] \<Longrightarrow> deq s = (None, s)"
begin

primrec enq_all :: "'a list \<Rightarrow> 's \<Rightarrow> 's" where
  "enq_all [] s = s"
| "enq_all (x # xs) s = enq_all xs (snd (enq x s))"

primrec deq_n :: "nat \<Rightarrow> 's \<Rightarrow> 'a list \<times> 's" where
  "deq_n 0 s = ([], s)"
| "deq_n (Suc n) s = (case deq s of (None, s') \<Rightarrow> ([], s')
     | (Some x, s') \<Rightarrow> (case deq_n n s' of (xs, s'') \<Rightarrow> (x # xs, s'')))"

lemma enq_all_items:
  "invar s \<Longrightarrow> length (items s) + length xs \<le> cap \<Longrightarrow>
    invar (enq_all xs s) \<and> items (enq_all xs s) = items s @ xs"
proof (induction xs arbitrary: s)
  case (Cons x xs)
  obtain b s' where e: "enq x s = (b, s')" by fastforce
  with enq_room [OF Cons.prems(1) _ e] Cons.prems have "invar s'" "items s' = items s @ [x]" by auto
  with Cons.IH [of s'] Cons.prems(2) e show ?case by simp
qed simp

lemma deq_n_items:
  "invar s \<Longrightarrow>
    fst (deq_n n s) = take n (items s) \<and> invar (snd (deq_n n s)) \<and> items (snd (deq_n n s)) = drop n (items s)"
proof (induction n arbitrary: s)
  case (Suc n)
  show ?case
  proof (cases "items s")
    case Nil
    then show ?thesis using deq_none [OF Suc.prems] Suc.prems by simp
  next
    case (Cons x xs)
    obtain r s' where d: "deq s = (r, s')" by fastforce
    from deq_some [OF Suc.prems Cons d] have "r = Some x" "invar s'" "items s' = xs" by auto
    with Suc.IH [of s'] Cons d show ?thesis by (auto split: prod.splits)
  qed
qed simp

text \<open>What goes in comes out, in order.\<close>

lemma fifo_order:
  assumes "invar s" and "items s = []" and "length xs \<le> cap"
  shows "fst (deq_n n (enq_all xs s)) = take n xs \<and> invar (snd (deq_n n (enq_all xs s))) \<and>
    items (snd (deq_n n (enq_all xs s))) = drop n xs"
  using enq_all_items [of s xs] deq_n_items [of "enq_all xs s" n] assms by simp

end

section \<open>Port queues are FIFO\<close>

definition port_wf :: "port_object \<Rightarrow> bool" where
  "port_wf p \<longleftrightarrow> length (po_pending p) = kPortPendingCapacity \<and> po_pending_head p < kPortPendingCapacity \<and>
     po_pending_count p \<le> kPortPendingCapacity"

definition port_queue :: "port_object \<Rightarrow> port_connection list" where
  "port_queue p = ring_list (po_pending_head p) (po_pending_count p) (po_pending p)"

definition port_inv :: "nat \<Rightarrow> kobj_state \<Rightarrow> bool" where
  "port_inv i st \<longleftrightarrow> i < length (k_ports st) \<and> port_wf (k_ports st ! i) \<and>
     hd_signal_count (k_hdr st (Port_at i)) = int (length (port_queue (k_ports st ! i)))"

lemma length_port_queue [simp]: "length (port_queue p) = po_pending_count p"
  by (simp add: port_queue_def)

lemma port_enqueue_room:
  assumes "port_inv i st" and "length (port_queue (k_ports st ! i)) < kPortPendingCapacity"
    and "port_enqueue i c st = (b, st')"
  shows "b \<and> port_inv i st' \<and> port_queue (k_ports st' ! i) = port_queue (k_ports st ! i) @ [c]"
proof -
  let ?p = "k_ports st ! i"
  have wf: "length (po_pending ?p) = kPortPendingCapacity" "po_pending_head ?p < kPortPendingCapacity"
    "po_pending_count ?p < kPortPendingCapacity" "i < length (k_ports st)"
    using assms(1,2) by (auto simp: port_inv_def port_wf_def)
  then have "ring_list (po_pending_head ?p) (Suc (po_pending_count ?p))
      ((po_pending ?p)[(po_pending_head ?p + po_pending_count ?p) mod kPortPendingCapacity := c]) =
      port_queue ?p @ [c]"
    using ring_list_snoc [of "po_pending_count ?p" "po_pending ?p"] by (simp add: port_queue_def)
  with wf assms(3) show ?thesis
    by (auto simp: port_enqueue_def Let_def port_inv_def port_wf_def port_queue_def)
qed

lemma port_dequeue_some:
  assumes "port_inv i st" and "port_queue (k_ports st ! i) = c # cs" and "port_dequeue i st = (r, st')"
  shows "r = Some c \<and> port_inv i st' \<and> port_queue (k_ports st' ! i) = cs"
proof -
  let ?p = "k_ports st ! i"
  have wf: "length (po_pending ?p) = kPortPendingCapacity" "po_pending_head ?p < kPortPendingCapacity"
    "po_pending_count ?p \<le> kPortPendingCapacity" "i < length (k_ports st)"
    using assms(1) by (auto simp: port_inv_def port_wf_def)
  have pos: "0 < po_pending_count ?p" using arg_cong [OF assms(2), of length] by simp
  have first: "po_pending ?p ! po_pending_head ?p = c"
    using ring_list_Cons [OF pos, of "po_pending_head ?p" "po_pending ?p"] wf assms(2)
    by (simp add: port_queue_def)
  have rest: "ring_list ((po_pending_head ?p + 1) mod kPortPendingCapacity) (po_pending_count ?p - 1)
      ((po_pending ?p)[po_pending_head ?p := zero_connection]) = cs"
    using ring_list_drop_first [OF pos, of "po_pending ?p" "po_pending_head ?p" zero_connection] wf assms(2)
    by (simp add: port_queue_def)
  have "0 < kPortPendingCapacity" by (simp add: kPortPendingCapacity_def)
  then show ?thesis using wf pos first rest assms(3)
    by (auto simp: port_dequeue_def Let_def port_inv_def port_wf_def port_queue_def)
qed

interpretation port_fifo: bounded_fifo "port_enqueue i" "port_dequeue i"
  "\<lambda>st. port_queue (k_ports st ! i)" kPortPendingCapacity "port_inv i" for i
proof unfold_locales
  fix s x
  assume "port_inv i s" and "kPortPendingCapacity \<le> length (port_queue (k_ports s ! i))"
  then show "port_enqueue i x s = (False, s)" by (simp add: port_enqueue_def Let_def)
next
  fix s
  assume "port_inv i s" and "port_queue (k_ports s ! i) = []"
  then have "po_pending_count (k_ports s ! i) = 0" by (metis length_port_queue list.size(3))
  then show "port_dequeue i s = (None, s)" by (simp add: port_dequeue_def Let_def)
qed (use port_enqueue_room port_dequeue_some in blast)+

section \<open>Port names\<close>

lemma names_equal_upto_iff:
  "names_equal_upto n l r \<longleftrightarrow> take n l = take n r"
  by (induction n l r rule: names_equal_upto.induct) auto

lemma names_equal_iff: "length l < kPortNameCapacity \<Longrightarrow> names_equal l r \<longleftrightarrow> l = r"
proof -
  assume l: "length l < kPortNameCapacity"
  have "l = r" if "take kPortNameCapacity l = take kPortNameCapacity r"
  proof -
    have t: "take kPortNameCapacity r = l" using that l by simp
    then have "length r < kPortNameCapacity" using l by (metis length_take min_less_iff_conj nat_neq_iff min_def)
    with t show ?thesis by simp
  qed
  then show ?thesis by (auto simp: names_equal_def names_equal_upto_iff)
qed

definition port_names_ok :: "kobj_state \<Rightarrow> bool" where
  "port_names_ok st \<longleftrightarrow>
     (\<forall>i<length (k_ports st). po_in_use (k_ports st ! i) \<longrightarrow>
        po_name (k_ports st ! i) \<noteq> [] \<and> length (po_name (k_ports st ! i)) < kPortNameCapacity) \<and>
     (\<forall>i j. i < length (k_ports st) \<longrightarrow> j < length (k_ports st) \<longrightarrow> po_in_use (k_ports st ! i) \<longrightarrow>
        po_in_use (k_ports st ! j) \<longrightarrow> po_name (k_ports st ! i) = po_name (k_ports st ! j) \<longrightarrow> i = j)"

lemma find_port_None:
  assumes "port_names_ok st" and "name \<noteq> []" and "find_port name st = None"
    and j: "j < length (k_ports st)" and "po_in_use (k_ports st ! j)"
  shows "po_name (k_ports st ! j) \<noteq> name"
proof -
  have "\<forall>p\<in>set (k_ports st). \<not> (po_in_use p \<and> names_equal (po_name p) name)"
    using assms(2,3) by (simp add: find_port_def find_slot_None_iff split: if_splits)
  then have "\<not> names_equal (po_name (k_ports st ! j)) name" using assms(5) nth_mem [OF j] by blast
  moreover have "length (po_name (k_ports st ! j)) < kPortNameCapacity"
    using assms(1,4,5) by (simp add: port_names_ok_def)
  ultimately show ?thesis by (auto simp: names_equal_iff)
qed

lemma create_port_spec:
  assumes ok: "port_names_ok st" and c: "create_port name st = (Some i, st')"
  shows "port_names_ok st' \<and> find_port name st' = Some i \<and> find_port name st = None \<and> port_inv i st'"
proof -
  have name: "name \<noteq> []" "find_port name st = None" "length name < kPortNameCapacity"
    and slot: "find_slot (\<lambda>p. \<not> po_in_use p) (k_ports st) = Some i"
    using c by (auto simp: create_port_def split: if_splits option.splits)
  let ?p = "zero_port\<lparr>po_in_use := True, po_name := name\<rparr>"
  have ports: "k_ports st' = (k_ports st)[i := ?p]"
    and sig: "hd_signal_count (k_hdr st' (Port_at i)) = 0"
    using c name slot by (auto simp: create_port_def zero_header_def)
  have i: "i < length (k_ports st)" and free: "\<not> po_in_use (k_ports st ! i)"
    using find_slot_SomeD [OF slot] by auto
  have others: "po_name (k_ports st ! j) \<noteq> name" if "j < length (k_ports st)" "po_in_use (k_ports st ! j)" for j
    using find_port_None [OF ok name(1,2) that] .
  have ok': "port_names_ok st'"
    using ok others name i unfolding port_names_ok_def ports
    by (auto simp: in_set_conv_nth nth_list_update split: if_splits)
  moreover have "find_port name st' = Some i"
  proof -
    have "find_slot (\<lambda>p. po_in_use p \<and> names_equal (po_name p) name) (k_ports st') = Some i"
    proof (rule find_slot_eqI)
      show "i < length (k_ports st')" using i ports by simp
      show "po_in_use (k_ports st' ! i) \<and> names_equal (po_name (k_ports st' ! i)) name"
        using i ports name by (simp add: names_equal_iff)
      fix j assume j: "j < i"
      with i ok others [of j] show "\<not> (po_in_use (k_ports st' ! j) \<and> names_equal (po_name (k_ports st' ! j)) name)"
        by (auto simp: ports port_names_ok_def names_equal_iff)
    qed
    with name show ?thesis by (simp add: find_port_def)
  qed
  moreover have "port_inv i st'"
    using i ports sig by (simp add: port_inv_def port_wf_def zero_port_def port_queue_def kPortPendingCapacity_def)
  ultimately show ?thesis using name(2) by simp
qed

section \<open>Semaphores\<close>

datatype sem_op = Sem_release int | Sem_acquire

text \<open>A run of operations on a semaphore, with the units released and acquired by the
  calls that succeeded.\<close>

fun sem_run :: "nat \<Rightarrow> sem_op list \<Rightarrow> kobj_state \<Rightarrow> int \<times> int \<times> kobj_state" where
  "sem_run i [] st = (0, 0, st)"
| "sem_run i (Sem_release n # ops) st =
     (case release_semaphore i n st of (r, st1) \<Rightarrow>
        (case sem_run i ops st1 of (rel, acq, st2) \<Rightarrow> (rel + (if r = None then 0 else n), acq, st2)))"
| "sem_run i (Sem_acquire # ops) st =
     (case try_acquire_wait (Semaphore_at i) st of (ok, st1) \<Rightarrow>
        (case sem_run i ops st1 of (rel, acq, st2) \<Rightarrow> (rel, acq + (if ok then 1 else 0), st2)))"

definition sem_inv :: "nat \<Rightarrow> int \<Rightarrow> kobj_state \<Rightarrow> bool" where
  "sem_inv i m st \<longleftrightarrow> sm_in_use (k_semaphores st ! i) \<and> sm_max_count (k_semaphores st ! i) = m \<and>
     hd_waitable (k_hdr st (Semaphore_at i)) \<and> \<not> hd_manual_reset (k_hdr st (Semaphore_at i)) \<and>
     0 \<le> hd_signal_count (k_hdr st (Semaphore_at i)) \<and> hd_signal_count (k_hdr st (Semaphore_at i)) \<le> m"

lemma sem_run_spec:
  "sem_inv i m st \<Longrightarrow> sem_run i ops st = (rel, acq, st') \<Longrightarrow>
    sem_inv i m st' \<and> hd_signal_count (k_hdr st' (Semaphore_at i)) =
      hd_signal_count (k_hdr st (Semaphore_at i)) + rel - acq"
proof (induction i ops st arbitrary: rel acq st' rule: sem_run.induct)
  case (2 i n ops st)
  obtain r st1 where r: "release_semaphore i n st = (r, st1)" by fastforce
  obtain rel1 acq1 st2 where s: "sem_run i ops st1 = (rel1, acq1, st2)" using prod_cases3 by blast
  have "sem_inv i m st1" "hd_signal_count (k_hdr st1 (Semaphore_at i)) =
      hd_signal_count (k_hdr st (Semaphore_at i)) + (if r = None then 0 else n)"
    using 2(2) r by (auto simp: release_semaphore_def sem_inv_def Let_def split: if_splits)
  with 2(1) [OF r [symmetric] _ s] 2(3) r s show ?case by auto
next
  case (3 i ops st)
  obtain ok st1 where r: "try_acquire_wait (Semaphore_at i) st = (ok, st1)" by fastforce
  obtain rel1 acq1 st2 where s: "sem_run i ops st1 = (rel1, acq1, st2)" using prod_cases3 by blast
  have "sem_inv i m st1" "hd_signal_count (k_hdr st1 (Semaphore_at i)) =
      hd_signal_count (k_hdr st (Semaphore_at i)) - (if ok then 1 else 0)"
    using 3(2) r by (auto simp: try_acquire_wait_def can_satisfy_wait_def sem_inv_def split: if_splits)
  with 3(1) [OF r [symmetric] _ s] 3(3) r s show ?case by auto
qed auto

lemma create_semaphore_inv:
  assumes "create_semaphore n m st = (Some i, st')"
  shows "sem_inv i m st' \<and> hd_signal_count (k_hdr st' (Semaphore_at i)) = n"
proof -
  have i: "i < length (k_semaphores st)"
    using assms find_slot_less by (auto simp: create_semaphore_def split: if_splits option.splits)
  with assms show ?thesis
    by (auto simp: create_semaphore_def sem_inv_def split: if_splits option.splits)
qed

section \<open>Timers\<close>

lemma advance_due_spec:
  assumes p: "period \<noteq> 0" and room: "unat now + unat period < 2 ^ 64"
  shows "due \<le> now \<Longrightarrow> \<exists>d. advance_due now period due = Some d \<and> now < d \<and> d \<le> now + period \<and>
    (\<exists>n. unat d = unat due + Suc n * unat period)"
proof (induction "unat now - unat due" arbitrary: due rule: less_induct)
  case less
  have pos: "0 < unat period" using p by (simp add: unat_gt_0)
  have le: "unat due \<le> unat now" using less.prems by (simp add: word_le_nat_alt)
  have u: "unat (due + period) = unat due + unat period"
    using le room by (intro unat_add_no_wrap) simp
  have un: "unat (now + period) = unat now + unat period"
    using room by (intro unat_add_no_wrap) simp
  show ?case
  proof (cases "due + period \<le> now")
    case True
    then have "unat now - unat (due + period) < unat now - unat due"
      using u pos by (simp add: word_le_nat_alt)
    from less.hyps [OF this True] obtain d n where d: "advance_due now period (due + period) = Some d"
      "now < d" "d \<le> now + period" "unat d = unat (due + period) + Suc n * unat period" by blast
    have "advance_due now period due = Some d" using True d(1) by (subst advance_due.simps) simp
    moreover have "unat d = unat due + Suc (Suc n) * unat period" using d(4) u by simp
    ultimately show ?thesis using d(2,3) by blast
  next
    case False
    then have "advance_due now period due = Some (due + period)" by (subst advance_due.simps) simp
    moreover have "due + period \<le> now + period" using u un le by (simp add: word_le_nat_alt)
    moreover have "unat (due + period) = unat due + Suc 0 * unat period" using u by simp
    ultimately show ?thesis using False by (metis not_le)
  qed
qed

definition timer_due :: "u64 \<Rightarrow> timer_object \<Rightarrow> bool" where
  "timer_due now t \<longleftrightarrow> tm_in_use t \<and> tm_armed t \<and> tm_due_ms t \<le> now"

text \<open>The timer a due timer becomes: a one-shot one is disarmed, a periodic one moves to the first
  multiple of its period after \<open>now\<close>.\<close>

definition timer_next :: "u64 \<Rightarrow> timer_object \<Rightarrow> timer_object" where
  "timer_next now t =
     (if tm_period_ms t = 0 then t\<lparr>tm_armed := False, tm_due_ms := 0\<rparr>
      else t\<lparr>tm_due_ms := tm_due_ms t + tm_period_ms t * ((now - tm_due_ms t) div tm_period_ms t + 1)\<rparr>)"

definition signal_timer :: "u64 \<Rightarrow> nat \<Rightarrow> kobj_state \<Rightarrow> kobj_state" where
  "signal_timer now i st = (upd_hdr (Timer_at i) (hd_signal_count_update (\<lambda>_. 1)) st)
     \<lparr>k_timers := (k_timers st)[i := timer_next now (k_timers st ! i)]\<rparr>"

lemma advance_due_closed:
  assumes "period \<noteq> 0" and "unat now + unat period < 2 ^ 64" and "due \<le> now"
  shows "advance_due now period due = Some (due + period * ((now - due) div period + 1))"
    and "now < due + period * ((now - due) div period + 1)"
    and "due + period * ((now - due) div period + 1) \<le> now + period"
proof -
  from advance_due_spec [OF assms] obtain d n where d: "advance_due now period due = Some d" "now < d" "d \<le> now + period"
    "unat d = unat due + Suc n * unat period" by blast
  have un: "unat (now + period) = unat now + unat period" using assms(2) by (intro unat_add_no_wrap) simp
  have "n * unat period \<le> unat now - unat due" "unat now - unat due < Suc n * unat period"
    using d(2-4) un by (simp_all add: word_le_nat_alt word_less_nat_alt)
  then have "n = (unat now - unat due) div unat period" by (simp add: div_nat_eqI mult.commute)
  then have n: "n = unat ((now - due) div period)" using assms(3) by (simp add: unat_div unat_sub_le)
  have "d = of_nat (unat due + Suc n * unat period)" using d(4) by (metis of_nat_unat ucast_id)
  also have "\<dots> = due + period * ((now - due) div period + 1)" by (simp add: n algebra_simps)
  finally have "d = due + period * ((now - due) div period + 1)" .
  then show "advance_due now period due = Some (due + period * ((now - due) div period + 1))"
    "now < due + period * ((now - due) div period + 1)" "due + period * ((now - due) div period + 1) \<le> now + period"
    using d(1-3) by simp_all
qed

text \<open>What \<^verbatim>\<open>poll_timers\<close> needs from the function it calls: that it leaves the timers alone.\<close>

locale timer_listener =
  fixes on_signal :: "'w signal_fn"
  assumes keeps_timers: "k_timers (snd (on_signal p ws)) = k_timers (snd ws)"
begin

definition fired :: "u64 \<Rightarrow> 'w \<times> kobj_state \<Rightarrow> nat \<Rightarrow> 'w \<times> kobj_state" where
  "fired now ws j = on_signal (Timer_at j) (fst ws, signal_timer now j (snd ws))"

lemma fired_timers: "k_timers (snd (fired now ws j)) = (k_timers (snd ws))[j := timer_next now (k_timers (snd ws) ! j)]"
  by (simp add: fired_def keeps_timers signal_timer_def)

lemma fire_timer_eq:
  assumes "unat now + unat (tm_period_ms (k_timers (snd ws) ! i)) < 2 ^ 64"
  shows "fire_timer (Some on_signal) now i ws =
    Some (if timer_due now (k_timers (snd ws) ! i) then fired now ws i else ws)"
  using advance_due_closed(1) [OF _ assms]
  by (cases ws) (auto simp: fire_timer_def timer_due_def fired_def signal_timer_def timer_next_def Let_def not_less)

lemma poll_timers_from_eq:
  "(\<forall>t\<in>set (k_timers (snd ws)). unat now + unat (tm_period_ms t) < 2 ^ 64) \<Longrightarrow> i + n \<le> length (k_timers (snd ws)) \<Longrightarrow>
   poll_timers_from (Some on_signal) i now n ws =
     Some (foldl (fired now) ws (filter (\<lambda>j. timer_due now (k_timers (snd ws) ! j)) [i..<i + n]))"
proof (induction n arbitrary: i ws)
  case (Suc n)
  let ?ts = "k_timers (snd ws)" and ?due = "timer_due now (k_timers (snd ws) ! i)"
  let ?ws1 = "if ?due then fired now ws i else ws"
  have i: "i < length ?ts" using Suc.prems(2) by simp
  have f: "fire_timer (Some on_signal) now i ws = Some ?ws1" using Suc.prems(1) i by (intro fire_timer_eq) simp
  have p: "tm_period_ms (timer_next now t) = tm_period_ms t" for t by (simp add: timer_next_def)
  have "\<forall>t\<in>insert (timer_next now (?ts ! i)) (set ?ts). unat now + unat (tm_period_ms t) < 2 ^ 64"
    using Suc.prems(1) i by (simp add: p)
  then have "\<forall>t\<in>set (k_timers (snd ?ws1)). unat now + unat (tm_period_ms t) < 2 ^ 64"
    using set_update_subset_insert [of ?ts i "timer_next now (?ts ! i)"] by (auto simp: fired_timers)
  moreover have "Suc i + n \<le> length (k_timers (snd ?ws1))" using Suc.prems(2) by (simp add: fired_timers)
  ultimately have "poll_timers_from (Some on_signal) (Suc i) now n ?ws1 =
      Some (foldl (fired now) ?ws1 (filter (\<lambda>j. timer_due now (k_timers (snd ?ws1) ! j)) [Suc i..<Suc i + n]))"
    by (rule Suc.IH)
  moreover have "filter (\<lambda>j. timer_due now (k_timers (snd ?ws1) ! j)) [Suc i..<Suc i + n] =
      filter (\<lambda>j. timer_due now (?ts ! j)) [Suc i..<i + Suc n]"
    by (auto intro!: filter_cong simp: fired_timers)
  moreover have "[i..<i + Suc n] = i # [Suc i..<i + Suc n]" by (simp add: upt_conv_Cons)
  ultimately show ?case using f by simp
qed simp

lemma fired_all_length: "length (k_timers (snd (foldl (fired now) ws js))) = length (k_timers (snd ws))"
  by (induction js arbitrary: ws) (simp_all add: fired_timers)

lemma fired_all_timers:
  "distinct js \<Longrightarrow> \<forall>j\<in>set js. j < length (k_timers (snd ws)) \<Longrightarrow> k < length (k_timers (snd ws)) \<Longrightarrow>
   k_timers (snd (foldl (fired now) ws js)) ! k =
     (if k \<in> set js then timer_next now (k_timers (snd ws) ! k) else k_timers (snd ws) ! k)"
  by (induction js arbitrary: ws) (auto simp: fired_timers nth_list_update)

lemma poll_timers_eq:
  assumes "\<forall>t\<in>set (k_timers (snd ws)). unat now + unat (tm_period_ms t) < 2 ^ 64"
  defines "js \<equiv> filter (\<lambda>j. timer_due now (k_timers (snd ws) ! j)) [0..<length (k_timers (snd ws))]"
  shows "poll_timers (Some on_signal) now ws = Some (foldl (fired now) ws js)"
    and "k_timers (snd (foldl (fired now) ws js)) =
      map (\<lambda>t. if timer_due now t then timer_next now t else t) (k_timers (snd ws))"
proof -
  show "poll_timers (Some on_signal) now ws = Some (foldl (fired now) ws js)"
    unfolding poll_timers_def js_def using poll_timers_from_eq [OF assms(1), of 0] by simp
  have js: "distinct js" "\<forall>j\<in>set js. j < length (k_timers (snd ws))" by (auto simp: js_def)
  show "k_timers (snd (foldl (fired now) ws js)) =
      map (\<lambda>t. if timer_due now t then timer_next now t else t) (k_timers (snd ws))"
    using fired_all_timers [OF js] by (intro nth_equalityI) (auto simp: js_def fired_all_length)
qed

end

section \<open>Correctness of kernel objects\<close>

definition kobj_example :: kobj_state where
  "kobj_example = \<lparr>k_hdr = (\<lambda>_. zero_header), k_events = [False, False],
     k_timers = [zero_timer, zero_timer], k_sections = [zero_section, zero_section],
     k_semaphores = [zero_semaphore, zero_semaphore], k_ports = [zero_port, zero_port],
     k_threads = [zero_thread, zero_thread], k_ios = [zero_io, zero_io],
     k_pipes = [clear_pipe \<lparr>pi_in_use = False, pi_reader_refs = 0, pi_writer_refs = 0, pi_read_pos = 0,
       pi_write_pos = 0, pi_size = 0, pi_buffer = replicate kPipeCapacity 0, pi_handles = [],
       pi_handle_access = [], pi_handle_head = 0, pi_handle_count = 0\<rparr>],
     k_heap = heap_example, k_mem = (\<lambda>_. replicate 4096 0), k_calls = [], k_panic = False\<rparr>"

text \<open>C20. A port delivers the connections queued on it in the order they arrived, and its
  signal count is always the number of connections waiting. From a state where the queue of
  port \<open>i\<close> is empty, take at most eight connections that \<^verbatim>\<open>port_enqueue\<close> accepts and then call
  \<^verbatim>\<open>port_dequeue\<close> any number of times: the connections come back unchanged and in order, the
  others stay queued, and the signal count is the number of those that stay. A full queue
  refuses a ninth connection without changing anything.\<close>

theorem port_queue_fifo:
  assumes "port_inv i st" and "port_queue (k_ports st ! i) = []" and "length cs \<le> kPortPendingCapacity"
  shows "(case bounded_fifo.deq_n (port_dequeue i) n (bounded_fifo.enq_all (port_enqueue i) cs st) of
      (got, st') \<Rightarrow> got = take n cs \<and> port_inv i st' \<and> port_queue (k_ports st' ! i) = drop n cs \<and>
        hd_signal_count (k_hdr st' (Port_at i)) = int (length cs - n)) \<and>
    (length cs = kPortPendingCapacity \<longrightarrow>
      port_enqueue i c (bounded_fifo.enq_all (port_enqueue i) cs st) =
        (False, bounded_fifo.enq_all (port_enqueue i) cs st))"
proof -
  let ?s = "port_fifo.enq_all i cs st"
  have e: "port_inv i ?s" "port_queue (k_ports ?s ! i) = cs"
    using port_fifo.enq_all_items [OF assms(1), of cs] assms(2,3) by simp_all
  have full: "port_enqueue i c ?s = (False, ?s)" if "length cs = kPortPendingCapacity"
    using port_fifo.enq_full [OF e(1)] e(2) that by simp
  obtain got st' where d: "port_fifo.deq_n i n ?s = (got, st')" by fastforce
  then have q: "got = take n cs" "port_inv i st'" "port_queue (k_ports st' ! i) = drop n cs"
    using port_fifo.fifo_order [OF assms, of n] by simp_all
  then have "hd_signal_count (k_hdr st' (Port_at i)) = int (length cs - n)" by (simp add: port_inv_def del: length_port_queue)
  with d q full show ?thesis by simp
qed

theorem port_queue_fifo_witness:
  "let cs = [zero_connection\<lparr>pc_client_pid := 7\<rparr>, zero_connection\<lparr>pc_client_pid := 9\<rparr>]
   in fst (bounded_fifo.deq_n (port_dequeue 1) 1 (bounded_fifo.enq_all (port_enqueue 1) cs kobj_example)) = take 1 cs \<and>
     hd_signal_count (k_hdr (snd (bounded_fifo.deq_n (port_dequeue 1) 1
       (bounded_fifo.enq_all (port_enqueue 1) cs kobj_example))) (Port_at 1)) = 1"
  using port_queue_fifo [of 1 kobj_example
    "[zero_connection\<lparr>pc_client_pid := 7\<rparr>, zero_connection\<lparr>pc_client_pid := 9\<rparr>]" 1]
  by (simp add: port_inv_def port_wf_def port_queue_def kobj_example_def zero_port_def zero_header_def
    kPortPendingCapacity_def Let_def split: prod.splits)

text \<open>Port names identify ports: no two ports in use have the same name, creating a port
  keeps that, and the name given to \<^verbatim>\<open>create_port\<close> finds exactly the new port, which starts
  with an empty queue. Comparing at most 32 characters is enough because a longer name is
  refused.\<close>

theorem create_port_unique_name:
  assumes "port_names_ok st" and "create_port name st = (Some i, st')"
  shows "port_names_ok st' \<and> find_port name st' = Some i \<and> find_port name st = None \<and> port_inv i st' \<and>
    (\<forall>other. other \<noteq> name \<longrightarrow> length other < kPortNameCapacity \<longrightarrow> find_port other st' = find_port other st)"
proof -
  have spec: "port_names_ok st'" "find_port name st' = Some i" "find_port name st = None" "port_inv i st'"
    using create_port_spec [OF assms] by simp_all
  have slot: "find_slot (\<lambda>p. \<not> po_in_use p) (k_ports st) = Some i"
    and ports: "k_ports st' = (k_ports st)[i := zero_port\<lparr>po_in_use := True, po_name := name\<rparr>]"
    and len: "length name < kPortNameCapacity"
    using assms(2) by (auto simp: create_port_def split: if_splits option.splits)
  have "find_port other st' = find_port other st" if "other \<noteq> name" for other
    using find_slot_SomeD [OF slot] that len
    by (simp add: find_port_def ports find_slot_update_none names_equal_iff)
  with spec show ?thesis by blast
qed

theorem create_port_unique_name_witness:
  "find_port ''gpu'' (snd (create_port ''gpu'' kobj_example)) = Some 0"
proof -
  have names: "port_names_ok kobj_example"
    by (simp add: kobj_example_def port_names_ok_def zero_port_def less_Suc_eq)
  have "fst (create_port ''gpu'' kobj_example) = Some 0"
    by (simp add: kobj_example_def zero_port_def create_port_def find_port_def kPortNameCapacity_def)
  then have "create_port ''gpu'' kobj_example = (Some 0, snd (create_port ''gpu'' kobj_example))"
    by (metis prod.collapse)
  from create_port_unique_name [OF names this] show ?thesis by blast
qed

text \<open>C22. A semaphore counts: whatever sequence of \<^verbatim>\<open>release_semaphore\<close> and
  \<^verbatim>\<open>try_acquire_wait\<close> calls follows \<^verbatim>\<open>create_semaphore\<close>, its count is the initial count plus
  the units released minus the units acquired by the calls that succeeded, and it never
  leaves the range from zero to the maximum.\<close>

theorem semaphore_conserves:
  assumes "create_semaphore n m st = (Some i, st1)" and "sem_run i ops st1 = (rel, acq, st')"
  shows "hd_signal_count (k_hdr st' (Semaphore_at i)) = n + rel - acq \<and> 0 \<le> n + rel - acq \<and> n + rel - acq \<le> m"
  using sem_run_spec [OF _ assms(2)] create_semaphore_inv [OF assms(1)] by (auto simp: sem_inv_def)

theorem semaphore_conserves_witness:
  "hd_signal_count (k_hdr (snd (snd (sem_run 0 [Sem_acquire, Sem_release 5, Sem_acquire, Sem_release 2]
     (snd (create_semaphore 1 3 kobj_example))))) (Semaphore_at 0)) = 1 + 2 - 1"
  using semaphore_conserves [of 1 3 kobj_example 0 "snd (create_semaphore 1 3 kobj_example)"
    "[Sem_acquire, Sem_release 5, Sem_acquire, Sem_release 2]" 2 1
    "snd (snd (sem_run 0 [Sem_acquire, Sem_release 5, Sem_acquire, Sem_release 2]
       (snd (create_semaphore 1 3 kobj_example))))"]
  by (simp add: create_semaphore_def kobj_example_def zero_semaphore_def zero_header_def
    try_acquire_wait_def can_satisfy_wait_def release_semaphore_def Let_def)

end
