(* ===== verification/Kernel_Section.thy ===== *)
theory Kernel_Section
  imports Kernel_Object
begin

text \<open>
  Sections (\<^verbatim>\<open>kernel/object.cpp\<close>): shared memory objects that take their pages one by one
  from the page allocator and the array that lists them from the kernel heap, either
  anonymous, filled from a file and cached by file and range, or cloned. The heap
  and the page allocator are those of \<^verbatim>\<open>Kernel_Heap\<close> and \<^verbatim>\<open>Physical_Memory\<close>, so the
  theorems here are about the three components together. \<^verbatim>\<open>vfs::read\<close> is modelled for
  the two backends it serves, with the volume driver's \<^verbatim>\<open>read\<close> as a parameter.
\<close>

section \<open>Allocation of a section\<close>

definition kMaxSectionBytes :: u64 where "kMaxSectionBytes = 0x4000000"

text \<open>The page loop of \<^verbatim>\<open>allocate_section\<close>: each page is taken and cleared; \<open>False\<close> when the
  allocator runs out, with the pages taken so far.\<close>

fun take_pages :: "nat \<Rightarrow> u64 list \<Rightarrow> kobj_state \<Rightarrow> bool \<times> u64 list \<times> kobj_state" where
  "take_pages 0 acc st = (True, acc, st)"
| "take_pages (Suc n) acc st =
     (case allocate_page (h_pm (k_heap st)) of
        (None, pm') \<Rightarrow> (False, acc, st\<lparr>k_heap := (k_heap st)\<lparr>h_pm := pm'\<rparr>\<rparr>)
      | (Some page, pm') \<Rightarrow>
          take_pages n (acc @ [physical_address page])
            (st\<lparr>k_heap := (k_heap st)\<lparr>h_pm := pm'\<rparr>,
               k_mem := (k_mem st)(physical_address page := replicate 4096 0)\<rparr>))"

definition allocate_section :: "u64 \<Rightarrow> u64 \<Rightarrow> u32 \<Rightarrow> kobj_state \<Rightarrow> (nat option \<times> kobj_state) option" where
  "allocate_section aligned_size pages access_mask st =
     (case find_slot (\<lambda>s. \<not> se_in_use s) (k_sections st) of
        None \<Rightarrow> Some (None, st)
      | Some i \<Rightarrow>
          let clear = (\<lambda>st. set_hdr (Section_at i) zero_header
                (st\<lparr>k_sections := (k_sections st)[i := zero_section]\<rparr>));
              st0 = clear st
          in case heap_allocate (pages * 8) 8 (k_heap st0) of
               None \<Rightarrow> None
             | Some (None, h) \<Rightarrow> Some (None, st0\<lparr>k_heap := h\<rparr>)
             | Some (Some ptr, h) \<Rightarrow>
                 (case take_pages (unat pages) [] (st0\<lparr>k_heap := h\<rparr>) of
                    (ok, taken, st1) \<Rightarrow>
                      if \<not> ok
                      then Some (None, clear (free_to_heap ptr
                             (st1\<lparr>k_heap := free_page_list taken (k_heap st1)\<rparr>)))
                      else Some (Some i, set_hdr (Section_at i)
                             (zero_header\<lparr>hd_type := Ty_section, hd_destroy := Destroy_section\<rparr>)
                             (st1\<lparr>k_sections := (k_sections st1)[i := zero_section
                                \<lparr>se_in_use := True, se_access_mask := access_mask, se_size_bytes := aligned_size,
                                 se_page_count := pages, se_pages_ptr := ptr, se_pages := taken\<rparr>]\<rparr>))))"

definition create_section :: "u64 \<Rightarrow> u32 \<Rightarrow> kobj_state \<Rightarrow> (nat option \<times> kobj_state) option" where
  "create_section size_bytes access_mask st =
     (if size_bytes = 0 \<or> kMaxSectionBytes < size_bytes then Some (None, st)
      else
        let aligned_size = align_up size_bytes kPageSize in
        if aligned_size < size_bytes then Some (None, st)
        else
          let pages = aligned_size div kPageSize in
          if pages = 0 \<or> (2 ^ 64 - 1) div 8 < pages then Some (None, st)
          else allocate_section aligned_size pages access_mask st)"

section \<open>Sections of files\<close>

datatype vnode_backend = Backend_memory | Backend_volume | Backend_other

record vnode =
  vn_id :: nat
  vn_is_file :: bool
  vn_backend :: vnode_backend
  vn_data :: "u8 list option"
  vn_size :: nat

text \<open>\<open>driver_read node offset cnt\<close> is \<^verbatim>\<open>node.volume_driver->read\<close>: the bytes it puts in
  the buffer, or \<open>None\<close> when it reports an error.\<close>

type_synonym driver_read = "nat \<Rightarrow> nat \<Rightarrow> nat \<Rightarrow> u8 list option"

definition vfs_read :: "driver_read \<Rightarrow> vnode \<Rightarrow> nat \<Rightarrow> nat \<Rightarrow> u8 list" where
  "vfs_read driver node offset cnt =
     (if \<not> vn_is_file node \<or> cnt = 0 then []
      else if vn_size node \<le> offset then []
      else
        let available = vn_size node - offset;
            to_copy = (if available < cnt then available else cnt)
        in case vn_backend node of
             Backend_memory \<Rightarrow>
               (case vn_data node of None \<Rightarrow> [] | Some d \<Rightarrow> take to_copy (drop offset d))
           | Backend_volume \<Rightarrow>
               (case driver (vn_id node) offset to_copy of None \<Rightarrow> [] | Some bytes \<Rightarrow> take to_copy bytes)
           | Backend_other \<Rightarrow> [])"

definition find_file_section :: "nat option \<Rightarrow> u64 \<Rightarrow> u64 \<Rightarrow> kobj_state \<Rightarrow> nat option" where
  "find_file_section source offset len st =
     (if source = None then None
      else find_slot (\<lambda>s. se_in_use s \<and> se_file_backed s \<and> se_source_node s = source \<and>
             se_source_offset s = offset \<and> se_source_length s = len) (k_sections st))"

text \<open>The read loop: page by page until the range is filled or a read returns nothing.\<close>

function fill_section :: "(nat \<Rightarrow> nat \<Rightarrow> u8 list) \<Rightarrow> u64 list \<Rightarrow> nat \<Rightarrow> nat \<Rightarrow> nat \<Rightarrow> (u64 \<Rightarrow> u8 list) \<Rightarrow> (u64 \<Rightarrow> u8 list)" where
  "fill_section read pages offset amount filled mem =
     (if amount \<le> filled then mem
      else
        let chunk = (if 4096 < amount - filled then 4096 else amount - filled);
            page = pages ! (filled div 4096);
            got = read (offset + filled) chunk
        in if got = [] then mem
           else fill_section read pages offset amount (filled + length got)
                  (mem(page := got @ drop (length got) (mem page))))"
  by pat_completeness auto
termination
  by (relation "measure (\<lambda>(read, pages, offset, amount, filled, mem). amount - filled)")
     (auto simp: length_greater_0_conv [symmetric] simp del: length_greater_0_conv)

declare fill_section.simps [simp del]

definition acquire_file_range_section ::
  "driver_read \<Rightarrow> vnode \<Rightarrow> u64 \<Rightarrow> u64 \<Rightarrow> u32 \<Rightarrow> kobj_state \<Rightarrow> (nat option \<times> kobj_state) option" where
  "acquire_file_range_section driver node offset len access_mask st =
     (let node_size = of_nat (vn_size node) :: u64;
          size_bytes = (if len \<noteq> 0 then len else node_size) in
      if node_size < offset \<or> node_size - offset < size_bytes then Some (None, st)
      else if size_bytes = 0 \<or> kMaxSectionBytes < size_bytes then Some (None, st)
      else
        let aligned_size = align_up size_bytes kPageSize in
        if aligned_size < size_bytes then Some (None, st)
        else
          let pages = aligned_size div kPageSize in
          if pages = 0 \<or> (2 ^ 64 - 1) div 8 < pages then Some (None, st)
          else
            let source = (if vn_backend node = Backend_volume then Some (vn_id node) else None) in
            case find_file_section source offset size_bytes st of
              Some existing \<Rightarrow> Some (Some existing, st)
            | None \<Rightarrow>
                (case allocate_section aligned_size pages access_mask st of
                   None \<Rightarrow> None
                 | Some (None, st1) \<Rightarrow> Some (None, st1)
                 | Some (Some i, st1) \<Rightarrow>
                     let s = (k_sections st1 ! i)\<lparr>se_file_backed := True, se_source_node := source,
                           se_source_offset := offset, se_source_length := size_bytes\<rparr>
                     in Some (Some i, st1\<lparr>k_sections := (k_sections st1)[i := s],
                          k_mem := fill_section (vfs_read driver node) (se_pages s) (unat offset)
                            (unat size_bytes) 0 (k_mem st1)\<rparr>)))"

definition acquire_file_section ::
  "driver_read \<Rightarrow> vnode \<Rightarrow> u32 \<Rightarrow> kobj_state \<Rightarrow> (nat option \<times> kobj_state) option" where
  "acquire_file_section driver node access_mask st =
     acquire_file_range_section driver node 0 0 access_mask st"

text \<open>The copy loop of \<^verbatim>\<open>clone_section\<close>: pages paired up, the last one possibly partial.\<close>

fun copy_pages :: "u64 list \<Rightarrow> u64 list \<Rightarrow> nat \<Rightarrow> (u64 \<Rightarrow> u8 list) \<Rightarrow> (u64 \<Rightarrow> u8 list)" where
  "copy_pages (d # ds) (s # ss) remaining mem =
     (let n = (if 4096 < remaining then 4096 else remaining);
          mem' = mem(d := take n (mem s) @ drop n (mem d))
      in if remaining \<le> 4096 then mem' else copy_pages ds ss (remaining - 4096) mem')"
| "copy_pages _ _ remaining mem = mem"

definition clone_section :: "nat \<Rightarrow> kobj_state \<Rightarrow> (nat option \<times> kobj_state) option" where
  "clone_section src st =
     (let source = k_sections st ! src in
      if \<not> se_in_use source then Some (None, st)
      else case create_section (se_size_bytes source) (se_access_mask source) st of
        None \<Rightarrow> None
      | Some (None, st1) \<Rightarrow> Some (None, st1)
      | Some (Some i, st1) \<Rightarrow>
          Some (Some i, st1\<lparr>k_mem := copy_pages (se_pages (k_sections st1 ! i)) (se_pages source)
                  (unat (se_size_bytes source)) (k_mem st1)\<rparr>))"

definition section_live_counts :: "kobj_state \<Rightarrow> nat \<times> nat" where
  "section_live_counts st =
     (length (filter se_in_use (k_sections st)),
      length (filter (\<lambda>s. se_in_use s \<and> se_file_backed s) (k_sections st)))"

definition section_uses_vnode :: "nat \<Rightarrow> kobj_state \<Rightarrow> bool" where
  "section_uses_vnode node st =
     list_ex (\<lambda>s. se_in_use s \<and> se_file_backed s \<and> se_source_node s = Some node) (k_sections st)"

section \<open>How many regions a set of free pages needs\<close>

definition starts :: "u64 set \<Rightarrow> u64 set" where
  "starts S = {x \<in> S. x = 0 \<or> x - 1 \<notin> S}"

lemma sorted_wrt_pair:
  "sorted_wrt P xs \<Longrightarrow> x \<in> set xs \<Longrightarrow> y \<in> set xs \<Longrightarrow> x = y \<or> P x y \<or> P y x"
  by (induction xs) auto

lemma starts_free_set:
  assumes "regions_wf rs"
  shows "starts (free_set rs) = r_base ` set rs" and "card (starts (free_set rs)) = length rs"
proof -
  have ne: "r_base r < r_end r" if "r \<in> set rs" for r using assms that by (auto simp: regions_wf_def)
  have sep: "r = s \<or> r_end r < r_base s \<or> r_end s < r_base r" if "r \<in> set rs" "s \<in> set rs" for r s
    using assms that sorted_wrt_pair [of "\<lambda>a b. r_end a < r_base b" rs r s] by (auto simp: regions_wf_def)
  have pred: "x - 1 < x" "y < x \<Longrightarrow> y \<le> x - 1" if "x \<noteq> 0" for x y :: u64
    using that by (simp_all add: word_less_nat_alt word_le_nat_alt unat_minus_one unat_gt_0)
  have "x \<in> r_base ` set rs" if x: "x \<in> starts (free_set rs)" for x
  proof -
    from x obtain r where r: "r \<in> set rs" "r_base r \<le> x" "x < r_end r"
      by (auto simp: starts_def free_set_def region_set_def)
    have "x = r_base r"
    proof (rule ccontr)
      assume "x \<noteq> r_base r"
      then have lt: "r_base r < x" using r(2) by simp
      then have z: "x \<noteq> 0" by auto
      then have "x - 1 \<in> region_set r" using pred(2) [OF z lt] pred(1) [OF z] r(3) by (auto simp: region_set_def)
      with x r(1) z show False by (auto simp: starts_def free_set_def)
    qed
    with r(1) show ?thesis by blast
  qed
  moreover have "r_base r \<in> starts (free_set rs)" if r: "r \<in> set rs" for r
  proof -
    have "r_base r - 1 \<notin> free_set rs" if z: "r_base r \<noteq> 0"
    proof
      assume "r_base r - 1 \<in> free_set rs"
      then obtain s where s: "s \<in> set rs" "r_base s \<le> r_base r - 1" "r_base r - 1 < r_end s"
        by (auto simp: free_set_def region_set_def)
      with sep [OF r s(1)] pred(1) [OF z] pred(2) [OF z, of "r_end s"] show False
        using ne [OF r] ne [OF s(1)] by auto
    qed
    then show ?thesis using r ne [OF r] by (auto simp: starts_def free_set_def region_set_def)
  qed
  ultimately show eq: "starts (free_set rs) = r_base ` set rs" by blast
  have inj: "inj_on r_base (set rs)"
    by (rule inj_onI) (use sep ne in \<open>fastforce\<close>)
  have "distinct rs" using assms ne
    by (auto simp: regions_wf_def sorted_wrt_iff_nth_less distinct_conv_nth) (metis linorder_neqE_nat nth_mem order_less_asym)
  then show "card (starts (free_set rs)) = length rs"
    unfolding eq by (simp add: card_image [OF inj] distinct_card)
qed

lemma starts_lower_part:
  assumes "A \<subseteq> B" and "\<And>x y. x \<in> A \<Longrightarrow> y \<in> B \<Longrightarrow> y < x \<Longrightarrow> y \<in> A"
  shows "starts A \<subseteq> starts B"
proof
  fix x assume x: "x \<in> starts A"
  have "x - 1 \<notin> B" if "x \<noteq> 0"
  proof
    assume "x - 1 \<in> B"
    moreover have "x - 1 < x" using that by (simp add: word_less_nat_alt unat_minus_one unat_gt_0)
    ultimately have "x - 1 \<in> A" using assms(2) x by (auto simp: starts_def)
    with x that show False by (auto simp: starts_def)
  qed
  with x assms(1) show "x \<in> starts B" by (auto simp: starts_def)
qed

section \<open>Taking pages and giving them back\<close>

definition page_span :: "u64 \<Rightarrow> u64 set" where
  "page_span p = {p ..< p + 4096}"

lemma allocate_page_spec:
  assumes inv: "pm_inv st" and a: "allocate_page st = (Some a, st')"
  shows "pm_inv st'" and "4096 dvd unat (physical_address a)" and "unat (physical_address a) + 4096 < 2 ^ 64"
    and "page_span (physical_address a) \<subseteq> free_set (g_regions st)"
    and "free_set (g_regions st') = free_set (g_regions st) - page_span (physical_address a)"
    and "\<And>x. x \<in> free_set (g_regions st') \<Longrightarrow> physical_address a + 4096 \<le> x"
    and "st' = st\<lparr>g_regions := g_regions st'\<rparr>" and "g_ready st"
proof -
  have one: "unat (1::u64) * 4096 < 2 ^ 64" by simp
  note spec = allocate_spec [OF inv one a [unfolded allocate_page_def]]
  have ext: "alloc_extent a = page_span (physical_address a)"
    using spec(2) by (simp add: alloc_extent_def page_span_def kPageSize_def)
  show "pm_inv st'" "4096 dvd unat (physical_address a)" "unat (physical_address a) + 4096 < 2 ^ 64"
    "page_span (physical_address a) \<subseteq> free_set (g_regions st)"
    "free_set (g_regions st') = free_set (g_regions st) - page_span (physical_address a)" "g_ready st"
    using spec ext by simp_all
  show "st' = st\<lparr>g_regions := g_regions st'\<rparr>"
    by (rule allocate_SomeE [OF a [unfolded allocate_page_def]]) simp
  have wf: "regions_wf (g_regions st)" "regions_aligned (g_regions st)" using inv by (simp_all add: pm_inv_def)
  show "physical_address a + 4096 \<le> x" if x: "x \<in> free_set (g_regions st')" for x
  proof (rule allocate_SomeE [OF a [unfolded allocate_page_def]])
    fix L r R
    assume rs: "g_regions st = L @ r # R" and L: "\<forall>x\<in>set L. r_end x - r_base x < 1 * kPageSize"
      and al: "a = \<lparr>physical_address = r_base r, virtual_address = r_base r + g_hhdm_offset st, page_count = 1\<rparr>"
      and le: "1 * kPageSize \<le> r_end r - r_base r"
    have big: "4096 \<le> unat (r_end s - r_base s)" if "s \<in> set (g_regions st)" for s
    proof -
      have "r_base s < r_end s" "4096 dvd unat (r_base s)" "4096 dvd unat (r_end s)"
        using wf that by (auto simp: regions_wf_def regions_aligned_def)
      then have "4096 dvd unat (r_end s) - unat (r_base s)" "unat (r_base s) < unat (r_end s)"
        by (auto simp: word_less_nat_alt)
      then have "4096 \<le> unat (r_end s) - unat (r_base s)" by (intro dvd_imp_le) auto
      moreover have "unat (r_end s - r_base s) = unat (r_end s) - unat (r_base s)"
        using \<open>r_base s < r_end s\<close> by (intro unat_sub) simp
      ultimately show ?thesis by simp
    qed
    have "L = []"
    proof (rule ccontr)
      assume "L \<noteq> []"
      then have "hd L \<in> set L" by simp
      with L have "r_end (hd L) - r_base (hd L) < 1 * kPageSize" by blast
      moreover have "hd L \<in> set (g_regions st)" using rs \<open>hd L \<in> set L\<close> by simp
      ultimately show False using big [of "hd L"] by (simp add: word_less_nat_alt kPageSize_def)
    qed
    then have above: "r_base r \<le> y" if "y \<in> free_set (g_regions st)" for y
      using wf(1) that rs by (auto simp: free_set_def region_set_def regions_wf_def)
    have "x \<in> free_set (g_regions st)" "x \<notin> page_span (r_base r)"
      using x spec(7) ext al by auto
    with above al show "physical_address a + 4096 \<le> x" by (auto simp: page_span_def not_less)
  qed
qed

definition spans :: "u64 list \<Rightarrow> u64 set" where
  "spans ps = (\<Union>p\<in>set ps. page_span p)"

definition page_run :: "u64 list \<Rightarrow> bool" where
  "page_run ps \<longleftrightarrow> sorted_wrt (\<lambda>p q. p + 4096 \<le> q) ps \<and>
     (\<forall>p\<in>set ps. 4096 dvd unat p \<and> unat p + 4096 < 2 ^ 64)"

definition with_regions :: "region list \<Rightarrow> heap_state \<Rightarrow> heap_state" where
  "with_regions rs h = h\<lparr>h_pm := (h_pm h)\<lparr>g_regions := rs\<rparr>\<rparr>"

definition cleared :: "u64 list \<Rightarrow> (u64 \<Rightarrow> u8 list) \<Rightarrow> u64 \<Rightarrow> u8 list" where
  "cleared ps mem a = (if a \<in> set ps then replicate 4096 0 else mem a)"

lemma page_span_add: "unat p + 4096 < 2 ^ 64 \<Longrightarrow> x \<in> page_span p \<longleftrightarrow> unat p \<le> unat x \<and> unat x < unat p + 4096"
  by (auto simp: page_span_def word_le_nat_alt word_less_nat_alt unat_add_no_wrap)

lemma take_pages_spec:
  assumes "pm_inv (h_pm (k_heap st))"
  shows "\<exists>ps rs. take_pages n acc st = (length ps = n, acc @ ps,
      st\<lparr>k_heap := with_regions rs (k_heap st), k_mem := cleared ps (k_mem st)\<rparr>) \<and>
    pm_inv ((h_pm (k_heap st))\<lparr>g_regions := rs\<rparr>) \<and> page_run ps \<and> length ps \<le> n \<and>
    free_set (g_regions (h_pm (k_heap st))) = spans ps \<union> free_set rs \<and>
    (\<forall>p\<in>set ps. \<forall>x\<in>free_set rs. p + 4096 \<le> x) \<and>
    (length ps < n \<longrightarrow> g_ready (h_pm (k_heap st)) \<longrightarrow> rs = [])"
  using assms
proof (induction n arbitrary: acc st)
  case 0
  then show ?case
    by (intro exI [of _ "[]"] exI [of _ "g_regions (h_pm (k_heap st))"])
       (simp add: with_regions_def cleared_def page_run_def spans_def)
next
  case (Suc n)
  let ?pm = "h_pm (k_heap st)"
  obtain a pm' where al: "allocate_page ?pm = (a, pm')" by fastforce
  show ?case
  proof (cases a)
    case None
    then have same: "pm' = ?pm" using al allocate_None(1) by (simp add: allocate_page_def)
    have empty: "g_regions ?pm = []" if "g_ready ?pm"
    proof (rule ccontr)
      assume ne: "g_regions ?pm \<noteq> []"
      have none: "allocate_contiguous_pages 1 ?pm = (None, pm')" using al None by (simp add: allocate_page_def)
      have "r_end (hd (g_regions ?pm)) - r_base (hd (g_regions ?pm)) < 4096"
        using allocate_None(2) [OF none that] ne by (simp add: kPageSize_def)
      moreover have "hd (g_regions ?pm) \<in> set (g_regions ?pm)" using ne by simp
      moreover have "4096 \<le> unat (r_end s) - unat (r_base s)" "r_base s \<le> r_end s" if "s \<in> set (g_regions ?pm)" for s
      proof -
        have "r_base s < r_end s" "4096 dvd unat (r_base s)" "4096 dvd unat (r_end s)"
          using Suc.prems that by (auto simp: pm_inv_def regions_wf_def regions_aligned_def)
        then have "4096 dvd unat (r_end s) - unat (r_base s)" "unat (r_base s) < unat (r_end s)"
          by (auto simp: word_less_nat_alt)
        then show "4096 \<le> unat (r_end s) - unat (r_base s)" by (intro dvd_imp_le) auto
        show "r_base s \<le> r_end s" using \<open>r_base s < r_end s\<close> by simp
      qed
      ultimately show False by (simp add: word_less_nat_alt unat_sub leD)
    qed
    show ?thesis using None al same empty Suc.prems
      by (intro exI [of _ "[]"] exI [of _ "g_regions ?pm"])
         (simp add: with_regions_def cleared_def page_run_def spans_def)
  next
    case (Some page)
    let ?p = "physical_address page"
    note sp = allocate_page_spec [OF Suc.prems al [unfolded Some]]
    define st1 where "st1 = st\<lparr>k_heap := with_regions (g_regions pm') (k_heap st),
      k_mem := (k_mem st)(?p := replicate 4096 0)\<rparr>"
    have pm': "pm' = ?pm\<lparr>g_regions := g_regions pm'\<rparr>" by (rule sp(7))
    have step: "take_pages (Suc n) acc st = take_pages n (acc @ [?p]) st1"
      using al Some pm' by (simp add: st1_def with_regions_def)
    have "h_pm (k_heap st1) = pm'" using pm' by (simp add: st1_def with_regions_def)
    with Suc.IH [of st1 "acc @ [?p]"] sp(1) obtain ps rs where
      r: "take_pages n (acc @ [?p]) st1 = (length ps = n, (acc @ [?p]) @ ps,
        st1\<lparr>k_heap := with_regions rs (k_heap st1), k_mem := cleared ps (k_mem st1)\<rparr>)"
      "pm_inv (pm'\<lparr>g_regions := rs\<rparr>)" "page_run ps" "length ps \<le> n"
      "free_set (g_regions pm') = spans ps \<union> free_set rs" "\<forall>p\<in>set ps. \<forall>x\<in>free_set rs. p + 4096 \<le> x"
      "length ps < n \<longrightarrow> g_ready pm' \<longrightarrow> rs = []" by auto
    have own: "q \<in> free_set (g_regions pm')" if "q \<in> set ps" for q
    proof -
      have "q \<in> page_span q" using r(3) that by (auto simp: page_run_def page_span_add)
      then show ?thesis using r(5) that by (auto simp: spans_def)
    qed
    have mem: "cleared ps ((k_mem st)(?p := replicate 4096 0)) = cleared (?p # ps) (k_mem st)"
      by (auto simp: cleared_def)
    have "take_pages (Suc n) acc st = (length (?p # ps) = Suc n, acc @ ?p # ps,
        st\<lparr>k_heap := with_regions rs (k_heap st), k_mem := cleared (?p # ps) (k_mem st)\<rparr>)"
      unfolding step r(1) by (simp add: st1_def with_regions_def mem)
    moreover have "pm_inv (?pm\<lparr>g_regions := rs\<rparr>)"
      using r(2) by (subst (asm) pm') simp
    moreover have "page_run (?p # ps)" using r(3) sp(2,3,6) own by (auto simp: page_run_def)
    moreover have "free_set (g_regions ?pm) = spans (?p # ps) \<union> free_set rs"
      using sp(4,5) r(5) by (auto simp: spans_def)
    moreover have "\<forall>p\<in>set (?p # ps). \<forall>x\<in>free_set rs. p + 4096 \<le> x"
      using sp(6) r(5,6) by auto
    moreover have "length (?p # ps) < Suc n \<longrightarrow> g_ready ?pm \<longrightarrow> rs = []"
      using r(7) by (subst (asm) pm') simp
    ultimately show ?thesis using r(4) by (intro exI [of _ "?p # ps"] exI [of _ rs]) simp
  qed
qed

lemma spans_append [simp]: "spans (ps @ qs) = spans ps \<union> spans qs"
  by (auto simp: spans_def)

lemma spans_lower:
  assumes "page_run (ps @ qs)" and "x \<in> spans ps" and "y \<in> spans (ps @ qs)" and "y < x"
  shows "y \<in> spans ps"
proof (rule ccontr)
  assume "y \<notin> spans ps"
  then obtain q where q: "q \<in> set qs" "y \<in> page_span q" using assms(3) by (auto simp: spans_def)
  obtain p where p: "p \<in> set ps" "x \<in> page_span p" using assms(2) by (auto simp: spans_def)
  have "p + 4096 \<le> q" using assms(1) p(1) q(1) by (auto simp: page_run_def sorted_wrt_append)
  with p(2) q(2) assms(4) show False by (auto simp: page_span_def)
qed

text \<open>Giving the pages back in the order they were taken never needs more regions than there
  were, so the table cannot fill up half way.\<close>

lemma free_page_list_restores:
  assumes run: "page_run (ds @ ps)" and nz: "0 \<notin> set ps"
    and ready: "g_ready (h_pm h)" and inv: "pm_inv (h_pm h)" and cur: "free_set (g_regions (h_pm h)) = spans ds"
    and orig: "regions_wf rs0" "free_set rs0 = spans (ds @ ps)" "length rs0 < kMaxFreeRegions"
  shows "free_page_list ps h = with_regions rs0 h"
  using assms
proof (induction ps arbitrary: ds h)
  case Nil
  have "g_regions (h_pm h) = rs0"
    using Nil.prems by (intro regions_wf_canonical) (auto simp: pm_inv_def)
  then show ?case by (simp add: with_regions_def)
next
  case (Cons p ps)
  have wf: "regions_wf (g_regions (h_pm h))" using Cons.prems(4) by (simp add: pm_inv_def)
  have "starts (spans ds) \<subseteq> starts (spans (ds @ p # ps))"
    using spans_lower [OF Cons.prems(1)] by (intro starts_lower_part) auto
  moreover have "finite (starts (spans (ds @ p # ps)))" by simp
  ultimately have "card (starts (spans ds)) \<le> card (starts (spans (ds @ p # ps)))" by (intro card_mono)
  then have room: "length (g_regions (h_pm h)) < kMaxFreeRegions"
    using starts_free_set(2) [OF wf] starts_free_set(2) [OF Cons.prems(6)] Cons.prems(5,7,8) by simp
  have p: "4096 dvd unat p" "unat p + unat (1::u64) * 4096 < 2 ^ 64" "p \<noteq> 0"
    using Cons.prems(1,2) by (auto simp: page_run_def)
  from free_pages_spec [OF Cons.prems(4,3) _ p(1,2) room] obtain pm' where
    f: "free_pages p 1 (h_pm h) = (True, pm')" "pm_inv pm'" "g_ready pm'"
      "free_set (g_regions pm') = spans ds \<union> page_span p"
    using Cons.prems(5) by (auto simp: page_span_def kPageSize_def)
  have pm': "pm' = (h_pm h)\<lparr>g_regions := g_regions pm'\<rparr>"
    using f(1) by (auto simp: free_pages_def Let_def split: if_splits prod.splits)
  have "free_page_list ps (h\<lparr>h_pm := pm'\<rparr>) = with_regions rs0 (h\<lparr>h_pm := pm'\<rparr>)"
    using Cons.prems f by (intro Cons.IH [of "ds @ [p]"]) (auto simp: spans_def)
  moreover have "with_regions rs0 (h\<lparr>h_pm := pm'\<rparr>) = with_regions rs0 h"
    by (subst pm') (simp add: with_regions_def)
  ultimately show ?case using p(3) f(1) by simp
qed

definition pm_shrinks :: "pm_state \<Rightarrow> pm_state \<Rightarrow> bool" where
  "pm_shrinks pm pm' \<longleftrightarrow> pm_inv pm' \<and> free_set (g_regions pm') \<subseteq> free_set (g_regions pm) \<and>
     length (g_regions pm') \<le> length (g_regions pm) \<and> g_ready pm' = g_ready pm"

lemma unat_mult_le_pow: "unat (p :: u64) \<le> 2 ^ 40 \<Longrightarrow> unat (p * 8) \<le> 2 ^ 43"
  using unat_mult_lem [of p 8] by simp

lemma arena_page_count_bound: "unat (arena_page_count n al) * 4096 < 2 ^ 64"
proof -
  have "unat (x div kPageSize) * 4096 < 2 ^ 64" for x :: u64
  proof -
    have "unat (x div kPageSize) * 4096 \<le> unat x" by (simp add: kPageSize_def unat_div)
    then show ?thesis using unsigned_less [of x, where ?'a = nat] by simp
  qed
  then show ?thesis by (simp add: arena_page_count_def Let_def)
qed

lemma acquire_arena_shrinks:
  assumes "pm_inv (h_pm st)" and "acquire_arena n al st = (ok, st')"
  shows "pm_shrinks (h_pm st) (h_pm st')"
proof -
  obtain a pm' where al: "allocate_contiguous_pages (arena_page_count n al) (h_pm st) = (a, pm')" by fastforce
  have "pm_shrinks (h_pm st) pm'"
  proof (cases a)
    case None
    then show ?thesis using allocate_None(1) al assms(1) by (auto simp: pm_shrinks_def)
  next
    case (Some x)
    note sp = allocate_spec [OF assms(1) arena_page_count_bound al [unfolded Some]]
    show ?thesis using sp(1,7,8,10) by (auto simp: pm_shrinks_def)
  qed
  moreover have "h_pm st' = pm'" using assms(2) al by (auto simp: acquire_arena_def Let_def split: option.splits)
  ultimately show ?thesis by simp
qed

lemma allocate_loop_shrinks:
  "allocate_loop n al st = Some y \<Longrightarrow> pm_inv (h_pm st) \<longrightarrow> pm_shrinks (h_pm st) (h_pm (snd y))"
proof (erule allocate_loop.raw_induct [of "\<lambda>n al st y. pm_inv (h_pm st) \<longrightarrow> pm_shrinks (h_pm st) (h_pm (snd y))", rotated])
  fix loop n al st y
  assume IH: "\<And>n al st y. loop n al st = Some y \<Longrightarrow> pm_inv (h_pm st) \<longrightarrow> pm_shrinks (h_pm st) (h_pm (snd y))"
    and body: "(case find_allocated_block n al (h_arenas st) of
        None \<Rightarrow> None
      | Some None \<Rightarrow>
          (case acquire_arena n al st of
             (ok, st') \<Rightarrow> if ok then loop n al st' else Some (None, st'))
      | Some (Some (ai, bi, layout)) \<Rightarrow> Some (apfst Some (take_block n ai bi layout st))) = Some y"
  show "pm_inv (h_pm st) \<longrightarrow> pm_shrinks (h_pm st) (h_pm (snd y))"
  proof
    assume inv: "pm_inv (h_pm st)"
    obtain ok st1 where acq: "acquire_arena n al st = (ok, st1)" by fastforce
    have s1: "pm_shrinks (h_pm st) (h_pm st1)" by (rule acquire_arena_shrinks [OF inv acq])
    consider (found) ai bi l where "y = apfst Some (take_block n ai bi l st)"
      | (again) "loop n al st1 = Some y" | (none) "y = (None, st1)"
    proof (cases "find_allocated_block n al (h_arenas st)")
      case None
      then show ?thesis using body by simp
    next
      case (Some f)
      then show ?thesis using body acq that by (cases f; cases ok) (auto simp: split_beta)
    qed
    then show "pm_shrinks (h_pm st) (h_pm (snd y))"
    proof cases
      case found
      then show ?thesis using inv by (simp add: take_block_def Let_def split_beta pm_shrinks_def)
    next
      case again
      have "pm_inv (h_pm st1)" using s1 by (simp add: pm_shrinks_def)
      with IH [OF again] s1 show ?thesis by (auto simp: pm_shrinks_def)
    next
      case none
      then show ?thesis using s1 by simp
    qed
  qed
qed

lemma heap_allocate_shrinks:
  assumes "pm_inv (h_pm st)" and "heap_allocate n al st = Some (r, st')"
  shows "pm_shrinks (h_pm st) (h_pm st')"
  using assms allocate_loop_shrinks [of "align_up n kMinimumAlignment" "normalize_alignment al" st "(r, st')"]
  by (auto simp: heap_allocate_def pm_shrinks_def split: if_splits)

lemma heap_inv_with_regions:
  assumes "heap_inv h" and "pm_inv ((h_pm h)\<lparr>g_regions := rs\<rparr>)" and "free_set rs \<subseteq> free_set (g_regions (h_pm h))"
  shows "heap_inv (with_regions rs h)" and "live_blocks (with_regions rs h) = live_blocks h"
proof -
  show live: "live_blocks (with_regions rs h) = live_blocks h" by (simp add: live_blocks_def with_regions_def)
  have "pm.holds ((h_pm h)\<lparr>g_regions := rs\<rparr>) (map a_allocation (h_arenas h))"
    using assms by (auto simp: heap_inv_def heap_shape_def pm.holds_def)
  moreover have "direct_map_ok ((h_pm h)\<lparr>g_regions := rs\<rparr>)"
    using assms(1,3) by (auto simp: heap_inv_def heap_shape_def direct_map_ok_def)
  ultimately show "heap_inv (with_regions rs h)"
    using assms(1) live by (simp add: heap_inv_def heap_shape_def with_regions_def)
qed

section \<open>What allocating a section does\<close>

definition section_made :: "nat \<Rightarrow> u64 \<Rightarrow> kobj_state \<Rightarrow> kobj_state \<Rightarrow> bool" where
  "section_made i pages st st' \<longleftrightarrow>
     (let s = k_sections st' ! i in
      \<not> se_in_use (k_sections st ! i) \<and> i < length (k_sections st) \<and>
      (\<exists>e. k_sections st' = (k_sections st)[i := e]) \<and> se_in_use s \<and> se_page_count s = pages \<and>
      length (se_pages s) = unat pages \<and> page_run (se_pages s) \<and>
      spans (se_pages s) \<subseteq> free_set (g_regions (h_pm (k_heap st))) \<and>
      spans (se_pages s) \<inter> free_set (g_regions (h_pm (k_heap st'))) = {} \<and>
      free_set (g_regions (h_pm (k_heap st'))) \<subseteq> free_set (g_regions (h_pm (k_heap st))) \<and>
      (\<exists>x. mset (live_blocks (k_heap st')) = add_mset x (mset (live_blocks (k_heap st))) \<and>
         unat (se_pages_ptr s) = unat (b_addr x) + 48 \<and> pages * 8 \<le> b_size x))"

lemma page_run_above:
  assumes "page_run ps" and "\<forall>p\<in>set ps. \<forall>x\<in>S. p + 4096 \<le> x"
  shows "spans ps \<inter> S = {}"
  using assms by (force simp: spans_def page_span_def)

lemma allocate_section_success:
  assumes inv: "heap_inv (k_heap st)" and n: "unat pages \<le> 2 ^ 40"
    and a: "allocate_section aligned pages access st = Some (Some i, st')"
  shows "heap_inv (k_heap st')" and "section_made i pages st st'"
    and "k_mem st' = cleared (se_pages (k_sections st' ! i)) (k_mem st)"
    and "se_size_bytes (k_sections st' ! i) = aligned" and "se_access_mask (k_sections st' ! i) = access"
    and "k_panic st' = k_panic st"
proof -
  from a obtain ptr h ok ps st1 where slot: "find_slot (\<lambda>s. \<not> se_in_use s) (k_sections st) = Some i"
    and h: "heap_allocate (pages * 8) 8 (k_heap st) = Some (Some ptr, h)"
    and t: "take_pages (unat pages) [] (set_hdr (Section_at i) zero_header
        (st\<lparr>k_sections := (k_sections st)[i := zero_section]\<rparr>)\<lparr>k_heap := h\<rparr>) = (ok, ps, st1)" "ok"
    and st': "st' = set_hdr (Section_at i) (zero_header\<lparr>hd_type := Ty_section, hd_destroy := Destroy_section\<rparr>)
       (st1\<lparr>k_sections := (k_sections st1)[i := zero_section
          \<lparr>se_in_use := True, se_access_mask := access, se_size_bytes := aligned,
           se_page_count := pages, se_pages_ptr := ptr, se_pages := ps\<rparr>]\<rparr>)"
    unfolding allocate_section_def Let_def
    by (auto split: option.splits prod.splits if_splits)
  let ?st0 = "set_hdr (Section_at i) zero_header (st\<lparr>k_sections := (k_sections st)[i := zero_section]\<rparr>)\<lparr>k_heap := h\<rparr>"
  have i: "i < length (k_sections st)" "\<not> se_in_use (k_sections st ! i)" using find_slot_SomeD [OF slot] by auto
  have pm: "pm_inv (h_pm (k_heap st))" using inv by (simp add: heap_inv_def heap_shape_def pm.holds_def)
  note shr = heap_allocate_shrinks [OF pm h]
  have b: "unat (pages * 8) \<le> 2 ^ 43" by (rule unat_mult_le_pow [OF n])
  from heap_allocate_spec [OF inv b, of 8] h obtain x where hi: "heap_inv h"
    and x: "mset (live_blocks h) = add_mset x (mset (live_blocks (k_heap st)))"
      "unat ptr = unat (b_addr x) + 48" "pages * 8 \<le> b_size x" by auto
  have "pm_inv (h_pm (k_heap ?st0))" using shr by (simp add: pm_shrinks_def)
  from take_pages_spec [OF this, of "unat pages" "[]"] t obtain qs rs where
    q: "st1 = ?st0\<lparr>k_heap := with_regions rs h, k_mem := cleared ps (k_mem st)\<rparr>" "length ps = unat pages"
      "pm_inv ((h_pm h)\<lparr>g_regions := rs\<rparr>)" "page_run ps" "free_set (g_regions (h_pm h)) = spans ps \<union> free_set rs"
      "\<forall>p\<in>set ps. \<forall>x\<in>free_set rs. p + 4096 \<le> x" by auto
  have e: "k_sections st' = (k_sections st)[i := zero_section
          \<lparr>se_in_use := True, se_access_mask := access, se_size_bytes := aligned,
           se_page_count := pages, se_pages_ptr := ptr, se_pages := ps\<rparr>]"
    "k_heap st' = with_regions rs h" "k_mem st' = cleared ps (k_mem st)" "k_panic st' = k_panic st"
    using st' q(1) by simp_all
  have sub: "free_set rs \<subseteq> free_set (g_regions (h_pm h))" using q(5) by auto
  note keep = heap_inv_with_regions [OF hi q(3) sub]
  show "heap_inv (k_heap st')" using keep(1) e(2) by simp
  show "k_mem st' = cleared (se_pages (k_sections st' ! i)) (k_mem st)"
    "se_size_bytes (k_sections st' ! i) = aligned" "se_access_mask (k_sections st' ! i) = access"
    "k_panic st' = k_panic st" using e i by simp_all
  have regs: "g_regions (h_pm (with_regions rs h)) = rs" by (simp add: with_regions_def)
  have "free_set (g_regions (h_pm h)) \<subseteq> free_set (g_regions (h_pm (k_heap st)))" using shr by (simp add: pm_shrinks_def)
  then show "section_made i pages st st'"
    using i q(2,4,5) page_run_above [OF q(4,6)] x keep(2) sub
    by (auto simp: section_made_def Let_def e regs)
qed

lemma allocate_section_failure:
  assumes inv: "heap_inv (k_heap st)" and ready: "g_ready (h_pm (k_heap st))"
    and room: "length (g_regions (h_pm (k_heap st))) < kMaxFreeRegions" and nz: "0 \<notin> free_set (g_regions (h_pm (k_heap st)))"
    and n: "unat pages \<le> 2 ^ 40"
    and a: "allocate_section aligned pages access st = Some (None, st')"
  shows "k_heap st' = k_heap st \<or> heap_allocate (pages * 8) 8 (k_heap st) = Some (None, k_heap st') \<or>
    (\<exists>ptr h. heap_allocate (pages * 8) 8 (k_heap st) = Some (Some ptr, h) \<and> heap_free ptr h = Freed (k_heap st'))"
    and "heap_inv (k_heap st')" and "mset (live_blocks (k_heap st')) = mset (live_blocks (k_heap st))"
    and "k_panic st' = k_panic st"
proof -
  have pm: "pm_inv (h_pm (k_heap st))" using inv by (simp add: heap_inv_def heap_shape_def pm.holds_def)
  have b: "unat (pages * 8) \<le> 2 ^ 43" by (rule unat_mult_le_pow [OF n])
  from heap_allocate_spec [OF inv b, of 8] obtain r h where h: "heap_allocate (pages * 8) 8 (k_heap st) = Some (r, h)"
    and hi: "heap_inv h" and hr: "case r of None \<Rightarrow> live_blocks h = live_blocks (k_heap st)
     | Some p \<Rightarrow> (\<exists>x. mset (live_blocks h) = add_mset x (mset (live_blocks (k_heap st))) \<and> unat p = unat (b_addr x) + 48)"
    by (auto split: option.splits)
  note shr = heap_allocate_shrinks [OF pm h]
  consider (none) "st' = st" | (refused) "r = None" "k_heap st' = h" "k_panic st' = k_panic st"
    | (rolled) i ptr ps st1 where "r = Some ptr"
      "take_pages (unat pages) [] (set_hdr (Section_at i) zero_header
        (st\<lparr>k_sections := (k_sections st)[i := zero_section]\<rparr>)\<lparr>k_heap := h\<rparr>) = (False, ps, st1)"
      "k_heap st' = k_heap (free_to_heap ptr (st1\<lparr>k_heap := free_page_list ps (k_heap st1)\<rparr>))"
      "k_panic st' = k_panic (free_to_heap ptr (st1\<lparr>k_heap := free_page_list ps (k_heap st1)\<rparr>))"
    using a h unfolding allocate_section_def Let_def
    by (auto split: option.splits prod.splits if_splits)
  then have "(k_heap st' = k_heap st \<or> heap_allocate (pages * 8) 8 (k_heap st) = Some (None, k_heap st') \<or>
    (\<exists>ptr h. heap_allocate (pages * 8) 8 (k_heap st) = Some (Some ptr, h) \<and> heap_free ptr h = Freed (k_heap st'))) \<and>
    heap_inv (k_heap st') \<and> mset (live_blocks (k_heap st')) = mset (live_blocks (k_heap st)) \<and> k_panic st' = k_panic st"
  proof cases
    case none
    then show ?thesis using inv by simp
  next
    case refused
    then show ?thesis using h hi hr by simp
  next
    case rolled
    let ?st0 = "set_hdr (Section_at i) zero_header (st\<lparr>k_sections := (k_sections st)[i := zero_section]\<rparr>)\<lparr>k_heap := h\<rparr>"
    from rolled(1) hr obtain x where x: "mset (live_blocks h) = add_mset x (mset (live_blocks (k_heap st)))"
      "unat ptr = unat (b_addr x) + 48" by auto
    have pmh: "pm_inv (h_pm h)" "g_ready (h_pm h)" "length (g_regions (h_pm h)) < kMaxFreeRegions"
      "0 \<notin> free_set (g_regions (h_pm h))" using shr ready room nz by (auto simp: pm_shrinks_def)
    have "pm_inv (h_pm (k_heap ?st0))" using pmh by simp
    from take_pages_spec [OF this, of "unat pages" "[]"] rolled(2) pmh(2) have
      q: "st1 = ?st0\<lparr>k_heap := with_regions [] h, k_mem := cleared ps (k_mem st)\<rparr>"
        "pm_inv ((h_pm h)\<lparr>g_regions := []\<rparr>)" "page_run ps" "free_set (g_regions (h_pm h)) = spans ps"
      by (auto simp: free_set_def)
    have "0 \<notin> set ps"
    proof
      assume "0 \<in> set ps"
      then have "0 \<in> spans ps" by (auto simp: spans_def page_span_def)
      with pmh(4) q(4) show False by simp
    qed
    moreover have "regions_wf (g_regions (h_pm h))" using pmh(1) by (simp add: pm_inv_def)
    ultimately have "free_page_list ps (with_regions [] h) = with_regions (g_regions (h_pm h)) (with_regions [] h)"
      using q pmh by (intro free_page_list_restores [of "[]"]) (simp_all add: with_regions_def spans_def free_set_def)
    then have undone: "free_page_list ps (with_regions [] h) = h" by (simp add: with_regions_def)
    have ptr: "ptr = b_addr x + sizeof_BlockHeader"
    proof -
      have "unat (b_addr x) + 48 < 2 ^ 64" using x(2) unsigned_less [of ptr, where ?'a = nat] by simp
      then have "unat (b_addr x + sizeof_BlockHeader) = unat ptr"
        using x(2) by (simp add: unat_add_no_wrap sizeof_BlockHeader_def)
      then show ?thesis by (simp add: word_unat_eq_iff)
    qed
    have "x \<in> set (live_blocks h)" using x(1) by (metis union_single_eq_member set_mset_mset)
    from heap_free_spec [OF hi this] ptr obtain h' where f: "heap_free ptr h = Freed h'" "heap_inv h'"
      "mset (live_blocks h) = add_mset x (mset (live_blocks h'))" by auto
    then have "k_heap st' = h'" "k_panic st' = k_panic st"
      using rolled(3,4) q(1) undone by (simp_all add: free_to_heap_def)
    then show ?thesis using f h rolled(1) x(1) by simp
  qed
  then show "k_heap st' = k_heap st \<or> heap_allocate (pages * 8) 8 (k_heap st) = Some (None, k_heap st') \<or>
    (\<exists>ptr h. heap_allocate (pages * 8) 8 (k_heap st) = Some (Some ptr, h) \<and> heap_free ptr h = Freed (k_heap st'))"
    "heap_inv (k_heap st')" "mset (live_blocks (k_heap st')) = mset (live_blocks (k_heap st))" "k_panic st' = k_panic st"
    by blast+
qed

section \<open>The contents of file sections and clones\<close>

text \<open>Page \<open>j\<close> of a section that holds the bytes \<open>s\<close>, zero from the end of \<open>s\<close> on.\<close>

definition padded_page :: "u8 list \<Rightarrow> nat \<Rightarrow> u8 list" where
  "padded_page s j = (let c = take 4096 (drop (4096 * j) s) in c @ replicate (4096 - length c) 0)"

lemma padded_page_past: "length s \<le> 4096 * j \<Longrightarrow> padded_page s j = replicate 4096 0"
  by (simp add: padded_page_def)

lemma fill_section_spec:
  assumes full: "\<And>n c. 0 < c \<Longrightarrow> n + c \<le> length d \<Longrightarrow> read n c = take c (drop n d)"
    and fit: "offset + amount \<le> length d" and pages: "distinct pages" "amount \<le> 4096 * length pages"
  shows "(\<And>j. k \<le> j \<Longrightarrow> j < length pages \<Longrightarrow> mem (pages ! j) = replicate 4096 0) \<Longrightarrow>
    j < length pages \<Longrightarrow>
    fill_section read pages offset amount (4096 * k) mem (pages ! j) =
      (if k \<le> j then padded_page (take amount (drop offset d)) j else mem (pages ! j))"
proof (induction "amount - 4096 * k" arbitrary: k mem rule: less_induct)
  case less
  let ?s = "take amount (drop offset d)"
  have len: "length ?s = amount" using fit by simp
  show ?case
  proof (cases "amount \<le> 4096 * k")
    case True
    then have "fill_section read pages offset amount (4096 * k) mem = mem"
      by (subst fill_section.simps) simp
    moreover have "padded_page ?s j = replicate 4096 0" if "k \<le> j"
      using that True len by (intro padded_page_past) simp
    ultimately show ?thesis using less.prems by simp
  next
    case False
    define c where "c = (if 4096 < amount - 4096 * k then 4096 else amount - 4096 * k)"
    have c: "0 < c" "c \<le> 4096" "4096 * k + c \<le> amount" using False by (auto simp: c_def)
    have k: "k < length pages" using False pages(2) by linarith
    have got: "read (offset + 4096 * k) c = take c (drop (4096 * k) ?s)"
      using full [OF c(1), of "offset + 4096 * k"] c(3) fit by (simp add: drop_take min_def add.commute)
    have glen: "length (take c (drop (4096 * k) ?s)) = c" using c(3) len by simp
    have page: "take c (drop (4096 * k) ?s) = take 4096 (drop (4096 * k) ?s)"
      using len c by (auto simp: c_def)
    let ?mem1 = "mem(pages ! k := take c (drop (4096 * k) ?s) @ drop c (mem (pages ! k)))"
    have at_k: "?mem1 (pages ! k) = padded_page ?s k"
      using less.prems(1) [of k] k glen page by (simp add: padded_page_def Let_def)
    have step: "fill_section read pages offset amount (4096 * k) mem =
        fill_section read pages offset amount (4096 * k + c) ?mem1"
    proof (subst fill_section.simps)
      have "take c (drop (4096 * k) ?s) \<noteq> []" using glen c(1) by (metis length_0_conv less_irrefl)
      then show "(if amount \<le> 4096 * k then mem
        else let chunk = (if 4096 < amount - 4096 * k then 4096 else amount - 4096 * k);
            page = pages ! (4096 * k div 4096);
            got = read (offset + 4096 * k) chunk
        in if got = [] then mem
           else fill_section read pages offset amount (4096 * k + length got)
                  (mem(page := got @ drop (length got) (mem page)))) =
        fill_section read pages offset amount (4096 * k + c) ?mem1"
        using False by (simp only: Let_def c_def [symmetric] got glen) simp
    qed
    have other: "?mem1 (pages ! i) = mem (pages ! i)" if "i < length pages" "i \<noteq> k" for i
      using that k pages(1) by (simp add: nth_eq_iff_index_eq)
    show ?thesis
    proof (cases "c = 4096")
      case True
      have lt: "amount - 4096 * Suc k < amount - 4096 * k" using False by simp
      have z: "?mem1 (pages ! i) = replicate 4096 0" if "Suc k \<le> i" "i < length pages" for i
        using other [of i] less.prems(1) [of i] that by simp
      have eq: "4096 * k + c = 4096 * Suc k" using True by simp
      have "fill_section read pages offset amount (4096 * Suc k) ?mem1 (pages ! j) =
          (if Suc k \<le> j then padded_page ?s j else ?mem1 (pages ! j))"
        by (rule less.hyps [where mem = ?mem1, OF lt]) (use z less.prems(2) in blast)+
      then show ?thesis unfolding step eq
        using at_k other [OF less.prems(2)] by (cases "j = k") (auto simp: not_le)
    next
      case False
      then have "amount \<le> 4096 * k + c" by (auto simp: c_def)
      then have e: "fill_section read pages offset amount (4096 * k + c) ?mem1 = ?mem1"
        by (subst fill_section.simps) simp
      have "padded_page ?s j = replicate 4096 0" if "k < j"
      proof (rule padded_page_past)
        have "4096 * k + c \<le> 4096 * j" using that c(2) by linarith
        then show "length ?s \<le> 4096 * j" using len \<open>amount \<le> 4096 * k + c\<close> by linarith
      qed
      then show ?thesis unfolding step e
        using at_k other [OF less.prems(2)] less.prems(1) [of j] less.prems(2)
        by (cases "j = k") (auto simp: le_less)
    qed
  qed
qed

lemma copy_pages_spec:
  assumes "length ds = length ss" and "distinct ds" and "set ds \<inter> set ss = {}" and "r = 4096 * length ds"
    and "\<forall>p\<in>set ds \<union> set ss. length (mem p) = 4096"
  shows "map (copy_pages ds ss r mem) ds = map mem ss \<and>
    (\<forall>a. a \<notin> set ds \<longrightarrow> copy_pages ds ss r mem a = mem a)"
  using assms
proof (induction ds ss r mem rule: copy_pages.induct)
  case (1 d ds s ss r mem)
  define mem1 where "mem1 = mem(d := mem s)"
  have n: "take (if 4096 < r then 4096 else r) (mem s) @ drop (if 4096 < r then 4096 else r) (mem d) = mem s"
    using 1(5,6) by auto
  have "copy_pages (d # ds) (s # ss) r mem = (if r \<le> 4096 then mem1 else copy_pages ds ss (r - 4096) mem1)"
    by (simp only: copy_pages.simps Let_def n mem1_def)
  also have "\<dots> = copy_pages ds ss (r - 4096) mem1" using 1(2,5) by (cases ds) auto
  finally have eq: "copy_pages (d # ds) (s # ss) r mem = copy_pages ds ss (r - 4096) mem1" .
  have ih: "map (copy_pages ds ss (r - 4096) mem1) ds = map mem1 ss \<and>
    (\<forall>a. a \<notin> set ds \<longrightarrow> copy_pages ds ss (r - 4096) mem1 a = mem1 a)"
  proof (cases "r \<le> 4096")
    case True
    then have "ds = []" "ss = []" using 1(2,5) by auto
    then show ?thesis by simp
  next
    case False
    have "mem1 = mem(d := take (if 4096 < r then 4096 else r) (mem s) @ drop (if 4096 < r then 4096 else r) (mem d))"
      unfolding n mem1_def ..
    moreover have "\<forall>p\<in>set ds \<union> set ss. length (mem1 p) = 4096" using 1(6) by (simp add: mem1_def)
    ultimately show ?thesis using 1(2-5) False by (intro 1(1) [OF refl]) auto
  qed
  moreover have "map mem1 ss = map mem ss" using 1(4) by (auto simp: mem1_def)
  moreover have "d \<notin> set ds" using 1(3) by simp
  ultimately show ?case unfolding eq by (auto simp: mem1_def)
qed auto

section \<open>Correctness of sections\<close>

lemma section_pages_bounds:
  assumes "sz \<noteq> 0" and "sz \<le> kMaxSectionBytes"
  shows "\<not> align_up sz kPageSize < sz" and "unat (align_up sz kPageSize div kPageSize) * 4096 = unat (align_up sz kPageSize)"
    and "unat sz \<le> unat (align_up sz kPageSize)" and "unat (align_up sz kPageSize) < unat sz + 4096"
    and "unat (align_up sz kPageSize div kPageSize) \<le> 2 ^ 40" and "align_up sz kPageSize div kPageSize \<noteq> 0"
    and "\<not> (2 ^ 64 - 1) div 8 < align_up sz kPageSize div kPageSize"
proof -
  have k: "kPageSize = 2 ^ 12" by (simp add: kPageSize_def)
  have s: "0 < unat sz" "unat sz \<le> 0x4000000"
    using assms by (simp_all add: unat_gt_0 word_le_nat_alt kMaxSectionBytes_def)
  then have "unat sz + (2 ^ 12 - 1) < 2 ^ 64" by simp
  then have u: "unat (align_up sz kPageSize) = unat sz + 4095 - (unat sz + 4095) mod 4096"
    using unat_align_up [of 12 sz] by (simp add: k)
  have d: "4096 dvd unat sz + 4095 - (unat sz + 4095) mod 4096" by (rule dvd_minus_mod)
  have m: "(unat sz + 4095) mod 4096 < 4096" by simp
  have b: "unat sz \<le> unat (align_up sz kPageSize)" "unat (align_up sz kPageSize) < unat sz + 4096"
    using m unfolding u by linarith+
  have q: "unat (align_up sz kPageSize div kPageSize) = unat (align_up sz kPageSize) div 4096"
    by (simp add: unat_div kPageSize_def)
  show "\<not> align_up sz kPageSize < sz" using b by (simp add: word_less_nat_alt)
  show qe: "unat (align_up sz kPageSize div kPageSize) * 4096 = unat (align_up sz kPageSize)"
    unfolding q using d unfolding u [symmetric] by simp
  show "unat sz \<le> unat (align_up sz kPageSize)" "unat (align_up sz kPageSize) < unat sz + 4096" by (rule b)+
  have le: "unat (align_up sz kPageSize div kPageSize) \<le> 0x4001"
    using qe b s by linarith
  then show "unat (align_up sz kPageSize div kPageSize) \<le> 2 ^ 40" by simp
  show "align_up sz kPageSize div kPageSize \<noteq> 0"
  proof
    assume "align_up sz kPageSize div kPageSize = 0"
    then show False using qe b(1) s(1) by simp
  qed
  have "unat ((2 ^ 64 - 1 :: u64) div 8) = 2305843009213693951" by (simp add: unat_div)
  then show "\<not> (2 ^ 64 - 1) div 8 < align_up sz kPageSize div kPageSize"
    using le by (simp add: word_less_nat_alt)
qed

lemma allocate_section_total:
  assumes "heap_inv (k_heap st)" and "unat pages \<le> 2 ^ 40"
  shows "\<exists>r st'. allocate_section aligned pages access st = Some (r, st')"
proof -
  from heap_allocate_spec [OF assms(1) unat_mult_le_pow [OF assms(2)], of 8] obtain r h where
    "heap_allocate (pages * 8) 8 (k_heap st) = Some (r, h)" by auto
  then show ?thesis
    by (cases "find_slot (\<lambda>s. \<not> se_in_use s) (k_sections st)"; cases r)
       (simp_all add: allocate_section_def Let_def split: prod.split)
qed

text \<open>C5. Creating a section is all or nothing. From a consistent heap and page allocator,
  \<^verbatim>\<open>create_section\<close> always returns, never panics and leaves the heap consistent. When it
  succeeds, the section owns distinct page-aligned pages that were free and no longer are, as
  many as its rounded size needs, all zero, listed in a live heap block large enough for the
  list. When it fails, no heap block stays allocated and every page taken has been given back:
  the heap is the one from before, or the one from before after allocating and freeing the
  page list alone. Page zero is never free and the region table is not full.\<close>

theorem create_section_all_or_nothing:
  assumes "heap_inv (k_heap st)" and "g_ready (h_pm (k_heap st))"
    and "length (g_regions (h_pm (k_heap st))) < kMaxFreeRegions" and "0 \<notin> free_set (g_regions (h_pm (k_heap st)))"
  shows "\<exists>r st'. create_section sz access st = Some (r, st') \<and> heap_inv (k_heap st') \<and> k_panic st' = k_panic st \<and>
    (case r of
       None \<Rightarrow> mset (live_blocks (k_heap st')) = mset (live_blocks (k_heap st)) \<and>
         (k_heap st' = k_heap st \<or>
          (\<exists>n. heap_allocate n 8 (k_heap st) = Some (None, k_heap st')) \<or>
          (\<exists>n ptr h. heap_allocate n 8 (k_heap st) = Some (Some ptr, h) \<and> heap_free ptr h = Freed (k_heap st')))
     | Some i \<Rightarrow> let s = k_sections st' ! i in
         section_made i (se_page_count s) st st' \<and> se_access_mask s = access \<and>
         unat (se_size_bytes s) = 4096 * unat (se_page_count s) \<and>
         unat sz \<le> unat (se_size_bytes s) \<and> unat (se_size_bytes s) < unat sz + 4096 \<and>
         k_mem st' = cleared (se_pages s) (k_mem st))"
proof (cases "sz = 0 \<or> kMaxSectionBytes < sz")
  case True
  then show ?thesis using assms by (auto simp: create_section_def)
next
  case False
  let ?al = "align_up sz kPageSize"
  let ?n = "?al div kPageSize"
  have b: "sz \<noteq> 0" "sz \<le> kMaxSectionBytes" using False by auto
  note pb = section_pages_bounds [OF b]
  have eq: "create_section sz access st = allocate_section ?al ?n access st"
    using False pb(1,6,7) by (simp add: create_section_def Let_def)
  from allocate_section_total [OF assms(1) pb(5)] obtain r st' where
    a: "allocate_section ?al ?n access st = Some (r, st')" by blast
  show ?thesis
  proof (cases r)
    case None
    note f = allocate_section_failure [OF assms pb(5) a [unfolded None]]
    show ?thesis using eq a None f by auto
  next
    case (Some i)
    note f = allocate_section_success [OF assms(1) pb(5) a [unfolded Some]]
    have "se_page_count (k_sections st' ! i) = ?n" using f(2) by (simp add: section_made_def Let_def)
    then show ?thesis using eq a Some f pb(2,3,4) by (auto simp: Let_def)
  qed
qed

lemma kobj_example_heap:
  "heap_inv (k_heap kobj_example)" "g_ready (h_pm (k_heap kobj_example))"
  "length (g_regions (h_pm (k_heap kobj_example))) < kMaxFreeRegions"
  "0 \<notin> free_set (g_regions (h_pm (k_heap kobj_example)))"
  using heap_example_inv
  by (simp_all add: kobj_example_def heap_example_eq heap_example_pm_def kMaxFreeRegions_def free_set_def region_set_def)

theorem create_section_all_or_nothing_witness:
  "\<exists>r st'. create_section 5000 3 kobj_example = Some (r, st') \<and> heap_inv (k_heap st') \<and> k_panic st' = False"
proof -
  have "k_panic kobj_example = False" by (simp add: kobj_example_def)
  with create_section_all_or_nothing [OF kobj_example_heap, of 5000 3] show ?thesis by auto
qed

text \<open>A file whose reads give its bytes: an initramfs file holds them in memory, a file on a
  volume gets them from the driver.\<close>

definition file_serves :: "driver_read \<Rightarrow> vnode \<Rightarrow> u8 list \<Rightarrow> bool" where
  "file_serves driver node d \<longleftrightarrow> vn_is_file node \<and> vn_size node = length d \<and>
     (vn_backend node = Backend_memory \<and> vn_data node = Some d \<or>
      vn_backend node = Backend_volume \<and>
        (\<forall>n c. n + c \<le> length d \<longrightarrow> driver (vn_id node) n c = Some (take c (drop n d))))"

lemma vfs_read_serves:
  assumes "file_serves driver node d" and "0 < c" and "n + c \<le> length d"
  shows "vfs_read driver node n c = take c (drop n d)"
  using assms by (auto simp: file_serves_def vfs_read_def Let_def)

lemma page_run_distinct: "page_run ps \<Longrightarrow> distinct ps"
proof (induction ps)
  case (Cons p ps)
  have "p \<noteq> q" if "q \<in> set ps" for q
  proof
    assume "p = q"
    with Cons.prems that have "p + 4096 \<le> p" "unat p + 4096 < 2 ^ 64" by (auto simp: page_run_def)
    then show False by (simp add: word_le_nat_alt unat_add_no_wrap)
  qed
  with Cons show ?case by (auto simp: page_run_def)
qed simp

lemma acquire_fresh:
  assumes acq: "acquire_file_range_section driver node offset len access st = Some (Some i, st')"
    and fresh: "se_in_use (k_sections st ! i) = False"
    and sz: "sz = (if len \<noteq> 0 then len else of_nat (vn_size node))"
    and src: "src = (if vn_backend node = Backend_volume then Some (vn_id node) else None)"
  shows "\<not> (of_nat (vn_size node) < offset \<or> of_nat (vn_size node) - offset < sz)"
    and "sz \<noteq> 0" and "sz \<le> kMaxSectionBytes"
    and "\<exists>st1. allocate_section (align_up sz kPageSize) (align_up sz kPageSize div kPageSize) access st = Some (Some i, st1) \<and>
     st' = st1\<lparr>k_sections := (k_sections st1)[i := (k_sections st1 ! i)\<lparr>se_file_backed := True,
         se_source_node := src, se_source_offset := offset, se_source_length := sz\<rparr>],
       k_mem := fill_section (vfs_read driver node) (se_pages (k_sections st1 ! i)) (unat offset) (unat sz) 0 (k_mem st1)\<rparr>"
proof -
  show guards: "\<not> (of_nat (vn_size node) < offset \<or> of_nat (vn_size node) - offset < sz)"
    "sz \<noteq> 0" "sz \<le> kMaxSectionBytes"
    using acq by (auto simp: acquire_file_range_section_def Let_def not_less sz split: if_splits)
  have not_cached: "find_file_section src offset sz st \<noteq> Some i"
  proof
    assume "find_file_section src offset sz st = Some i"
    then have "se_in_use (k_sections st ! i)"
      by (auto simp: find_file_section_def split: if_splits dest: find_slot_holds)
    with fresh show False by simp
  qed
  show "\<exists>st1. allocate_section (align_up sz kPageSize) (align_up sz kPageSize div kPageSize) access st = Some (Some i, st1) \<and>
     st' = st1\<lparr>k_sections := (k_sections st1)[i := (k_sections st1 ! i)\<lparr>se_file_backed := True,
         se_source_node := src, se_source_offset := offset, se_source_length := sz\<rparr>],
       k_mem := fill_section (vfs_read driver node) (se_pages (k_sections st1 ! i)) (unat offset) (unat sz) 0 (k_mem st1)\<rparr>"
    using acq guards section_pages_bounds(1,6,7) [OF guards(2,3)] not_cached
    unfolding acquire_file_range_section_def Let_def sz [symmetric] src [symmetric]
    by (auto split: option.splits prod.splits if_splits)
qed

text \<open>C19. A section made from a range of a file holds that range: page by page, its memory is
  the bytes of the file from \<open>offset\<close> on, for \<open>len\<close> bytes or the whole file when \<open>len\<close> is
  zero, and zero from there to the end of the last page. The section records the file and the
  range it was made from.\<close>

theorem file_section_contents:
  assumes inv: "heap_inv (k_heap st)" and serves: "file_serves driver node d" and small: "length d < 2 ^ 64"
    and acq: "acquire_file_range_section driver node offset len access st = Some (Some i, st')"
    and fresh: "se_in_use (k_sections st ! i) = False"
  shows "let s = k_sections st' ! i; n = (if len = 0 then length d else unat len) in
    unat offset + n \<le> length d \<and> n \<le> 4096 * length (se_pages s) \<and>
    se_source_offset s = offset \<and> unat (se_source_length s) = n \<and>
    (\<forall>j < length (se_pages s).
       k_mem st' (se_pages s ! j) = padded_page (take n (drop (unat offset) d)) j)"
proof -
  define sz where "sz = (if len \<noteq> 0 then len else of_nat (vn_size node))"
  define src where "src = (if vn_backend node = Backend_volume then Some (vn_id node) else None)"
  have nsz: "unat (of_nat (vn_size node) :: u64) = length d"
    using serves small by (simp add: file_serves_def unat_of_nat)
  note fr = acquire_fresh [OF acq fresh sz_def src_def]
  note pb = section_pages_bounds [OF fr(2,3)]
  from fr(4) obtain st1 where a: "allocate_section (align_up sz kPageSize) (align_up sz kPageSize div kPageSize) access st = Some (Some i, st1)"
    and st': "st' = st1\<lparr>k_sections := (k_sections st1)[i := (k_sections st1 ! i)\<lparr>se_file_backed := True,
         se_source_node := src, se_source_offset := offset, se_source_length := sz\<rparr>],
       k_mem := fill_section (vfs_read driver node) (se_pages (k_sections st1 ! i)) (unat offset) (unat sz) 0 (k_mem st1)\<rparr>"
    by blast
  note f = allocate_section_success [OF inv pb(5) a]
  let ?ps = "se_pages (k_sections st1 ! i)"
  have made: "i < length (k_sections st1)" "length ?ps = unat (align_up sz kPageSize div kPageSize)" "page_run ?ps"
    using f(2) by (auto simp: section_made_def Let_def)
  have usz: "unat sz = (if len = 0 then length d else unat len)" using nsz by (auto simp: sz_def)
  have fit: "unat offset + unat sz \<le> length d"
  proof -
    have o: "offset \<le> of_nat (vn_size node)" and l: "sz \<le> of_nat (vn_size node) - offset"
      using fr(1) by (simp_all only: not_less de_Morgan_disj)
    have "unat sz \<le> length d - unat offset" "unat offset \<le> length d"
      using l o unat_sub [OF o] nsz unfolding word_le_nat_alt by linarith+
    then show ?thesis by linarith
  qed
  have cap: "unat sz \<le> 4096 * length ?ps" using pb(2,3) made(2) by simp
  have "k_mem st' (?ps ! j) = padded_page (take (unat sz) (drop (unat offset) d)) j" if j: "j < length ?ps" for j
  proof -
    have z: "k_mem st1 (?ps ! i) = replicate 4096 0" if "i < length ?ps" for i
      using that f(3) by (simp add: cleared_def)
    have "fill_section (vfs_read driver node) ?ps (unat offset) (unat sz) (4096 * 0) (k_mem st1) (?ps ! j) =
        (if 0 \<le> j then padded_page (take (unat sz) (drop (unat offset) d)) j else k_mem st1 (?ps ! j))"
      by (rule fill_section_spec [OF _ fit page_run_distinct [OF made(3)] cap _ j])
         (use vfs_read_serves [OF serves] z in auto)
    then show ?thesis using st' by simp
  qed
  moreover have "se_pages (k_sections st' ! i) = ?ps" "se_source_offset (k_sections st' ! i) = offset"
    "se_source_length (k_sections st' ! i) = sz" using st' made(1) by simp_all
  ultimately show ?thesis using fit cap usz by (simp add: Let_def)
qed

definition file_example :: vnode where
  "file_example = \<lparr>vn_id = 4, vn_is_file = True, vn_backend = Backend_volume, vn_data = None, vn_size = 5\<rparr>"

definition driver_example :: driver_read where
  "driver_example node n c = Some (take c (drop n [10, 20, 30, 40, 50]))"

lemma section_example_heap:
  "\<exists>h. heap_allocate 8 8 (k_heap kobj_example) = Some (Some 0xffff800000100060, h) \<and>
     h_pm h = heap_example_pm\<lparr>g_regions := [\<lparr>r_base = 0x110000, r_end = 0x128000\<rparr>]\<rparr>"
  by (simp add: kobj_example_def heap_example_eq)
     (simp add: heap_allocate_def normalize_alignment_def is_power_of_two_def allocate_loop.simps
      compute_layout_def layout_loop.simps heap_consts align_up_def block_end_def minimum_block_span_def
      take_block_def commit_allocation_def Let_def)

lemma section_example_allocates:
  "\<exists>st'. allocate_section 4096 1 access kobj_example = Some (Some 0, st')"
proof -
  obtain h where h: "heap_allocate 8 8 (k_heap kobj_example) = Some (Some 0xffff800000100060, h)"
    "h_pm h = heap_example_pm\<lparr>g_regions := [\<lparr>r_base = 0x110000, r_end = 0x128000\<rparr>]\<rparr>"
    using section_example_heap by blast
  have "find_slot (\<lambda>s. \<not> se_in_use s) (k_sections kobj_example) = Some 0"
    by (simp add: kobj_example_def zero_section_def)
  moreover have "\<exists>a pm. allocate_page (h_pm h) = (Some a, pm)"
    unfolding h(2) by (simp add: allocate_page_def allocate_contiguous_pages_def heap_example_pm_def kPageSize_def Let_def)
  ultimately show ?thesis using h(1)
    by (auto simp: allocate_section_def Let_def)
qed

theorem file_section_contents_witness:
  "\<exists>st'. acquire_file_range_section driver_example file_example 1 3 7 kobj_example = Some (Some 0, st') \<and>
     k_mem st' (se_pages (k_sections st' ! 0) ! 0) = [20, 30, 40] @ replicate 4093 0"
proof -
  obtain st1 where a: "allocate_section 4096 1 7 kobj_example = Some (Some 0, st1)"
    using section_example_allocates by blast
  have al: "align_up 3 kPageSize = 4096" by (simp add: align_up_def kPageSize_def)
  have none: "find_file_section x y z kobj_example = None" for x y z
    by (simp add: find_file_section_def kobj_example_def zero_section_def)
  have "\<exists>st'. acquire_file_range_section driver_example file_example 1 3 7 kobj_example = Some (Some 0, st')"
    using a by (simp add: acquire_file_range_section_def Let_def al none kMaxSectionBytes_def)
      (simp add: file_example_def kPageSize_def)
  then obtain st' where acq: "acquire_file_range_section driver_example file_example 1 3 7 kobj_example = Some (Some 0, st')"
    by blast
  have serves: "file_serves driver_example file_example [10, 20, 30, 40, 50]"
    by (simp add: file_serves_def file_example_def driver_example_def)
  have fresh: "se_in_use (k_sections kobj_example ! 0) = False" by (simp add: kobj_example_def zero_section_def)
  have c: "3 \<le> 4096 * length (se_pages (k_sections st' ! 0))"
    "\<forall>j < length (se_pages (k_sections st' ! 0)). k_mem st' (se_pages (k_sections st' ! 0) ! j) = padded_page [20, 30, 40] j"
    using file_section_contents [OF kobj_example_heap(1) serves _ acq fresh] by (simp_all add: Let_def)
  then have "se_pages (k_sections st' ! 0) \<noteq> []" by auto
  with c(2) acq show ?thesis by (simp add: padded_page_def)
qed

text \<open>C34. A read error is not told apart from the end of the file: when the volume driver fails
  on every read, a section for the file is still returned, its pages are all zero, and it is
  entered in the cache, so that every later request for the range gets the zero pages.\<close>

theorem file_section_hides_read_error:
  assumes inv: "heap_inv (k_heap st)" and node: "vn_backend node = Backend_volume"
    and broken: "\<forall>n c. driver (vn_id node) n c = None"
    and acq: "acquire_file_range_section driver node offset len access st = Some (Some i, st')"
    and fresh: "se_in_use (k_sections st ! i) = False"
  shows "(\<forall>p\<in>set (se_pages (k_sections st' ! i)). k_mem st' p = replicate 4096 0) \<and>
    find_file_section (Some (vn_id node)) offset (se_source_length (k_sections st' ! i)) st' \<noteq> None"
proof -
  define sz where "sz = (if len \<noteq> 0 then len else of_nat (vn_size node))"
  have src: "Some (vn_id node) = (if vn_backend node = Backend_volume then Some (vn_id node) else None)" using node by simp
  note fr = acquire_fresh [OF acq fresh sz_def src]
  note pb = section_pages_bounds [OF fr(2,3)]
  have "vfs_read driver node n c = []" for n c using node broken by (simp add: vfs_read_def Let_def)
  then have unread: "fill_section (vfs_read driver node) ps a b 0 mem = mem" for ps a b mem
    by (subst fill_section.simps) (simp add: Let_def)
  from fr(4) obtain st1 where a: "allocate_section (align_up sz kPageSize) (align_up sz kPageSize div kPageSize) access st = Some (Some i, st1)"
    and st': "st' = st1\<lparr>k_sections := (k_sections st1)[i := (k_sections st1 ! i)\<lparr>se_file_backed := True,
         se_source_node := Some (vn_id node), se_source_offset := offset, se_source_length := sz\<rparr>],
       k_mem := fill_section (vfs_read driver node) (se_pages (k_sections st1 ! i)) (unat offset) (unat sz) 0 (k_mem st1)\<rparr>"
    by blast
  have mem: "k_mem st' = k_mem st1" unfolding st' by (simp add: unread)
  note f = allocate_section_success [OF inv pb(5) a]
  have i: "i < length (k_sections st1)" "se_in_use (k_sections st1 ! i)" using f(2) by (auto simp: section_made_def Let_def)
  have "k_sections st' ! i \<in> set (k_sections st')" using i(1) st' by (intro nth_mem) simp
  moreover have "se_in_use (k_sections st' ! i) \<and> se_file_backed (k_sections st' ! i) \<and>
      se_source_node (k_sections st' ! i) = Some (vn_id node) \<and> se_source_offset (k_sections st' ! i) = offset"
    using i st' by simp
  ultimately have "find_file_section (Some (vn_id node)) offset (se_source_length (k_sections st' ! i)) st' \<noteq> None"
    unfolding find_file_section_def find_slot_None_iff by (auto simp: find_slot_None_iff)
  moreover have "k_mem st' p = replicate 4096 0" if "p \<in> set (se_pages (k_sections st' ! i))" for p
    using that f(3) mem st' i by (simp add: cleared_def)
  ultimately show ?thesis by blast
qed

theorem file_section_hides_read_error_witness:
  "\<exists>st'. acquire_file_range_section (\<lambda>_ _ _. None) file_example 1 3 7 kobj_example = Some (Some 0, st') \<and>
     find_file_section (Some 4) 1 (se_source_length (k_sections st' ! 0)) st' \<noteq> None"
proof -
  obtain st1 where a: "allocate_section 4096 1 7 kobj_example = Some (Some 0, st1)"
    using section_example_allocates by blast
  have al: "align_up 3 kPageSize = 4096" by (simp add: align_up_def kPageSize_def)
  have none: "find_file_section x y z kobj_example = None" for x y z
    by (simp add: find_file_section_def kobj_example_def zero_section_def)
  have "\<exists>st'. acquire_file_range_section (\<lambda>_ _ _. None) file_example 1 3 7 kobj_example = Some (Some 0, st')"
    using a by (simp add: acquire_file_range_section_def Let_def al none kMaxSectionBytes_def)
      (simp add: file_example_def kPageSize_def)
  then obtain st' where acq: "acquire_file_range_section (\<lambda>_ _ _. None) file_example 1 3 7 kobj_example = Some (Some 0, st')"
    by blast
  have fresh: "se_in_use (k_sections kobj_example ! 0) = False" by (simp add: kobj_example_def zero_section_def)
  have b: "vn_backend file_example = Backend_volume" by (simp add: file_example_def)
  from file_section_hides_read_error [OF kobj_example_heap(1) b _ acq fresh] acq show ?thesis
    by (simp add: file_example_def)
qed

text \<open>A section in use owns its pages: they are whole pages, none of them is free, and they
  cover its size.\<close>

definition section_owned :: "nat \<Rightarrow> kobj_state \<Rightarrow> bool" where
  "section_owned i st \<longleftrightarrow>
     (let s = k_sections st ! i in
      i < length (k_sections st) \<and> se_in_use s \<and> page_run (se_pages s) \<and>
      spans (se_pages s) \<inter> free_set (g_regions (h_pm (k_heap st))) = {} \<and>
      se_size_bytes s \<noteq> 0 \<and> se_size_bytes s \<le> kMaxSectionBytes \<and>
      unat (se_size_bytes s) = 4096 * length (se_pages s) \<and>
      (\<forall>p\<in>set (se_pages s). length (k_mem st p) = 4096))"

lemma page_in_span: "page_run ps \<Longrightarrow> p \<in> set ps \<Longrightarrow> p \<in> spans ps"
  by (auto simp: page_run_def spans_def page_span_add)

lemma align_up_multiple_page:
  assumes "unat v = 4096 * n" and "v \<noteq> 0" and "v \<le> kMaxSectionBytes"
  shows "align_up v kPageSize = v"
proof -
  note b = section_pages_bounds [OF assms(2,3)]
  have "unat (align_up v kPageSize div kPageSize) = n" using b(2,3,4) assms(1) by linarith
  then have "unat (align_up v kPageSize) = unat v" using b(2) assms(1) by linarith
  then show ?thesis by (simp add: word_unat_eq_iff)
qed

text \<open>C30. A clone of a section is a copy on pages of its own: the same number of pages, none
  shared with the source, with the same contents page for page; the source keeps its contents
  and the clone its access mask.\<close>

theorem clone_section_copies:
  assumes inv: "heap_inv (k_heap st)" and owned: "section_owned src st"
    and c: "clone_section src st = Some (Some i, st')"
  shows "let s = k_sections st ! src; t = k_sections st' ! i in
    map (k_mem st') (se_pages t) = map (k_mem st) (se_pages s) \<and>
    set (se_pages t) \<inter> set (se_pages s) = {} \<and> se_access_mask t = se_access_mask s \<and>
    se_size_bytes t = se_size_bytes s \<and> (\<forall>p\<in>set (se_pages s). k_mem st' p = k_mem st p) \<and> i \<noteq> src"
proof -
  let ?s = "k_sections st ! src"
  have o: "src < length (k_sections st)" "se_in_use ?s" "page_run (se_pages ?s)"
    "spans (se_pages ?s) \<inter> free_set (g_regions (h_pm (k_heap st))) = {}" "se_size_bytes ?s \<noteq> 0"
    "se_size_bytes ?s \<le> kMaxSectionBytes" "unat (se_size_bytes ?s) = 4096 * length (se_pages ?s)"
    "\<forall>p\<in>set (se_pages ?s). length (k_mem st p) = 4096"
    using owned by (simp_all add: section_owned_def Let_def)
  let ?n = "se_size_bytes ?s div kPageSize"
  note pb = section_pages_bounds [OF o(5,6), unfolded align_up_multiple_page [OF o(7,5,6)]]
  have "create_section (se_size_bytes ?s) (se_access_mask ?s) st = allocate_section (se_size_bytes ?s) ?n (se_access_mask ?s) st"
    using o(5) pb(6,7) leD [OF o(6)] by (simp add: create_section_def Let_def align_up_multiple_page [OF o(7,5,6)])
  with c o(2) obtain st1 where a: "allocate_section (se_size_bytes ?s) ?n (se_access_mask ?s) st = Some (Some i, st1)"
    and st': "st' = st1\<lparr>k_mem := copy_pages (se_pages (k_sections st1 ! i)) (se_pages ?s)
                  (unat (se_size_bytes ?s)) (k_mem st1)\<rparr>"
    by (auto simp: clone_section_def Let_def split: option.splits prod.splits)
  note f = allocate_section_success [OF inv pb(5) a]
  let ?ps = "se_pages (k_sections st1 ! i)"
  have made: "\<not> se_in_use (k_sections st ! i)" "length ?ps = unat ?n" "page_run ?ps"
    "spans ?ps \<subseteq> free_set (g_regions (h_pm (k_heap st)))"
    using f(2) by (auto simp: section_made_def Let_def)
  have len: "length ?ps = length (se_pages ?s)" using made(2) pb(2) o(7) by simp
  have disj: "set ?ps \<inter> set (se_pages ?s) = {}"
    using page_in_span [OF made(3)] page_in_span [OF o(3)] made(4) o(4) by blast
  have mem1: "k_mem st1 p = k_mem st p" if "p \<in> set (se_pages ?s)" for p
    using that disj f(3) by (auto simp: cleared_def)
  have "\<forall>p\<in>set ?ps \<union> set (se_pages ?s). length (k_mem st1 p) = 4096"
    using o(8) f(3) by (auto simp: cleared_def)
  from copy_pages_spec [OF len page_run_distinct [OF made(3)] disj _ this, of "unat (se_size_bytes ?s)"] len o(7)
  have cp: "map (k_mem st') ?ps = map (k_mem st1) (se_pages ?s)" "\<forall>a. a \<notin> set ?ps \<longrightarrow> k_mem st' a = k_mem st1 a"
    using st' by simp_all
  have "k_mem st' p = k_mem st p" if "p \<in> set (se_pages ?s)" for p
    using that cp(2) disj mem1 by auto
  moreover have "map (k_mem st1) (se_pages ?s) = map (k_mem st) (se_pages ?s)" using mem1 by simp
  moreover have "i \<noteq> src" using made(1) o(2) by auto
  ultimately show ?thesis using cp(1) disj f(4,5) st' by (simp add: Let_def)
qed

definition heap_after_one :: heap_state where
  "heap_after_one = heap_example\<lparr>h_arenas := [\<lparr>a_allocation = \<lparr>physical_address = 0x100000,
       virtual_address = 0xffff800000100000, page_count = 16\<rparr>,
     a_blocks = [\<lparr>b_addr = 0xffff800000100030, b_size = 16, b_free = False\<rparr>,
       \<lparr>b_addr = 0xffff800000100070, b_size = 65376, b_free = True\<rparr>]\<rparr>], h_used_bytes := 16\<rparr>"

lemma heap_after_one_eq: "heap_allocate 8 8 heap_example = Some (Some 0xffff800000100060, heap_after_one)"
  by (simp add: heap_after_one_def heap_example_eq heap_allocate_def normalize_alignment_def is_power_of_two_def
      allocate_loop.simps compute_layout_def layout_loop.simps heap_consts align_up_def block_end_def
      minimum_block_span_def take_block_def commit_allocation_def splice_def Let_def)

lemma heap_after_two_ex: "\<exists>p h. heap_allocate 8 8 (with_regions rs heap_after_one) = Some (Some p, h) \<and>
    h_pm h = heap_example_pm\<lparr>g_regions := rs\<rparr>"
  by (simp add: with_regions_def heap_after_one_def heap_example_eq heap_allocate_def normalize_alignment_def is_power_of_two_def
      allocate_loop.simps compute_layout_def layout_loop.simps heap_consts align_up_def block_end_def
      minimum_block_span_def take_block_def commit_allocation_def splice_def Let_def)

definition section_example :: kobj_state where
  "section_example = snd (the (create_section 4096 3 kobj_example))"

lemma section_example_eq:
  "create_section 4096 3 kobj_example = Some (Some 0, section_example)"
  "k_heap section_example = with_regions [\<lparr>r_base = 0x111000, r_end = 0x128000\<rparr>] heap_after_one"
  "k_sections section_example = [zero_section\<lparr>se_in_use := True, se_access_mask := 3, se_size_bytes := 4096,
     se_page_count := 1, se_pages_ptr := 0xffff800000100060, se_pages := [0x110000]\<rparr>, zero_section]"
  "k_mem section_example 0x110000 = replicate 4096 0"
proof -
  have slot: "find_slot (\<lambda>s. \<not> se_in_use s) (k_sections kobj_example) = Some 0" "k_heap kobj_example = heap_example"
    "k_sections kobj_example = [zero_section, zero_section]"
    by (simp_all add: kobj_example_def zero_section_def)
  have page: "allocate_page (h_pm heap_after_one) = (Some \<lparr>physical_address = 0x110000,
      virtual_address = 0xffff800000110000, page_count = 1\<rparr>,
      (h_pm heap_after_one)\<lparr>g_regions := [\<lparr>r_base = 0x111000, r_end = 0x128000\<rparr>]\<rparr>)"
    by (simp add: heap_after_one_def heap_example_eq heap_example_pm_def allocate_page_def
      allocate_contiguous_pages_def kPageSize_def Let_def)
  have c: "create_section 4096 3 kobj_example = allocate_section 4096 1 3 kobj_example"
    by (simp add: create_section_def kMaxSectionBytes_def align_up_def kPageSize_def)
  have "\<exists>st. create_section 4096 3 kobj_example = Some (Some 0, st) \<and>
    k_heap st = with_regions [\<lparr>r_base = 0x111000, r_end = 0x128000\<rparr>] heap_after_one \<and>
    k_sections st = [zero_section\<lparr>se_in_use := True, se_access_mask := 3, se_size_bytes := 4096,
     se_page_count := 1, se_pages_ptr := 0xffff800000100060, se_pages := [0x110000]\<rparr>, zero_section] \<and>
    k_mem st 0x110000 = replicate 4096 0"
    unfolding c using slot(1)
    by (simp add: allocate_section_def slot(2,3) heap_after_one_eq page Let_def with_regions_def)
  then show "create_section 4096 3 kobj_example = Some (Some 0, section_example)"
    "k_heap section_example = with_regions [\<lparr>r_base = 0x111000, r_end = 0x128000\<rparr>] heap_after_one"
    "k_sections section_example = [zero_section\<lparr>se_in_use := True, se_access_mask := 3, se_size_bytes := 4096,
     se_page_count := 1, se_pages_ptr := 0xffff800000100060, se_pages := [0x110000]\<rparr>, zero_section]"
    "k_mem section_example 0x110000 = replicate 4096 0"
    by (auto simp: section_example_def)
qed

theorem clone_section_copies_witness:
  "\<exists>st'. clone_section 0 section_example = Some (Some 1, st') \<and>
     map (k_mem st') (se_pages (k_sections st' ! 1)) = [replicate 4096 0]"
proof -
  let ?rs = "[\<lparr>r_base = 0x111000, r_end = 0x128000\<rparr>] :: region list"
  have hi: "heap_inv (k_heap section_example)"
    using allocate_section_success(1) [OF kobj_example_heap(1), of 1 4096 3 0 section_example] section_example_eq(1)
    by (simp add: create_section_def kMaxSectionBytes_def align_up_def kPageSize_def)
  have owned: "section_owned 0 section_example"
    by (simp add: section_owned_def section_example_eq page_run_def spans_def page_span_def with_regions_def
      free_set_def region_set_def kMaxSectionBytes_def)
  obtain p h where h: "heap_allocate 8 8 (with_regions ?rs heap_after_one) = Some (Some p, h)"
    "h_pm h = heap_example_pm\<lparr>g_regions := ?rs\<rparr>" using heap_after_two_ex by blast
  have page: "\<exists>a pm. allocate_page (heap_example_pm\<lparr>g_regions := ?rs\<rparr>) = (Some a, pm)"
    by (simp add: heap_example_pm_def allocate_page_def allocate_contiguous_pages_def kPageSize_def Let_def)
  have "\<exists>st'. create_section 4096 3 section_example = Some (Some 1, st')"
    using h page by (auto simp: create_section_def kMaxSectionBytes_def align_up_def kPageSize_def
      allocate_section_def section_example_eq zero_section_def Let_def)
  then obtain st' where c: "clone_section 0 section_example = Some (Some 1, st')"
    by (auto simp: clone_section_def section_example_eq Let_def)
  from clone_section_copies [OF hi owned c] c show ?thesis by (simp add: section_example_eq Let_def)
qed

end
