(* ===== verification/Kernel_Handle.thy ===== *)
theory Kernel_Handle
  imports Kernel_Object
begin

text \<open>
  What processes do with kernel objects: handle tables, pipes and their stream
  objects (\<^verbatim>\<open>kernel/process.cpp\<close>), multi-object waits (\<^verbatim>\<open>kernel/sx.cpp\<close>), and the native
  calls that close, duplicate, send and receive handles and connect to ports
  (\<^verbatim>\<open>kernel/native_dispatch.cpp\<close>). A process is its handle table; results are the
  negative error numbers of the ABI as integers. Reading and writing the caller's
  memory is a parameter: \<open>rd\<close> gives the bytes of a range or \<open>None\<close> when it is not
  accessible, \<open>wr_ok\<close> says whether a range can be written.
\<close>

section \<open>Constants\<close>

definition kMaxFileHandles :: nat where "kMaxFileHandles = 64"
definition kMaxWaitHandles :: nat where "kMaxWaitHandles = 16"
definition kPipeChunkSize :: nat where "kPipeChunkSize = 256"
definition kBlockedResult :: int where "kBlockedResult = - 0x70000000"

definition access_none :: u32 where "access_none = 0"
definition access_read :: u32 where "access_read = 1"
definition access_write :: u32 where "access_write = 2"
definition access_query :: u32 where "access_query = 8"
definition access_synchronize :: u32 where "access_synchronize = 32"

section \<open>Handle tables\<close>

record handle_entry =
  he_object :: "obj_ptr option"
  he_access :: u32
  he_flags :: u32

definition clear_handle_entry :: handle_entry where
  "clear_handle_entry = \<lparr>he_object = None, he_access = 0, he_flags = 0\<rparr>"

type_synonym handle_table = "handle_entry list"

definition allocate_fd_slot :: "handle_table \<Rightarrow> int" where
  "allocate_fd_slot hs =
     (case find_slot (\<lambda>e. he_object e = None) hs of None \<Rightarrow> negative_error SX_EBADF | Some fd \<Rightarrow> int fd)"

definition install_handle ::
  "int \<Rightarrow> obj_ptr option \<Rightarrow> u32 \<Rightarrow> u32 \<Rightarrow> handle_table \<Rightarrow> kobj_state \<Rightarrow> int \<times> handle_table \<times> kobj_state" where
  "install_handle fd object access flags hs st =
     (if fd < 0 \<or> int kMaxFileHandles \<le> fd \<or> object = None then (negative_error SX_EBADF, hs, st)
      else
        let i = nat fd;
            st1 = (if he_object (hs ! i) \<noteq> None then obj_release (he_object (hs ! i)) st else st)
        in (fd, hs[i := \<lparr>he_object = object, he_access = access, he_flags = flags\<rparr>], obj_retain (the object) st1))"

definition allocate_fd ::
  "obj_ptr option \<Rightarrow> u32 \<Rightarrow> u32 \<Rightarrow> handle_table \<Rightarrow> kobj_state \<Rightarrow> int \<times> handle_table \<times> kobj_state" where
  "allocate_fd object access flags hs st =
     (let fd = allocate_fd_slot hs in if fd < 0 then (fd, hs, st) else install_handle fd object access flags hs st)"

definition lookup_handle :: "handle_table \<Rightarrow> nat \<Rightarrow> u32 \<Rightarrow> obj_ptr option" where
  "lookup_handle hs fd desired =
     (if kMaxFileHandles \<le> fd then None
      else if he_object (hs ! fd) = None then None
      else if he_access (hs ! fd) AND desired \<noteq> desired then None
      else he_object (hs ! fd))"

definition native_close :: "nat \<Rightarrow> handle_table \<Rightarrow> kobj_state \<Rightarrow> int \<times> handle_table \<times> kobj_state" where
  "native_close h hs st =
     (if kMaxFileHandles \<le> h \<or> he_object (hs ! h) = None then (negative_error SX_EBADF, hs, st)
      else (0, hs[h := clear_handle_entry], obj_release (he_object (hs ! h)) st))"

definition native_duplicate :: "nat \<Rightarrow> handle_table \<Rightarrow> kobj_state \<Rightarrow> int \<times> handle_table \<times> kobj_state" where
  "native_duplicate h hs st =
     (case lookup_handle hs h access_query of
        None \<Rightarrow> (negative_error SX_EBADF, hs, st)
      | Some target \<Rightarrow> allocate_fd (Some target) (he_access (hs ! h)) (he_flags (hs ! h)) hs st)"

fun release_all_handles :: "handle_table \<Rightarrow> kobj_state \<Rightarrow> handle_table \<times> kobj_state" where
  "release_all_handles [] st = ([], st)"
| "release_all_handles (e # es) st =
     (case (if he_object e \<noteq> None then (clear_handle_entry, obj_release (he_object e) st) else (e, st)) of
        (e', st1) \<Rightarrow> (case release_all_handles es st1 of (es', st2) \<Rightarrow> (e' # es', st2)))"

definition inherit_handle ::
  "int \<Rightarrow> int \<Rightarrow> handle_table \<Rightarrow> handle_table \<Rightarrow> kobj_state \<Rightarrow> bool \<times> handle_table \<times> kobj_state" where
  "inherit_handle child_fd parent_fd child parent st =
     (if parent_fd < 0 \<or> int kMaxFileHandles \<le> parent_fd then (False, child, st)
      else
        let e = parent ! nat parent_fd in
        if he_object e = None then (False, child, st)
        else (case install_handle child_fd (he_object e) (he_access e) (he_flags e) child st of
            (r, child', st1) \<Rightarrow> (0 \<le> r, child', st1)))"

fun inherit_entries ::
  "nat \<Rightarrow> handle_table \<Rightarrow> handle_table \<Rightarrow> kobj_state \<Rightarrow> bool \<times> handle_table \<times> kobj_state" where
  "inherit_entries fd [] child st = (True, child, st)"
| "inherit_entries fd (e # es) child st =
     (if he_object e = None then inherit_entries (Suc fd) es child st
      else (case install_handle (int fd) (he_object e) (he_access e) (he_flags e) child st of
          (r, child1, st1) \<Rightarrow>
            if r < 0 then (case release_all_handles child1 st1 of (child2, st2) \<Rightarrow> (False, child2, st2))
            else inherit_entries (Suc fd) es child1 st1))"

definition inherit_all_handles ::
  "handle_table \<Rightarrow> handle_table \<Rightarrow> kobj_state \<Rightarrow> bool \<times> handle_table \<times> kobj_state" where
  "inherit_all_handles child parent st =
     inherit_entries 0 parent (map (\<lambda>_. clear_handle_entry) child) st"

definition object_access_for_open_flags :: "u32 \<Rightarrow> u32" where
  "object_access_for_open_flags flags =
     (let access0 = access_query OR access_synchronize;
          access1 = (if flags AND open_read \<noteq> 0 then access0 OR access_read else access0)
      in if flags AND open_write \<noteq> 0 then access1 OR access_write else access1)"

section \<open>Streams and pipes\<close>

definition allocate_io_object :: "kobj_state \<Rightarrow> nat option \<times> kobj_state" where
  "allocate_io_object st =
     (case find_slot (\<lambda>f. \<not> io_in_use f) (k_ios st) of
        None \<Rightarrow> (None, st)
      | Some i \<Rightarrow> (Some i, set_hdr (Io_at i) (zero_header\<lparr>hd_type := Ty_io\<rparr>)
          (st\<lparr>k_ios := (k_ios st)[i := zero_io\<lparr>io_in_use := True\<rparr>]\<rparr>)))"

definition allocate_pipe :: "kobj_state \<Rightarrow> nat option \<times> kobj_state" where
  "allocate_pipe st =
     (case find_slot (\<lambda>p. \<not> pi_in_use p) (k_pipes st) of
        None \<Rightarrow> (None, st)
      | Some q \<Rightarrow> (Some q, upd_pipe q (\<lambda>p. (clear_pipe p)\<lparr>pi_in_use := True\<rparr>) st))"

definition discard_io_object :: "nat option \<Rightarrow> kobj_state \<Rightarrow> kobj_state" where
  "discard_io_object file st =
     (case file of
        None \<Rightarrow> st
      | Some i \<Rightarrow> set_hdr (Io_at i) zero_header
          (st\<lparr>k_panic := k_panic st \<or> hd_refcount (k_hdr st (Io_at i)) \<noteq> 0,
             k_ios := (k_ios st)[i := zero_io]\<rparr>))"

definition make_pipe_end :: "nat \<Rightarrow> u32 \<Rightarrow> nat \<Rightarrow> kobj_state \<Rightarrow> kobj_state" where
  "make_pipe_end i flags q st =
     upd_hdr (Io_at i) (hd_destroy_update (\<lambda>_. Destroy_io))
       (st\<lparr>k_ios := (k_ios st)[i := (k_ios st ! i)
          \<lparr>io_kind := Kind_pipe, io_open_flags := flags, io_pipe := Some q\<rparr>]\<rparr>)"

definition create_pipe_pair :: "kobj_state \<Rightarrow> (nat \<times> nat) option \<times> kobj_state" where
  "create_pipe_pair st =
     (case allocate_pipe st of
        (None, st1) \<Rightarrow> (None, st1)
      | (Some q, st1) \<Rightarrow>
          (case allocate_io_object st1 of (reader, st2) \<Rightarrow>
             (case allocate_io_object st2 of (writer, st3) \<Rightarrow>
                (case (reader, writer) of
                   (Some r, Some w) \<Rightarrow>
                     (Some (r, w),
                      obj_retain (Io_at w) (obj_retain (Io_at r)
                        (upd_pipe q (\<lambda>p. p\<lparr>pi_reader_refs := 1, pi_writer_refs := 1\<rparr>)
                          (make_pipe_end w open_write q (make_pipe_end r open_read q st3)))))
                 | _ \<Rightarrow> (None, upd_pipe q clear_pipe (discard_io_object writer (discard_io_object reader st3)))))))"

text \<open>\<^verbatim>\<open>pipe_copy_out\<close>: the bytes that reach the reader and the pipe afterwards; nothing when
  a part of the destination cannot be written.\<close>

definition pipe_copy_out ::
  "(u64 \<Rightarrow> nat \<Rightarrow> bool) \<Rightarrow> u64 \<Rightarrow> nat \<Rightarrow> pipe_object \<Rightarrow> u8 list \<times> pipe_object" where
  "pipe_copy_out wr_ok address cnt p =
     (let to_copy = (if cnt < pi_size p then cnt else pi_size p) in
      if to_copy = 0 then ([], p)
      else
        let first = (if pi_read_pos p + to_copy \<le> kPipeCapacity then to_copy else kPipeCapacity - pi_read_pos p) in
        if \<not> wr_ok address first then ([], p)
        else if first < to_copy \<and> \<not> wr_ok (address + of_nat first) (to_copy - first) then ([], p)
        else (take first (drop (pi_read_pos p) (pi_buffer p)) @ take (to_copy - first) (pi_buffer p),
              p\<lparr>pi_read_pos := (pi_read_pos p + to_copy) mod kPipeCapacity, pi_size := pi_size p - to_copy\<rparr>))"

definition try_pipe_read ::
  "(u64 \<Rightarrow> nat \<Rightarrow> bool) \<Rightarrow> u64 \<Rightarrow> nat \<Rightarrow> nat option \<Rightarrow> kobj_state \<Rightarrow> int \<times> u8 list \<times> kobj_state" where
  "try_pipe_read wr_ok address cnt pipe st =
     (case pipe of
        None \<Rightarrow> (negative_error SX_EBADF, [], st)
      | Some q \<Rightarrow>
          let p = k_pipes st ! q in
          if \<not> pi_in_use p then (negative_error SX_EBADF, [], st)
          else if cnt = 0 then (0, [], st)
          else if pi_size p = 0 then (if pi_writer_refs p = 0 then 0 else kBlockedResult, [], st)
          else (case pipe_copy_out wr_ok address cnt p of
              (bytes, p') \<Rightarrow>
                if bytes = [] then (negative_error SX_EINVAL, [], upd_pipe q (\<lambda>_. p') st)
                else (int (length bytes), bytes, calls (Wake_writers q) (upd_pipe q (\<lambda>_. p') st))))"

text \<open>The inner loop of \<^verbatim>\<open>pipe_write_chunk\<close>: copy one scratch buffer into the ring, in at
  most two pieces; \<open>None\<close> is a loop that makes no progress.\<close>

partial_function (option) put_bytes :: "u8 list \<Rightarrow> pipe_object \<Rightarrow> pipe_object option" where
  "put_bytes data p =
     (if data = [] then Some p
      else
        let contiguous = (if pi_write_pos p + length data \<le> kPipeCapacity then length data
                          else kPipeCapacity - pi_write_pos p)
        in put_bytes (drop contiguous data)
             (p\<lparr>pi_buffer := take (pi_write_pos p) (pi_buffer p) @ take contiguous data
                  @ drop (pi_write_pos p + contiguous) (pi_buffer p),
                pi_write_pos := (pi_write_pos p + contiguous) mod kPipeCapacity,
                pi_size := pi_size p + contiguous\<rparr>))"

text \<open>The outer loop: \<open>Inl\<close> is the early return when the caller's memory cannot be read,
  with the pipe as it is then.\<close>

function write_chunks ::
  "(u64 \<Rightarrow> nat \<Rightarrow> u8 list option) \<Rightarrow> u64 \<Rightarrow> nat \<Rightarrow> nat \<Rightarrow> pipe_object \<Rightarrow> (pipe_object + pipe_object) option" where
  "write_chunks rd address amount written p =
     (if amount \<le> written then Some (Inr p)
      else
        let step = (if amount - written < kPipeChunkSize then amount - written else kPipeChunkSize) in
        case rd (address + of_nat written) step of
          None \<Rightarrow> Some (Inl p)
        | Some scratch \<Rightarrow>
            (case put_bytes scratch p of
               None \<Rightarrow> None
             | Some p' \<Rightarrow> write_chunks rd address amount (written + step) p'))"
  by pat_completeness auto
termination
  by (relation "measure (\<lambda>(rd, address, amount, written, p). amount - written)")
     (auto simp: kPipeChunkSize_def)

declare write_chunks.simps [simp del]

definition pipe_write_chunk ::
  "(u64 \<Rightarrow> nat \<Rightarrow> u8 list option) \<Rightarrow> u64 \<Rightarrow> nat \<Rightarrow> nat \<Rightarrow> nat \<Rightarrow> kobj_state \<Rightarrow> (int \<times> kobj_state) option" where
  "pipe_write_chunk rd address cnt progress q st =
     (let p = k_pipes st ! q in
      if pi_reader_refs p = 0 then Some (negative_error SX_EPIPE, st)
      else if cnt = 0 then Some (0, st)
      else if pi_size p = kPipeCapacity then Some (kBlockedResult, st)
      else
        let remaining = cnt - progress;
            writable = kPipeCapacity - pi_size p;
            amount = (if writable < remaining then writable else remaining)
        in case write_chunks rd (address + of_nat progress) amount 0 p of
             None \<Rightarrow> None
           | Some (Inl p') \<Rightarrow> Some (negative_error SX_EINVAL, upd_pipe q (\<lambda>_. p') st)
           | Some (Inr p') \<Rightarrow> Some (int amount, calls (Wake_readers q) (upd_pipe q (\<lambda>_. p') st)))"

section \<open>Polling and waiting\<close>

text \<open>The state of streams other components own: the terminal, devices, sockets.\<close>

record stream_env =
  tty_line_ready :: bool
  device_can_read :: "nat option \<Rightarrow> bool"
  socket_can_read :: "nat option \<Rightarrow> bool"
  socket_can_write :: "nat option \<Rightarrow> bool"
  socket_has_hangup :: "nat option \<Rightarrow> bool"

definition open_file_can_read :: "stream_env \<Rightarrow> kobj_state \<Rightarrow> io_object \<Rightarrow> bool" where
  "open_file_can_read env st f =
     (case io_kind f of
        Kind_tty \<Rightarrow> tty_line_ready env
      | Kind_vnode \<Rightarrow> io_node f \<noteq> None
      | Kind_pipe \<Rightarrow> (case io_pipe f of None \<Rightarrow> False
          | Some q \<Rightarrow> pi_size (k_pipes st ! q) \<noteq> 0 \<or> pi_writer_refs (k_pipes st ! q) = 0)
      | Kind_device \<Rightarrow> device_can_read env (io_device f)
      | Kind_socket \<Rightarrow> socket_can_read env (io_socket f)
      | Kind_none \<Rightarrow> False)"

definition open_file_can_write :: "stream_env \<Rightarrow> kobj_state \<Rightarrow> io_object \<Rightarrow> bool" where
  "open_file_can_write env st f =
     (case io_kind f of
        Kind_tty \<Rightarrow> True
      | Kind_vnode \<Rightarrow> io_node f \<noteq> None
      | Kind_pipe \<Rightarrow> (case io_pipe f of None \<Rightarrow> False
          | Some q \<Rightarrow> pi_reader_refs (k_pipes st ! q) \<noteq> 0 \<and> pi_size (k_pipes st ! q) < kPipeCapacity)
      | Kind_device \<Rightarrow> True
      | Kind_socket \<Rightarrow> socket_can_write env (io_socket f)
      | Kind_none \<Rightarrow> False)"

definition open_file_has_hangup :: "stream_env \<Rightarrow> kobj_state \<Rightarrow> io_object \<Rightarrow> bool" where
  "open_file_has_hangup env st f =
     (case io_kind f of
        Kind_pipe \<Rightarrow> (case io_pipe f of None \<Rightarrow> False
          | Some q \<Rightarrow> pi_reader_refs (k_pipes st ! q) = 0 \<or> pi_writer_refs (k_pipes st ! q) = 0)
      | Kind_socket \<Rightarrow> socket_has_hangup env (io_socket f)
      | _ \<Rightarrow> False)"

definition POLLIN :: u16 where "POLLIN = 1"
definition POLLOUT :: u16 where "POLLOUT = 4"
definition POLLHUP :: u16 where "POLLHUP = 16"
definition POLLNVAL :: u16 where "POLLNVAL = 32"

definition poll_open_file :: "stream_env \<Rightarrow> kobj_state \<Rightarrow> nat option \<Rightarrow> u16 \<Rightarrow> u16" where
  "poll_open_file env st file events =
     (case file of
        None \<Rightarrow> POLLNVAL
      | Some i \<Rightarrow>
          let f = k_ios st ! i;
              r0 = (if events AND POLLIN \<noteq> 0 \<and> open_file_can_read env st f then POLLIN else 0);
              r1 = (if events AND POLLOUT \<noteq> 0 \<and> open_file_can_write env st f then r0 OR POLLOUT else r0)
          in if open_file_has_hangup env st f then r1 OR POLLHUP else r1)"

definition as_io :: "kobj_state \<Rightarrow> obj_ptr \<Rightarrow> nat option" where
  "as_io st p = (case p of Io_at i \<Rightarrow> if hd_type (k_hdr st p) = Ty_io then Some i else None | _ \<Rightarrow> None)"

definition is_waitable :: "kobj_state \<Rightarrow> obj_ptr \<Rightarrow> bool" where
  "is_waitable st p = hd_waitable (k_hdr st p)"

definition stream_ready :: "stream_env \<Rightarrow> kobj_state \<Rightarrow> obj_ptr \<Rightarrow> bool" where
  "stream_ready env st p =
     (case as_io st p of
        None \<Rightarrow> False
      | Some i \<Rightarrow> poll_open_file env st (Some i) POLLIN AND (POLLIN OR POLLHUP) \<noteq> 0)"

definition target_ready :: "stream_env \<Rightarrow> kobj_state \<Rightarrow> obj_ptr \<Rightarrow> bool" where
  "target_ready env st p = (if is_waitable st p then can_satisfy_wait p st else stream_ready env st p)"

definition acquire_target :: "stream_env \<Rightarrow> obj_ptr \<Rightarrow> kobj_state \<Rightarrow> bool \<times> kobj_state" where
  "acquire_target env p st =
     (if is_waitable st p then try_acquire_wait p st else (stream_ready env st p, st))"

definition is_wait_target :: "kobj_state \<Rightarrow> obj_ptr \<Rightarrow> bool" where
  "is_wait_target st p \<longleftrightarrow> is_waitable st p \<or>
     (case as_io st p of None \<Rightarrow> False | Some i \<Rightarrow> io_open_flags (k_ios st ! i) AND open_read \<noteq> 0)"

datatype wait_reason = Wait_none | Wait_child | Wait_object | Wait_address

record wait_state =
  wt_reason :: wait_reason
  wt_objects :: "obj_ptr list"
  wt_all :: bool

definition can_complete_object_wait :: "stream_env \<Rightarrow> wait_state \<Rightarrow> kobj_state \<Rightarrow> bool" where
  "can_complete_object_wait env w st =
     (if wt_reason w \<noteq> Wait_object \<or> wt_objects w = [] then False
      else if wt_all w then list_all (target_ready env st) (wt_objects w)
      else list_ex (target_ready env st) (wt_objects w))"

fun acquire_all :: "stream_env \<Rightarrow> obj_ptr list \<Rightarrow> kobj_state \<Rightarrow> int \<times> kobj_state" where
  "acquire_all env [] st = (0, st)"
| "acquire_all env (p # ps) st =
     (case acquire_target env p st of
        (ok, st1) \<Rightarrow> if ok then acquire_all env ps st1 else (negative_error SX_EINVAL, st1))"

fun acquire_first :: "stream_env \<Rightarrow> nat \<Rightarrow> obj_ptr list \<Rightarrow> kobj_state \<Rightarrow> int \<times> kobj_state" where
  "acquire_first env i [] st = (negative_error SX_EINVAL, st)"
| "acquire_first env i (p # ps) st =
     (case acquire_target env p st of
        (ok, st1) \<Rightarrow> if ok then (int i, st1) else acquire_first env (Suc i) ps st1)"

definition consume_object_wait :: "stream_env \<Rightarrow> wait_state \<Rightarrow> kobj_state \<Rightarrow> int \<times> kobj_state" where
  "consume_object_wait env w st =
     (if wt_reason w \<noteq> Wait_object \<or> wt_objects w = [] then (negative_error SX_EINVAL, st)
      else if wt_all w then acquire_all env (wt_objects w) st
      else acquire_first env 0 (wt_objects w) st)"

definition try_consume_objects ::
  "stream_env \<Rightarrow> obj_ptr list \<Rightarrow> bool \<Rightarrow> wait_state \<Rightarrow> kobj_state \<Rightarrow> int \<times> wait_state \<times> kobj_state" where
  "try_consume_objects env handles wait_all w st =
     (if handles = [] \<or> kMaxWaitHandles < length handles then (negative_error SX_EINVAL, w, st)
      else
        let w' = \<lparr>wt_reason = Wait_object, wt_objects = handles, wt_all = wait_all\<rparr> in
        if can_complete_object_wait env w' st
        then (case consume_object_wait env w' st of (r, st') \<Rightarrow> (r, w', st'))
        else (negative_error SX_EAGAIN, w', st))"

section \<open>Native calls on handles\<close>

datatype thread_run_state =
  Run_unused | Run_ready | Run_running | Run_blocked_read | Run_blocked_write | Run_blocked_wait | Run_sleeping | Run_zombie

text \<open>\<open>ti_poll\<close> is the state the POSIX layer keeps for a thread that polled: the kernel's copy of
  the request.\<close>

record poll_entry =
  pe_fd :: int
  pe_events :: u16
  pe_revents :: u16

record poll_state =
  ps_user_fds :: u64
  ps_active :: bool
  ps_entries :: "poll_entry list"

record thread_io =
  ti_process :: nat
  ti_state :: thread_run_state
  ti_wait :: wait_state
  ti_blocked_fd :: nat
  ti_buffer :: u64
  ti_length :: nat
  ti_progress :: nat
  ti_deadline :: u64
  ti_result :: int
  ti_poll :: "poll_state option"

definition fd_to_io_object :: "handle_table \<Rightarrow> kobj_state \<Rightarrow> nat \<Rightarrow> u32 \<Rightarrow> nat option" where
  "fd_to_io_object hs st fd desired =
     (case lookup_handle hs fd desired of None \<Rightarrow> None | Some p \<Rightarrow> as_io st p)"

definition clear_wait_state :: "thread_io \<Rightarrow> thread_io" where
  "clear_wait_state t = t\<lparr>ti_wait := \<lparr>wt_reason = Wait_none, wt_objects = [], wt_all = False\<rparr>, ti_deadline := 0\<rparr>"

text \<open>\<^verbatim>\<open>try_consume_objects\<close> clears the thread's wait, its deadline included, unless it refuses the
  number of handles.\<close>

definition begin_object_wait ::
  "stream_env \<Rightarrow> u64 \<Rightarrow> obj_ptr list \<Rightarrow> bool \<Rightarrow> int \<Rightarrow> thread_io \<Rightarrow> kobj_state \<Rightarrow> int \<times> thread_io \<times> kobj_state" where
  "begin_object_wait env now handles wait_all timeout_ms self st =
     (case try_consume_objects env handles wait_all (ti_wait self) st of
        (consumed, w, st1) \<Rightarrow>
          let self1 = (if handles = [] \<or> kMaxWaitHandles < length handles then self
                       else (clear_wait_state self)\<lparr>ti_wait := w\<rparr>) in
          if consumed \<noteq> negative_error SX_EAGAIN then (consumed, self1, st1)
          else if timeout_ms = 0 then (negative_error SX_ETIMEDOUT, clear_wait_state self1, st1)
          else (kBlockedResult,
                self1\<lparr>ti_deadline := (if 0 < timeout_ms then now + of_int timeout_ms else 0),
                  ti_state := Run_blocked_wait\<rparr>, st1))"

text \<open>Device reads and writes go to the driver: \<open>device_io\<close> is its result.\<close>

definition native_read ::
  "(u64 \<Rightarrow> nat \<Rightarrow> bool) \<Rightarrow> (nat option \<Rightarrow> u64 \<Rightarrow> nat \<Rightarrow> int) \<Rightarrow> nat \<Rightarrow> u64 \<Rightarrow> nat \<Rightarrow> handle_table \<Rightarrow> thread_io
    \<Rightarrow> kobj_state \<Rightarrow> int \<times> u8 list \<times> thread_io \<times> kobj_state" where
  "native_read wr_ok device_io handle buffer cnt hs self st =
     (case fd_to_io_object hs st handle access_read of
        None \<Rightarrow> (negative_error SX_EBADF, [], self, st)
      | Some i \<Rightarrow>
          let f = k_ios st ! i in
          if io_open_flags f AND open_read = 0 then (negative_error SX_EBADF, [], self, st)
          else if cnt = 0 then (0, [], self, st)
          else if \<not> wr_ok buffer cnt then (negative_error SX_EINVAL, [], self, st)
          else if io_kind f = Kind_device then (device_io (io_device f) buffer cnt, [], self, st)
          else if io_kind f \<noteq> Kind_pipe then (negative_error SX_EBADF, [], self, st)
          else (case try_pipe_read wr_ok buffer cnt (io_pipe f) st of
              (result, bytes, st1) \<Rightarrow>
                if result \<noteq> kBlockedResult then (result, bytes, self, st1)
                else if io_open_flags f AND open_nonblock \<noteq> 0 then (negative_error SX_EAGAIN, [], self, st1)
                else (kBlockedResult, [], self\<lparr>ti_blocked_fd := handle, ti_buffer := buffer, ti_length := cnt,
                        ti_state := Run_blocked_read\<rparr>, st1)))"

definition native_write ::
  "(u64 \<Rightarrow> nat \<Rightarrow> u8 list option) \<Rightarrow> (nat option \<Rightarrow> u64 \<Rightarrow> nat \<Rightarrow> int) \<Rightarrow> nat \<Rightarrow> u64 \<Rightarrow> nat \<Rightarrow> handle_table \<Rightarrow> thread_io
    \<Rightarrow> kobj_state \<Rightarrow> (int \<times> thread_io \<times> kobj_state) option" where
  "native_write rd device_io handle buffer cnt hs self st =
     (case fd_to_io_object hs st handle access_write of
        None \<Rightarrow> Some (negative_error SX_EBADF, self, st)
      | Some i \<Rightarrow>
          let f = k_ios st ! i in
          if io_open_flags f AND open_write = 0 then Some (negative_error SX_EBADF, self, st)
          else if cnt = 0 then Some (0, self, st)
          else if rd buffer cnt = None then Some (negative_error SX_EINVAL, self, st)
          else if io_kind f = Kind_device then Some (device_io (io_device f) buffer cnt, self, st)
          else if io_kind f \<noteq> Kind_pipe \<or> io_pipe f = None then Some (negative_error SX_EBADF, self, st)
          else
            let q = the (io_pipe f); p = k_pipes st ! q;
                nonblocking = (io_open_flags f AND open_nonblock \<noteq> 0) in
            if nonblocking \<and> cnt \<le> kPipeCapacity \<and> pi_reader_refs p \<noteq> 0 \<and> kPipeCapacity - pi_size p < cnt
            then Some (negative_error SX_EAGAIN, self, st)
            else (case pipe_write_chunk rd buffer cnt 0 q st of
                None \<Rightarrow> None
              | Some (step, st1) \<Rightarrow>
                  if step = kBlockedResult \<and> nonblocking then Some (negative_error SX_EAGAIN, self, st1)
                  else if step < 0 \<and> step \<noteq> kBlockedResult then Some (step, self, st1)
                  else if step \<noteq> kBlockedResult \<and> (step = int cnt \<or> nonblocking) then Some (step, self, st1)
                  else Some (kBlockedResult, self\<lparr>ti_blocked_fd := handle, ti_buffer := buffer, ti_length := cnt,
                      ti_progress := (if step = kBlockedResult then 0 else nat step),
                      ti_state := Run_blocked_write\<rparr>, st1)))"

definition native_set_nonblocking :: "nat \<Rightarrow> bool \<Rightarrow> handle_table \<Rightarrow> kobj_state \<Rightarrow> int \<times> kobj_state" where
  "native_set_nonblocking handle on hs st =
     (case fd_to_io_object hs st handle access_query of
        None \<Rightarrow> (negative_error SX_EBADF, st)
      | Some i \<Rightarrow>
          let f = k_ios st ! i in
          if io_kind f \<noteq> Kind_pipe \<and> io_kind f \<noteq> Kind_device then (negative_error SX_EBADF, st)
          else (0, st\<lparr>k_ios := (k_ios st)[i := f\<lparr>io_open_flags :=
                  (if on then io_open_flags f OR open_nonblock
                   else io_open_flags f AND NOT open_nonblock)\<rparr>]\<rparr>))"

definition native_pipe_send_handle :: "nat \<Rightarrow> nat \<Rightarrow> handle_table \<Rightarrow> kobj_state \<Rightarrow> int \<times> kobj_state" where
  "native_pipe_send_handle pipe_handle handle hs st =
     (case fd_to_io_object hs st pipe_handle access_write of
        None \<Rightarrow> (negative_error SX_EBADF, st)
      | Some i \<Rightarrow>
          let f = k_ios st ! i in
          if io_kind f \<noteq> Kind_pipe \<or> io_pipe f = None \<or> io_open_flags f AND open_write = 0
          then (negative_error SX_EBADF, st)
          else (case lookup_handle hs handle access_none of
              None \<Rightarrow> (negative_error SX_EBADF, st)
            | Some target \<Rightarrow>
                let q = the (io_pipe f); p = k_pipes st ! q in
                if hd_type (k_hdr st target) = Ty_io \<or> hd_type (k_hdr st target) = Ty_port
                then (negative_error SX_EINVAL, st)
                else if pi_reader_refs p = 0 then (negative_error SX_EPIPE, st)
                else if kPipeHandleQueueCapacity \<le> pi_handle_count p then (negative_error SX_EAGAIN, st)
                else
                  let tail = (pi_handle_head p + pi_handle_count p) mod kPipeHandleQueueCapacity
                  in (0, upd_pipe q (\<lambda>p. p\<lparr>pi_handles := (pi_handles p)[tail := Some target],
                        pi_handle_access := (pi_handle_access p)[tail := he_access (hs ! handle)],
                        pi_handle_count := pi_handle_count p + 1\<rparr>) (obj_retain target st))))"

definition native_pipe_receive_handle :: "nat \<Rightarrow> handle_table \<Rightarrow> kobj_state \<Rightarrow> int \<times> handle_table \<times> kobj_state" where
  "native_pipe_receive_handle pipe_handle hs st =
     (case fd_to_io_object hs st pipe_handle access_read of
        None \<Rightarrow> (negative_error SX_EBADF, hs, st)
      | Some i \<Rightarrow>
          let f = k_ios st ! i in
          if io_kind f \<noteq> Kind_pipe \<or> io_pipe f = None \<or> io_open_flags f AND open_read = 0
          then (negative_error SX_EBADF, hs, st)
          else
            let q = the (io_pipe f); p = k_pipes st ! q; h = pi_handle_head p in
            if pi_handle_count p = 0 then (negative_error SX_EAGAIN, hs, st)
            else (case allocate_fd (pi_handles p ! h) (pi_handle_access p ! h) 0 hs st of
                (handle, hs1, st1) \<Rightarrow>
                  if handle < 0 then (handle, hs1, st1)
                  else (handle, hs1, upd_pipe q (\<lambda>p. p\<lparr>pi_handles := (pi_handles p)[h := None],
                      pi_handle_access := (pi_handle_access p)[h := 0],
                      pi_handle_head := (h + 1) mod kPipeHandleQueueCapacity,
                      pi_handle_count := pi_handle_count p - 1\<rparr>) (obj_release (pi_handles p ! h) st1))))"

text \<open>In the calls that take user pointers, \<open>copy_ok\<close> says whether the result could be
  copied out, and a name is \<open>None\<close> when it could not be copied in.\<close>

definition close_if_open :: "int \<Rightarrow> handle_table \<times> kobj_state \<Rightarrow> handle_table \<times> kobj_state" where
  "close_if_open h hst = (if 0 \<le> h then snd (native_close (nat h) (fst hst) (snd hst)) else hst)"

definition native_pipe_create :: "bool \<Rightarrow> bool \<Rightarrow> handle_table \<Rightarrow> kobj_state \<Rightarrow> int \<times> handle_table \<times> kobj_state" where
  "native_pipe_create range_ok copy_ok hs st =
     (if \<not> range_ok then (negative_error SX_EINVAL, hs, st)
      else case create_pipe_pair st of
        (None, st1) \<Rightarrow> (negative_error SX_ENOMEM, hs, st1)
      | (Some (r, w), st1) \<Rightarrow>
          (case allocate_fd (Some (Io_at r)) (object_access_for_open_flags open_read) 0 hs st1 of
             (rh, hs1, st2) \<Rightarrow>
               (case (if rh < 0 then (rh, hs1, st2)
                      else allocate_fd (Some (Io_at w)) (object_access_for_open_flags open_write) 0 hs1 st2) of
                  (wh, hs2, st3) \<Rightarrow>
                    let st4 = obj_release (Some (Io_at w)) (obj_release (Some (Io_at r)) st3) in
                    if rh < 0 \<or> wh < 0 \<or> \<not> copy_ok
                    then (if rh < 0 then rh else if wh < 0 then wh else negative_error SX_EINVAL,
                          close_if_open wh (close_if_open rh (hs2, st4)))
                    else (0, hs2, st4))))"

definition native_port_create ::
  "string option \<Rightarrow> credentials \<Rightarrow> handle_table \<Rightarrow> kobj_state \<Rightarrow> int \<times> handle_table \<times> kobj_state" where
  "native_port_create user_name who hs st =
     (case user_name of
        None \<Rightarrow> (negative_error SX_EINVAL, hs, st)
      | Some name \<Rightarrow>
          if name = [] then (negative_error SX_EINVAL, hs, st)
          else if find_port name st \<noteq> None then (negative_error SX_EEXIST, hs, st)
          else (case create_port name st of
              (None, st1) \<Rightarrow> (negative_error SX_ENOMEM, hs, st1)
            | (Some i, st1) \<Rightarrow>
                let st2 = st1\<lparr>k_ports := (k_ports st1)[i := (k_ports st1 ! i)\<lparr>po_creator := who\<rparr>]\<rparr> in
                (case allocate_fd (Some (Port_at i)) (access_query OR access_synchronize) 0 hs st2 of
                   (h, hs1, st3) \<Rightarrow>
                     if h < 0 then (h, hs1, obj_release (Some (Port_at i)) (obj_retain (Port_at i) st3))
                     else (h, hs1, st3))))"

definition native_port_accept ::
  "nat \<Rightarrow> bool \<Rightarrow> bool \<Rightarrow> handle_table \<Rightarrow> kobj_state \<Rightarrow> int \<times> (u32 \<times> int \<times> int \<times> credentials) option \<times> handle_table \<times> kobj_state" where
  "native_port_accept port_handle range_ok copy_ok hs st =
     (case lookup_handle hs port_handle access_query of
        Some (Port_at i) \<Rightarrow>
          if hd_type (k_hdr st (Port_at i)) \<noteq> Ty_port then (negative_error SX_EBADF, None, hs, st)
          else if \<not> range_ok then (negative_error SX_EINVAL, None, hs, st)
          else (case port_dequeue i st of
              (None, st1) \<Rightarrow> (negative_error SX_EAGAIN, None, hs, st1)
            | (Some c, st1) \<Rightarrow>
                (case allocate_fd (pc_server_read c) (object_access_for_open_flags open_read) 0 hs st1 of
                   (rh, hs1, st2) \<Rightarrow>
                     (case (if rh < 0 then (rh, hs1, st2)
                            else allocate_fd (pc_server_write c) (object_access_for_open_flags open_write) 0 hs1 st2) of
                        (wh, hs2, st3) \<Rightarrow>
                          let st4 = obj_release (pc_server_write c) (obj_release (pc_server_read c) st3) in
                          if rh < 0 \<or> wh < 0
                          then (if rh < 0 then rh else wh, None, close_if_open rh (hs2, st4))
                          else if \<not> copy_ok
                          then (negative_error SX_EINVAL, None, close_if_open wh (close_if_open rh (hs2, st4)))
                          else (0, Some (pc_client_pid c, rh, wh, pc_client c), hs2, st4))))
      | _ \<Rightarrow> (negative_error SX_EBADF, None, hs, st))"

definition native_port_connect ::
  "string option \<Rightarrow> bool \<Rightarrow> bool \<Rightarrow> u32 \<Rightarrow> credentials \<Rightarrow> handle_table \<Rightarrow> kobj_state \<Rightarrow> int \<times> handle_table \<times> kobj_state" where
  "native_port_connect user_name range_ok copy_ok pid who hs st =
     (case user_name of
        None \<Rightarrow> (negative_error SX_EINVAL, hs, st)
      | Some name \<Rightarrow>
          if name = [] \<or> \<not> range_ok then (negative_error SX_EINVAL, hs, st)
          else (case find_port name st of
              None \<Rightarrow> (negative_error SX_ENOENT, hs, st)
            | Some i \<Rightarrow>
                if kPortPendingCapacity \<le> po_pending_count (k_ports st ! i) then (negative_error SX_EAGAIN, hs, st)
                else (case create_pipe_pair st of
                    (None, st1) \<Rightarrow> (negative_error SX_ENOMEM, hs, st1)
                  | (Some (req_r, req_w), st1) \<Rightarrow>
                      (case create_pipe_pair st1 of
                         (None, st2) \<Rightarrow> (negative_error SX_ENOMEM, hs,
                             obj_release (Some (Io_at req_w)) (obj_release (Some (Io_at req_r)) st2))
                       | (Some (rep_r, rep_w), st2) \<Rightarrow>
                           (case allocate_fd (Some (Io_at req_w)) (object_access_for_open_flags open_write) 0 hs st2 of
                              (wh, hs1, st3) \<Rightarrow>
                                (case (if wh < 0 then (wh, hs1, st3)
                                       else allocate_fd (Some (Io_at rep_r)) (object_access_for_open_flags open_read) 0 hs1 st3) of
                                   (rh, hs2, st4) \<Rightarrow>
                                     let st5 = obj_release (Some (Io_at rep_r)) (obj_release (Some (Io_at req_w)) st4);
                                         c = \<lparr>pc_client_pid = pid, pc_client = who,
                                              pc_server_read = Some (Io_at req_r), pc_server_write = Some (Io_at rep_w)\<rparr>;
                                         fail = (\<lambda>st. case close_if_open rh (close_if_open wh (hs2, st)) of
                                              (hs3, st6) \<Rightarrow> (if wh < 0 then wh else if rh < 0 then rh else negative_error SX_EAGAIN,
                                                 hs3, obj_release (Some (Io_at rep_w)) (obj_release (Some (Io_at req_r)) st6)))
                                     in if wh < 0 \<or> rh < 0 \<or> \<not> copy_ok then fail st5
                                        else (case port_enqueue i c st5 of
                                            (ok, st6) \<Rightarrow> if ok then (0, hs2, calls (Wake_object (Port_at i)) st6) else fail st6)))))))"

definition native_wait_targets :: "int list option \<Rightarrow> handle_table \<Rightarrow> kobj_state \<Rightarrow> int + obj_ptr list" where
  "native_wait_targets raw hs st =
     (case raw of
        None \<Rightarrow> Inl (negative_error SX_EINVAL)
      | Some fds \<Rightarrow>
          if fds = [] \<or> kMaxWaitHandles < length fds then Inl (negative_error SX_EINVAL)
          else
            foldl (\<lambda>acc fd. case acc of
                Inl e \<Rightarrow> Inl e
              | Inr ps \<Rightarrow>
                  if fd < 0 then Inl (negative_error SX_EBADF)
                  else (case lookup_handle hs (nat fd) access_synchronize of
                      None \<Rightarrow> Inl (negative_error SX_EBADF)
                    | Some p \<Rightarrow> if is_wait_target st p then Inr (ps @ [p]) else Inl (negative_error SX_EINVAL)))
              (Inr []) fds)"

section \<open>A pipe is a byte queue\<close>




lemma kPipeCapacity_pos [simp]: "0 < kPipeCapacity"
  by (simp add: kPipeCapacity_def)







lemma take_take_if: "take n (take k xs) = take (if n < k then n else k) xs"
  by (simp add: min_def)





text \<open>The caller's memory, as \<^verbatim>\<open>read_from_process_memory\<close> sees it: a range is either read
  whole or refused.\<close>

definition user_bytes :: "(u64 \<Rightarrow> u8) \<Rightarrow> u64 \<Rightarrow> nat \<Rightarrow> u8 list" where
  "user_bytes m a n = map (\<lambda>k. m (a + of_nat k)) [0..<n]"


lemma length_user_bytes [simp]: "length (user_bytes m a n) = n"
  by (simp add: user_bytes_def)




















section \<open>Waits\<close>

lemma acquire_target_ready:
  assumes "target_ready env st p"
  shows "acquire_target env p st = (True, if is_waitable st p \<and> \<not> hd_manual_reset (k_hdr st p)
    then upd_hdr p (hd_signal_count_update (\<lambda>n. n - 1)) st else st)"
  using assms by (simp add: acquire_target_def target_ready_def try_acquire_wait_def)

lemma acquire_target_not_ready:
  "\<not> target_ready env st p \<Longrightarrow> acquire_target env p st = (False, st)"
  by (auto simp: acquire_target_def target_ready_def try_acquire_wait_def split: if_splits)

lemma target_ready_other:
  assumes "p \<noteq> r"
  shows "target_ready env (upd_hdr r f st) p = target_ready env st p"
  using assms by (simp add: target_ready_def is_waitable_def can_satisfy_wait_def stream_ready_def as_io_def
    poll_open_file_def open_file_can_read_def open_file_can_write_def open_file_has_hangup_def
    split: obj_ptr.split cong: option.case_cong handle_kind.case_cong)

text \<open>What completing a wait takes from the headers of the objects in \<open>ps\<close>.\<close>

definition taken :: "obj_ptr set \<Rightarrow> (obj_ptr \<Rightarrow> obj_header) \<Rightarrow> obj_ptr \<Rightarrow> obj_header" where
  "taken ps hdr p = (if p \<in> ps \<and> hd_waitable (hdr p) \<and> \<not> hd_manual_reset (hdr p)
     then (hdr p)\<lparr>hd_signal_count := hd_signal_count (hdr p) - 1\<rparr> else hdr p)"

lemma acquire_all_distinct:
  "distinct ps \<Longrightarrow> list_all (target_ready env st) ps \<Longrightarrow>
    acquire_all env ps st = (0, st\<lparr>k_hdr := taken (set ps) (k_hdr st)\<rparr>)"
proof (induction ps arbitrary: st)
  case Nil
  have "taken {} (k_hdr st) = k_hdr st" by (simp add: taken_def fun_eq_iff)
  then show ?case by simp
next
  case (Cons p ps)
  let ?st1 = "if is_waitable st p \<and> \<not> hd_manual_reset (k_hdr st p)
    then upd_hdr p (hd_signal_count_update (\<lambda>n. n - 1)) st else st"
  have "x \<noteq> p" if "x \<in> set ps" for x using that Cons.prems(1) by auto
  then have "list_all (target_ready env ?st1) ps"
    using Cons.prems(2) by (simp add: list_all_iff target_ready_other)
  then have "acquire_all env ps ?st1 = (0, ?st1\<lparr>k_hdr := taken (set ps) (k_hdr ?st1)\<rparr>)"
    using Cons.IH Cons.prems(1) by simp
  moreover have "taken (set ps) (k_hdr ?st1) = taken (set (p # ps)) (k_hdr st)"
    using Cons.prems(1) by (auto simp: taken_def fun_eq_iff is_waitable_def)
  moreover have "acquire_target env p st = (True, ?st1)"
    using Cons.prems(2) by (intro acquire_target_ready) simp
  ultimately show ?case by simp
qed

lemma acquire_first_spec:
  "list_ex (target_ready env st) ps \<Longrightarrow>
    \<exists>k < length ps. target_ready env st (ps ! k) \<and> (\<forall>j < k. \<not> target_ready env st (ps ! j)) \<and>
      acquire_first env i ps st = (int (i + k), st\<lparr>k_hdr := taken {ps ! k} (k_hdr st)\<rparr>)"
proof (induction ps arbitrary: i)
  case Nil
  then show ?case by simp
next
  case (Cons p ps)
  show ?case
  proof (cases "target_ready env st p")
    case True
    moreover have "st\<lparr>k_hdr := taken {p} (k_hdr st)\<rparr> = snd (acquire_target env p st)"
      using True by (auto simp: acquire_target_ready taken_def fun_eq_iff is_waitable_def intro!: kobj_state.fold_congs)
    ultimately show ?thesis by (intro exI [of _ 0]) (simp add: acquire_target_ready)
  next
    case False
    with Cons.prems have "list_ex (target_ready env st) ps" by simp
    from Cons.IH [OF this, of "Suc i"] obtain k where k: "k < length ps" "target_ready env st (ps ! k)"
      "\<forall>j < k. \<not> target_ready env st (ps ! j)"
      "acquire_first env (Suc i) ps st = (int (Suc i + k), st\<lparr>k_hdr := taken {ps ! k} (k_hdr st)\<rparr>)" by blast
    then show ?thesis using False
      by (intro exI [of _ "Suc k"]) (auto simp: acquire_target_not_ready less_Suc_eq_0_disj)
  qed
qed

lemma release_retain:
  "hd_refcount (k_hdr st p) \<noteq> 0 \<Longrightarrow> hd_refcount (k_hdr st p) + 1 \<noteq> 0 \<Longrightarrow>
    obj_release (Some p) (obj_retain p st) = st"
  by (simp add: obj_release_def release_with_def obj_retain_def Let_def fun_upd_idem)

section \<open>Correctness of pipes, waits and handles\<close>





text \<open>C9. Waiting for all of several distinct objects is atomic: \<^verbatim>\<open>try_consume_objects\<close> either
  reports \<^verbatim>\<open>EAGAIN\<close> and takes nothing, when some target is not ready, or succeeds and takes
  exactly one signal from each auto-reset target, leaving manual-reset ones, streams and every
  other object alone. It never fails half way.\<close>

theorem wait_all_atomic:
  assumes "hs \<noteq> []" and "length hs \<le> kMaxWaitHandles" and "distinct hs"
  shows "try_consume_objects env hs True w st =
    (let w' = \<lparr>wt_reason = Wait_object, wt_objects = hs, wt_all = True\<rparr> in
     if list_all (target_ready env st) hs
     then (0, w', st\<lparr>k_hdr := taken (set hs) (k_hdr st)\<rparr>)
     else (negative_error SX_EAGAIN, w', st))"
  using assms
  by (simp add: try_consume_objects_def can_complete_object_wait_def consume_object_wait_def Let_def
      acquire_all_distinct)

text \<open>Waiting for any of several objects returns the index of the first one that is ready
  and takes one signal from that object only; when none is ready it reports \<^verbatim>\<open>EAGAIN\<close> and
  changes no object.\<close>

theorem wait_any_first:
  assumes "hs \<noteq> []" and "length hs \<le> kMaxWaitHandles"
  shows "case find_slot (target_ready env st) hs of
      None \<Rightarrow> fst (try_consume_objects env hs False w st) = negative_error SX_EAGAIN \<and>
        snd (snd (try_consume_objects env hs False w st)) = st
    | Some k \<Rightarrow> fst (try_consume_objects env hs False w st) = int k \<and>
        snd (snd (try_consume_objects env hs False w st)) = st\<lparr>k_hdr := taken {hs ! k} (k_hdr st)\<rparr>"
proof (cases "list_ex (target_ready env st) hs")
  case True
  from acquire_first_spec [OF this, of 0] obtain k where k: "k < length hs" "target_ready env st (hs ! k)"
    "\<forall>j < k. \<not> target_ready env st (hs ! j)"
    "acquire_first env 0 hs st = (int k, st\<lparr>k_hdr := taken {hs ! k} (k_hdr st)\<rparr>)" by auto
  then have "find_slot (target_ready env st) hs = Some k" by (intro find_slot_eqI) simp_all
  with k True assms show ?thesis
    by (simp add: try_consume_objects_def can_complete_object_wait_def consume_object_wait_def Let_def)
next
  case False
  then have "find_slot (target_ready env st) hs = None" by (simp add: find_slot_None_iff list_ex_iff)
  with False assms show ?thesis
    by (simp add: try_consume_objects_def can_complete_object_wait_def Let_def)
qed

definition wait_env :: stream_env where
  "wait_env = \<lparr>tty_line_ready = False, device_can_read = (\<lambda>_. False), socket_can_read = (\<lambda>_. False),
     socket_can_write = (\<lambda>_. False), socket_has_hangup = (\<lambda>_. False)\<rparr>"

definition idle_wait :: wait_state where
  "idle_wait = \<lparr>wt_reason = Wait_none, wt_objects = [], wt_all = False\<rparr>"

text \<open>Two auto-reset events, the second one set.\<close>

definition two_events :: kobj_state where
  "two_events = set_event 1 (snd (create_event False False (snd (create_event False False kobj_example))))"

lemma two_events_ready:
  "target_ready wait_env two_events (Event_at 0) = False" "target_ready wait_env two_events (Event_at 1) = True"
  by (simp_all add: two_events_def create_event_def set_event_def kobj_example_def target_ready_def
    is_waitable_def can_satisfy_wait_def zero_header_def)

theorem wait_all_atomic_witness:
  "snd (snd (try_consume_objects wait_env [Event_at 0, Event_at 1] True idle_wait two_events)) = two_events"
  using wait_all_atomic [where hs = "[Event_at 0, Event_at 1]" and env = wait_env and w = idle_wait and st = two_events]
  by (simp add: kMaxWaitHandles_def two_events_ready Let_def)

theorem wait_any_first_witness:
  "fst (try_consume_objects wait_env [Event_at 0, Event_at 1] False idle_wait two_events) = 1"
  using wait_any_first [where hs = "[Event_at 0, Event_at 1]" and env = wait_env and w = idle_wait and st = two_events]
  by (simp add: kMaxWaitHandles_def two_events_ready del: One_nat_def)

text \<open>C36. The distinctness in the atomic wait is needed: a wait for all of a list that names a
  signalled auto-reset object twice finds both entries ready, takes the single signal for the
  first, fails on the second and returns \<^verbatim>\<open>EINVAL\<close> with the signal lost. Nothing in
  \<^verbatim>\<open>native_wait_targets\<close> rejects such a list.\<close>

theorem wait_all_duplicate_loses_signal:
  assumes "hd_waitable (k_hdr st p)" and "\<not> hd_manual_reset (k_hdr st p)" and "hd_signal_count (k_hdr st p) = 1"
    and "lookup_handle hs h access_synchronize = Some p"
  shows "native_wait_targets (Some [int h, int h]) hs st = Inr [p, p] \<and>
    (\<exists>w' st'. try_consume_objects env [p, p] True w st = (negative_error SX_EINVAL, w', st') \<and>
      hd_signal_count (k_hdr st' p) = 0)"
  using assms
  by (simp add: native_wait_targets_def is_wait_target_def is_waitable_def kMaxWaitHandles_def
    try_consume_objects_def can_complete_object_wait_def consume_object_wait_def Let_def
    target_ready_def can_satisfy_wait_def acquire_target_def try_acquire_wait_def)

definition handle_example :: handle_table where
  "handle_example = (replicate kMaxFileHandles clear_handle_entry)
     [0 := \<lparr>he_object = Some (Event_at 1), he_access = 0xff, he_flags = 0\<rparr>]"

theorem wait_all_duplicate_loses_signal_witness:
  "\<exists>w' st'. try_consume_objects wait_env [Event_at 1, Event_at 1] True idle_wait two_events
     = (negative_error SX_EINVAL, w', st') \<and> hd_signal_count (k_hdr st' (Event_at 1)) = 0"
  using wait_all_duplicate_loses_signal [of two_events "Event_at 1" handle_example 0 wait_env idle_wait]
  by (simp add: two_events_def create_event_def set_event_def kobj_example_def zero_header_def
    lookup_handle_def handle_example_def kMaxFileHandles_def access_synchronize_def)

text \<open>C24. Duplicating a handle and closing the duplicate changes nothing: the table, every
  object and every reference count are what they were. The object is referenced, as the handle
  that was duplicated holds a reference, and free slots are cleared.\<close>

theorem duplicate_then_close:
  assumes "length hs = kMaxFileHandles"
    and "\<forall>e\<in>set hs. he_object e = None \<longrightarrow> e = clear_handle_entry"
    and "lookup_handle hs h access_query = Some p"
    and "hd_refcount (k_hdr st p) \<noteq> 0" and "hd_refcount (k_hdr st p) + 1 \<noteq> 0"
    and "native_duplicate h hs st = (fd, hs', st')" and "0 \<le> fd"
  shows "native_close (nat fd) hs' st' = (0, hs, st) \<and> he_access (hs' ! nat fd) = he_access (hs ! h) \<and>
    lookup_handle hs' (nat fd) access_query = Some p"
proof -
  from assms(3,6,7) obtain i where i: "find_slot (\<lambda>e. he_object e = None) hs = Some i"
    by (auto simp: native_duplicate_def allocate_fd_def allocate_fd_slot_def sx_consts split: option.splits)
  have il: "i < kMaxFileHandles" "he_object (hs ! i) = None" using find_slot_SomeD [OF i] assms(1) by auto
  then have clr: "hs ! i = clear_handle_entry" using assms(1,2) nth_mem by metis
  let ?e = "\<lparr>he_object = Some p, he_access = he_access (hs ! h), he_flags = he_flags (hs ! h)\<rparr>"
  have d: "fd = int i" "hs' = hs[i := ?e]" "st' = obj_retain p st"
    using assms(3,6) i il by (auto simp: native_duplicate_def allocate_fd_def allocate_fd_slot_def install_handle_def Let_def)
  have "obj_release (Some p) (obj_retain p st) = st"
    using assms(4,5) by (rule release_retain)
  moreover have "hs[i := clear_handle_entry] = hs" using clr by (metis list_update_id)
  moreover have "he_access (hs ! h) AND access_query = access_query" using assms(3) by (auto simp: lookup_handle_def split: if_splits)
  ultimately show ?thesis using d il assms(1) by (simp add: native_close_def lookup_handle_def)
qed

lemma handle_example_free: "find_slot (\<lambda>e. he_object e = None) handle_example = Some 1"
  by (rule find_slot_eqI) (simp_all add: handle_example_def kMaxFileHandles_def clear_handle_entry_def)

lemma handle_example_wf:
  "length handle_example = kMaxFileHandles" "\<forall>e\<in>set handle_example. he_object e = None \<longrightarrow> e = clear_handle_entry"
  by (auto simp: handle_example_def kMaxFileHandles_def in_set_conv_nth nth_list_update)

theorem duplicate_then_close_witness:
  "\<exists>fd hs' st'. native_duplicate 0 handle_example (obj_retain (Event_at 1) two_events) = (fd, hs', st') \<and>
     native_close (nat fd) hs' st' = (0, handle_example, obj_retain (Event_at 1) two_events)"
proof -
  let ?st = "obj_retain (Event_at 1) two_events"
  have l: "lookup_handle handle_example 0 access_query = Some (Event_at 1)"
    by (simp add: lookup_handle_def handle_example_def kMaxFileHandles_def access_query_def)
  have r: "hd_refcount (k_hdr ?st (Event_at 1)) = 1"
    by (simp add: obj_retain_def two_events_def create_event_def set_event_def kobj_example_def zero_header_def)
  obtain fd hs' st' where d: "native_duplicate 0 handle_example ?st = (fd, hs', st')" by (metis prod_cases3)
  have "0 \<le> fd" using d l handle_example_free
    by (auto simp: native_duplicate_def allocate_fd_def allocate_fd_slot_def install_handle_def kMaxFileHandles_def Let_def)
  from duplicate_then_close [OF handle_example_wf l _ _ d this] r d show ?thesis by simp
qed

text \<open>The life of an event: created, put in a handle table and closed again, it leaves
  nothing behind. The table is as before, the slot of the event table is free again and the
  header is zero, so the last close destroys the object and no earlier step leaks it.\<close>

theorem event_created_and_closed:
  assumes "create_event manual init st = (Some e, st1)"
    and "allocate_fd (Some (Event_at e)) access flags hs st1 = (fd, hs1, st2)" and "0 \<le> fd"
    and "length hs = kMaxFileHandles" and "\<forall>x\<in>set hs. he_object x = None \<longrightarrow> x = clear_handle_entry"
  shows "native_close (nat fd) hs1 st2 = (0, hs, set_hdr (Event_at e) zero_header st)"
proof -
  from assms(2,3) obtain i where i: "find_slot (\<lambda>e. he_object e = None) hs = Some i"
    by (auto simp: allocate_fd_def allocate_fd_slot_def sx_consts split: option.splits)
  have il: "i < kMaxFileHandles" "he_object (hs ! i) = None" using find_slot_SomeD [OF i] assms(4) by auto
  then have clr: "hs[i := clear_handle_entry] = hs" using assms(4,5) nth_mem by (metis list_update_id)
  have d: "fd = int i" "hs1 = hs[i := \<lparr>he_object = Some (Event_at e), he_access = access, he_flags = flags\<rparr>]"
    "st2 = obj_retain (Event_at e) st1"
    using assms(2) i il by (auto simp: allocate_fd_def allocate_fd_slot_def install_handle_def Let_def)
  from assms(1) have e: "find_slot (\<lambda>in_use. \<not> in_use) (k_events st) = Some e"
    by (auto simp: create_event_def split: option.splits)
  from find_slot_SomeD [OF e] have "(k_events st)[e := False] = k_events st" by (metis (full_types) list_update_id)
  with assms(1) e have "obj_release (Some (Event_at e)) (obj_retain (Event_at e) st1) = set_hdr (Event_at e) zero_header st"
    by (auto simp: create_event_def obj_release_def release_with_def obj_retain_def destroy_event_def zero_header_def)
  with d il clr assms(4) show ?thesis by (simp add: native_close_def)
qed

theorem event_created_and_closed_witness:
  "\<exists>fd hs1 st2. allocate_fd (Some (Event_at 0)) 0xff 0 handle_example (snd (create_event True False kobj_example)) = (fd, hs1, st2)
     \<and> native_close (nat fd) hs1 st2 = (0, handle_example, set_hdr (Event_at 0) zero_header kobj_example)"
proof -
  have c: "create_event True False kobj_example = (Some 0, snd (create_event True False kobj_example))"
    by (simp add: create_event_def kobj_example_def)
  obtain fd hs1 st2 where a: "allocate_fd (Some (Event_at 0)) 0xff 0 handle_example
      (snd (create_event True False kobj_example)) = (fd, hs1, st2)" by (metis prod_cases3)
  have "0 \<le> fd" using a handle_example_free
    by (auto simp: allocate_fd_def allocate_fd_slot_def install_handle_def kMaxFileHandles_def Let_def)
  from event_created_and_closed [OF c a this handle_example_wf] a show ?thesis by blast
qed

definition queue_ready :: "pipe_object \<Rightarrow> bool" where
  "queue_ready p \<longleftrightarrow> length (pi_handles p) = kPipeHandleQueueCapacity \<and>
     length (pi_handle_access p) = kPipeHandleQueueCapacity \<and> pi_handle_head p < kPipeHandleQueueCapacity"

text \<open>C23. Passing a handle through a pipe: when a process sends a handle on a pipe whose handle
  queue is empty and the process at the other end receives it, the receiver gets a handle to the
  same object with the sender's access rights and no more, the object has exactly one more
  reference, and the queue is empty again, so the transit reference is neither leaked nor
  dropped.\<close>

theorem send_then_receive_handle:
  assumes st: "q < length (k_pipes st)" "queue_ready (k_pipes st ! q)" "pi_handle_count (k_pipes st ! q) = 0"
    and sender: "fd_to_io_object sender st wp access_write = Some i" "io_pipe (k_ios st ! i) = Some q"
      "lookup_handle sender h access_none = Some target"
    and sent: "native_pipe_send_handle wp h sender st = (0, st1)"
    and receiver: "fd_to_io_object receiver st rp access_read = Some j" "io_pipe (k_ios st ! j) = Some q"
      "io_kind (k_ios st ! j) = Kind_pipe" "io_open_flags (k_ios st ! j) AND open_read \<noteq> 0"
      "length receiver = kMaxFileHandles" "find_slot (\<lambda>e. he_object e = None) receiver = Some k"
    and refs: "hd_refcount (k_hdr st target) + 1 \<noteq> 0" "hd_refcount (k_hdr st target) + 2 \<noteq> 0"
  shows "\<exists>st'. native_pipe_receive_handle rp receiver st1 =
      (int k, receiver[k := \<lparr>he_object = Some target, he_access = he_access (sender ! h), he_flags = 0\<rparr>], st') \<and>
    k_hdr st' = (k_hdr st)(target := (k_hdr st target)\<lparr>hd_refcount := hd_refcount (k_hdr st target) + 1\<rparr>) \<and>
    pi_handle_count (k_pipes st' ! q) = 0"
proof -
  let ?p = "k_pipes st ! q"
  let ?h = "pi_handle_head ?p"
  let ?p1 = "?p\<lparr>pi_handles := (pi_handles ?p)[?h := Some target],
    pi_handle_access := (pi_handle_access ?p)[?h := he_access (sender ! h)], pi_handle_count := 1\<rparr>"
  have q: "length (pi_handles ?p) = kPipeHandleQueueCapacity" "length (pi_handle_access ?p) = kPipeHandleQueueCapacity"
    "?h < kPipeHandleQueueCapacity" using st(2) by (simp_all add: queue_ready_def)
  have st1: "st1 = upd_pipe q (\<lambda>_. ?p1) (obj_retain target st)"
    using sent sender st(3) q
    by (auto simp: native_pipe_send_handle_def Let_def sx_consts obj_retain_def split: if_splits)
  have look: "fd_to_io_object receiver st1 rp access_read = Some j"
    using receiver(1) by (auto simp: st1 fd_to_io_object_def as_io_def obj_retain_def split: option.splits obj_ptr.splits)
  have k: "k < kMaxFileHandles" "he_object (receiver ! k) = None"
    using find_slot_SomeD [OF receiver(6)] receiver(5) by auto
  have fd: "allocate_fd (Some target) a 0 receiver s =
      (int k, receiver[k := \<lparr>he_object = Some target, he_access = a, he_flags = 0\<rparr>], obj_retain target s)" for a s
    using receiver(6) k by (simp add: allocate_fd_def allocate_fd_slot_def install_handle_def Let_def)
  have f1: "k_ios st1 = k_ios st" "k_pipes st1 ! q = ?p1" "q < length (k_pipes st1)"
    using st(1) by (simp_all add: st1 obj_retain_def)
  have f2: "k_hdr st1 = (k_hdr st)(target := (k_hdr st target)\<lparr>hd_refcount := hd_refcount (k_hdr st target) + 1\<rparr>)"
    by (cases "k_hdr st target") (simp add: st1 obj_retain_def)
  have rel: "obj_release (Some target) (obj_retain target st1) = st1"
    using refs by (intro release_retain) (simp_all add: f2 add.commute)
  show ?thesis
    using receiver(2,3,4) q
    by (simp add: native_pipe_receive_handle_def look Let_def f1 fd rel f2 [symmetric])
qed

definition sender_example :: handle_table where
  "sender_example = handle_example[1 := \<lparr>he_object = Some (Io_at 1), he_access = 0xff, he_flags = 0\<rparr>]"

definition receiver_example :: handle_table where
  "receiver_example = handle_example[0 := \<lparr>he_object = Some (Io_at 0), he_access = 0xff, he_flags = 0\<rparr>]"

definition transfer_example :: kobj_state where
  "transfer_example = snd (create_pipe_pair two_events)"

lemma transfer_example_facts:
  "k_pipes transfer_example = [\<lparr>pi_in_use = True, pi_reader_refs = 1, pi_writer_refs = 1, pi_read_pos = 0,
     pi_write_pos = 0, pi_size = 0, pi_buffer = replicate kPipeCapacity 0,
     pi_handles = replicate kPipeHandleQueueCapacity None, pi_handle_access = replicate kPipeHandleQueueCapacity 0,
     pi_handle_head = 0, pi_handle_count = 0\<rparr>]"
  "k_ios transfer_example = [zero_io\<lparr>io_in_use := True, io_kind := Kind_pipe, io_open_flags := open_read, io_pipe := Some 0\<rparr>,
     zero_io\<lparr>io_in_use := True, io_kind := Kind_pipe, io_open_flags := open_write, io_pipe := Some 0\<rparr>]"
  "hd_type (k_hdr transfer_example (Io_at 0)) = Ty_io" "hd_type (k_hdr transfer_example (Io_at 1)) = Ty_io"
  "k_hdr transfer_example (Event_at 1) = k_hdr two_events (Event_at 1)"
  by (simp_all add: transfer_example_def create_pipe_pair_def allocate_pipe_def allocate_io_object_def two_events_def
    create_event_def set_event_def kobj_example_def make_pipe_end_def obj_retain_def clear_pipe_def zero_io_def)

theorem send_then_receive_handle_witness:
  "\<exists>st'. native_pipe_receive_handle 0 receiver_example (snd (native_pipe_send_handle 1 0 sender_example transfer_example)) =
      (1, receiver_example[1 := \<lparr>he_object = Some (Event_at 1), he_access = 0xff, he_flags = 0\<rparr>], st')"
proof -
  let ?st = transfer_example
  have ev: "hd_type (k_hdr ?st (Event_at 1)) = Ty_event" "hd_refcount (k_hdr ?st (Event_at 1)) = 0"
    unfolding transfer_example_facts
    by (simp_all add: two_events_def create_event_def set_event_def kobj_example_def zero_header_def)
  have s: "fd_to_io_object sender_example ?st 1 access_write = Some 1" "io_pipe (k_ios ?st ! 1) = Some 0"
    "lookup_handle sender_example 0 access_none = Some (Event_at 1)"
    by (simp_all add: fd_to_io_object_def lookup_handle_def sender_example_def handle_example_def kMaxFileHandles_def
      access_write_def access_none_def as_io_def transfer_example_facts del: One_nat_def)
  have r: "fd_to_io_object receiver_example ?st 0 access_read = Some 0" "io_pipe (k_ios ?st ! 0) = Some 0"
    "io_kind (k_ios ?st ! 0) = Kind_pipe" "io_open_flags (k_ios ?st ! 0) AND open_read \<noteq> 0"
    "length receiver_example = kMaxFileHandles"
    by (simp_all add: fd_to_io_object_def lookup_handle_def receiver_example_def handle_example_def kMaxFileHandles_def
      access_read_def as_io_def transfer_example_facts open_read_def)
  have k: "find_slot (\<lambda>e. he_object e = None) receiver_example = Some 1"
    by (rule find_slot_eqI) (simp_all add: receiver_example_def handle_example_def kMaxFileHandles_def clear_handle_entry_def)
  have q: "0 < length (k_pipes ?st)" "queue_ready (k_pipes ?st ! 0)" "pi_handle_count (k_pipes ?st ! 0) = 0"
    by (simp_all add: transfer_example_facts queue_ready_def kPipeHandleQueueCapacity_def)
  have "fst (native_pipe_send_handle 1 0 sender_example ?st) = 0"
    using s ev by (simp add: native_pipe_send_handle_def Let_def transfer_example_facts(1,2) open_write_def
      kPipeHandleQueueCapacity_def del: One_nat_def)
  then have "native_pipe_send_handle 1 0 sender_example ?st = (0, snd (native_pipe_send_handle 1 0 sender_example ?st))"
    by (metis prod.collapse)
  from send_then_receive_handle [OF q s this r k] ev show ?thesis
    by (auto simp: sender_example_def handle_example_def kMaxFileHandles_def)
qed

end
