(* ===== verification/Kernel_Wait.thy ===== *)
theory Kernel_Wait
  imports Kernel_Handle
begin

text \<open>
  How blocked threads wake up: \<^verbatim>\<open>wake_waiters_for_object\<close>, \<^verbatim>\<open>recheck_parked_threads\<close> and the
  expiry of deadlines of \<^verbatim>\<open>kernel/process.cpp\<close>, and the timers of \<^verbatim>\<open>kernel/object.cpp\<close> with the
  function every caller of \<^verbatim>\<open>poll_timers\<close> passes.

  The used slots of the thread table are a list of threads. The scheduler's own fields (time
  slice, pending reschedule) are not part of a thread here. The subsystem that parked a thread
  looks at it through a hook, \<^verbatim>\<open>subsystem::recheck_parked_thread\<close>; the one hook there is belongs
  to the POSIX layer, which completes a \<^verbatim>\<open>poll\<close> (\<^verbatim>\<open>posix_translation.cpp\<close>).
\<close>

section \<open>Waking\<close>

definition complete_blocked_wait :: "thread_io \<Rightarrow> int \<Rightarrow> thread_io" where
  "complete_blocked_wait t result = (clear_wait_state t)\<lparr>ti_result := result, ti_state := Run_ready\<rparr>"

text \<open>The loop over \<^verbatim>\<open>used_thread_slots\<close>.\<close>

fun over_threads :: "(thread_io \<Rightarrow> kobj_state \<Rightarrow> thread_io \<times> kobj_state) \<Rightarrow> thread_io list \<Rightarrow> kobj_state
    \<Rightarrow> thread_io list \<times> kobj_state" where
  "over_threads f [] st = ([], st)"
| "over_threads f (t # ts) st =
     (case f t st of (t1, st1) \<Rightarrow> case over_threads f ts st1 of (ts1, st2) \<Rightarrow> (t1 # ts1, st2))"

definition wake_waiter :: "stream_env \<Rightarrow> obj_ptr \<Rightarrow> thread_io \<Rightarrow> kobj_state \<Rightarrow> thread_io \<times> kobj_state" where
  "wake_waiter env p t st =
     (if ti_state t \<noteq> Run_blocked_wait \<or> wt_reason (ti_wait t) \<noteq> Wait_object then (t, st)
      else if p \<notin> set (wt_objects (ti_wait t)) \<or> \<not> can_complete_object_wait env (ti_wait t) st then (t, st)
      else (case consume_object_wait env (ti_wait t) st of
          (result, st1) \<Rightarrow> if result < 0 then (t, st1) else (complete_blocked_wait t result, st1)))"

text \<open>What the hook sees of a process: its handles, whether it is a POSIX process, and whether a range
  of its memory, where the array of a poll request goes back to, can be written.\<close>

record process_view =
  pv_handles :: "nat \<Rightarrow> handle_table"
  pv_posix :: "nat \<Rightarrow> bool"
  pv_writable :: "nat \<Rightarrow> u64 \<Rightarrow> nat \<Rightarrow> bool"

definition evaluate_poll_entry :: "stream_env \<Rightarrow> kobj_state \<Rightarrow> handle_table \<Rightarrow> poll_entry \<Rightarrow> poll_entry" where
  "evaluate_poll_entry env st hs e =
     (let e0 = e\<lparr>pe_revents := 0\<rparr> in
      if pe_fd e < 0 then e0
      else case fd_to_io_object hs st (nat (pe_fd e)) access_synchronize of
        Some i \<Rightarrow> e0\<lparr>pe_revents := poll_open_file env st (Some i) (pe_events e)\<rparr>
      | None \<Rightarrow>
          if pe_events e AND POLLIN \<noteq> 0
          then (case lookup_handle hs (nat (pe_fd e)) access_synchronize of
              None \<Rightarrow> e0
            | Some p \<Rightarrow> if can_satisfy_wait p st then e0\<lparr>pe_revents := POLLIN\<rparr> else e0)
          else e0)"

definition evaluate_poll_entries :: "stream_env \<Rightarrow> kobj_state \<Rightarrow> handle_table \<Rightarrow> poll_state \<Rightarrow> int \<times> poll_state" where
  "evaluate_poll_entries env st hs s =
     (let es = map (evaluate_poll_entry env st hs) (ps_entries s)
      in (int (length (filter (\<lambda>e. pe_revents e \<noteq> 0) es)), s\<lparr>ps_entries := es\<rparr>))"

definition commit_poll_entries :: "(u64 \<Rightarrow> nat \<Rightarrow> bool) \<Rightarrow> poll_state \<Rightarrow> bool" where
  "commit_poll_entries wr_ok s \<longleftrightarrow> ps_entries s = [] \<or> wr_ok (ps_user_fds s) (length (ps_entries s) * 8)"

definition recheck_parked_poll :: "stream_env \<Rightarrow> process_view \<Rightarrow> u64 \<Rightarrow> bool \<Rightarrow> kobj_state \<Rightarrow> thread_io \<Rightarrow> thread_io" where
  "recheck_parked_poll env pv now honour_deadline st t =
     (case ti_poll t of
        None \<Rightarrow> t
      | Some s \<Rightarrow>
          if \<not> ps_active s then t
          else (case evaluate_poll_entries env st (pv_handles pv (ti_process t)) s of
              (ready, s1) \<Rightarrow>
                if ready = 0 \<and> \<not> (honour_deadline \<and> ti_deadline t \<noteq> 0 \<and> ti_deadline t \<le> now)
                then t\<lparr>ti_poll := Some s1\<rparr>
                else complete_blocked_wait
                  (t\<lparr>ti_poll := Some (s1\<lparr>ps_user_fds := 0, ps_active := False, ps_entries := []\<rparr>)\<rparr>)
                  (if commit_poll_entries (pv_writable pv (ti_process t)) s1 then ready else negative_error SX_EINVAL)))"

definition recheck_parked_thread :: "stream_env \<Rightarrow> process_view \<Rightarrow> u64 \<Rightarrow> bool \<Rightarrow> kobj_state \<Rightarrow> thread_io \<Rightarrow> thread_io" where
  "recheck_parked_thread env pv now honour_deadline st t =
     (if pv_posix pv (ti_process t) then recheck_parked_poll env pv now honour_deadline st t else t)"

definition recheck_parked ::
  "stream_env \<Rightarrow> process_view \<Rightarrow> u64 \<Rightarrow> bool \<Rightarrow> thread_io \<Rightarrow> kobj_state \<Rightarrow> thread_io \<times> kobj_state" where
  "recheck_parked env pv now honour_deadline t st =
     (if ti_state t \<noteq> Run_blocked_wait \<or> wt_reason (ti_wait t) = Wait_address then (t, st)
      else if wt_reason (ti_wait t) = Wait_object \<and> can_complete_object_wait env (ti_wait t) st
      then (case consume_object_wait env (ti_wait t) st of
          (result, st1) \<Rightarrow>
            if 0 \<le> result then (complete_blocked_wait t result, st1) else (recheck_parked_thread env pv now honour_deadline st1 t, st1))
      else (recheck_parked_thread env pv now honour_deadline st t, st))"

definition recheck_parked_threads ::
  "stream_env \<Rightarrow> process_view \<Rightarrow> u64 \<Rightarrow> bool \<Rightarrow> thread_io list \<times> kobj_state \<Rightarrow> thread_io list \<times> kobj_state" where
  "recheck_parked_threads env pv now honour_deadline = (\<lambda>(ts, st). over_threads (recheck_parked env pv now honour_deadline) ts st)"

definition wake_waiters_for_object ::
  "stream_env \<Rightarrow> process_view \<Rightarrow> obj_ptr \<Rightarrow> thread_io list \<times> kobj_state \<Rightarrow> thread_io list \<times> kobj_state" where
  "wake_waiters_for_object env pv p =
     (\<lambda>(ts, st). if \<not> is_waitable st p then (ts, st)
        else recheck_parked_threads env pv 0 False (over_threads (wake_waiter env p) ts st))"

definition wake_sleepers :: "u64 \<Rightarrow> thread_io list \<Rightarrow> thread_io list" where
  "wake_sleepers now = map (\<lambda>t.
     if ti_state t \<noteq> Run_sleeping \<or> now < ti_deadline t then t
     else t\<lparr>ti_deadline := 0, ti_result := 0, ti_state := Run_ready\<rparr>)"

definition wake_wait_timeouts :: "u64 \<Rightarrow> thread_io list \<Rightarrow> thread_io list" where
  "wake_wait_timeouts now = map (\<lambda>t.
     if ti_state t \<noteq> Run_blocked_wait \<or>
        wt_reason (ti_wait t) \<noteq> Wait_object \<and> wt_reason (ti_wait t) \<noteq> Wait_address \<or>
        ti_deadline t = 0 \<or> now < ti_deadline t then t
     else complete_blocked_wait t (negative_error SX_ETIMEDOUT))"

text \<open>\<open>env\<close> is the readiness of the streams after the call of \<^verbatim>\<open>net::poll\<close>.\<close>

definition wake_parked_waiters ::
  "stream_env \<Rightarrow> process_view \<Rightarrow> u64 \<Rightarrow> thread_io list \<times> kobj_state \<Rightarrow> thread_io list \<times> kobj_state" where
  "wake_parked_waiters env pv now = (\<lambda>(ts, st).
     if \<not> list_ex (\<lambda>t. ti_state t = Run_blocked_wait) ts then (ts, st)
     else recheck_parked_threads env pv now True (ts, st))"

text \<open>What \<^verbatim>\<open>handle_timer_tick\<close> of the first core does for threads that wait: timers, sleepers,
  deadlines, parked threads. \<open>env\<close> and \<open>env'\<close> are the streams before and after \<^verbatim>\<open>net::poll\<close>.\<close>

definition tick_wakes ::
  "stream_env \<Rightarrow> stream_env \<Rightarrow> process_view \<Rightarrow> u64 \<Rightarrow> thread_io list \<times> kobj_state \<Rightarrow> (thread_io list \<times> kobj_state) option" where
  "tick_wakes env env' pv now ws =
     (case poll_timers (Some (wake_waiters_for_object env pv)) now ws of
        None \<Rightarrow> None
      | Some (ts, st) \<Rightarrow> Some (wake_parked_waiters env' pv now (wake_wait_timeouts now (wake_sleepers now ts), st)))"

section \<open>Consuming signals\<close>

text \<open>All that waking does to the objects: signal counts go down.\<close>

definition drains :: "kobj_state \<Rightarrow> kobj_state \<Rightarrow> bool" where
  "drains st st' \<longleftrightarrow> st' = st\<lparr>k_hdr := k_hdr st'\<rparr> \<and>
     (\<forall>p. (k_hdr st' p)\<lparr>hd_signal_count := 0\<rparr> = (k_hdr st p)\<lparr>hd_signal_count := 0\<rparr> \<and>
        hd_signal_count (k_hdr st' p) \<le> hd_signal_count (k_hdr st p))"

lemma drains_refl [simp]: "drains st st"
  by (simp add: drains_def)

lemma drains_trans:
  assumes "drains a b" and "drains b c"
  shows "drains a c"
proof -
  obtain f g where "b = a\<lparr>k_hdr := f\<rparr>" "c = b\<lparr>k_hdr := g\<rparr>" using assms unfolding drains_def by blast
  then have "c = a\<lparr>k_hdr := k_hdr c\<rparr>" by simp
  moreover have "(k_hdr c p)\<lparr>hd_signal_count := 0\<rparr> = (k_hdr a p)\<lparr>hd_signal_count := 0\<rparr> \<and>
      hd_signal_count (k_hdr c p) \<le> hd_signal_count (k_hdr a p)" for p
  proof -
    have "(k_hdr b p)\<lparr>hd_signal_count := 0\<rparr> = (k_hdr a p)\<lparr>hd_signal_count := 0\<rparr>"
      "(k_hdr c p)\<lparr>hd_signal_count := 0\<rparr> = (k_hdr b p)\<lparr>hd_signal_count := 0\<rparr>"
      "hd_signal_count (k_hdr b p) \<le> hd_signal_count (k_hdr a p)" "hd_signal_count (k_hdr c p) \<le> hd_signal_count (k_hdr b p)"
      using assms unfolding drains_def by blast+
    then show ?thesis by simp
  qed
  ultimately show ?thesis unfolding drains_def by blast
qed

lemma drains_same:
  assumes "drains st st'"
  shows "k_ios st' = k_ios st" "k_pipes st' = k_pipes st" "k_timers st' = k_timers st"
    and "hd_type (k_hdr st' p) = hd_type (k_hdr st p)" "is_waitable st' p = is_waitable st p"
    and "hd_signal_count (k_hdr st' p) \<le> hd_signal_count (k_hdr st p)"
proof -
  obtain f where "st' = st\<lparr>k_hdr := f\<rparr>" using assms unfolding drains_def by blast
  then show "k_ios st' = k_ios st" "k_pipes st' = k_pipes st" "k_timers st' = k_timers st" by simp_all
  have h: "(k_hdr st' p)\<lparr>hd_signal_count := 0\<rparr> = (k_hdr st p)\<lparr>hd_signal_count := 0\<rparr>" using assms unfolding drains_def by blast
  show "hd_type (k_hdr st' p) = hd_type (k_hdr st p)" using arg_cong [OF h, of hd_type] by simp
  show "is_waitable st' p = is_waitable st p" using arg_cong [OF h, of hd_waitable] by (simp add: is_waitable_def)
  show "hd_signal_count (k_hdr st' p) \<le> hd_signal_count (k_hdr st p)" using assms unfolding drains_def by blast
qed

lemma drains_ready:
  assumes "drains st st'" and "target_ready env st' p"
  shows "target_ready env st p"
proof -
  note s = drains_same [OF assms(1)]
  have "as_io st' p = as_io st p" using s(4) by (simp add: as_io_def split: obj_ptr.split)
  then have "stream_ready env st' p = stream_ready env st p"
    using s(1,2) by (simp add: stream_ready_def poll_open_file_def open_file_can_read_def open_file_can_write_def
      open_file_has_hangup_def cong: option.case_cong handle_kind.case_cong)
  then show ?thesis using assms(2) s(5) [of p] s(6) [of p]
    by (auto simp: target_ready_def can_satisfy_wait_def is_waitable_def split: if_splits)
qed

lemma drains_can_complete:
  "drains st st' \<Longrightarrow> can_complete_object_wait env w st' \<Longrightarrow> can_complete_object_wait env w st"
  using drains_ready [of st st' env] by (auto simp: can_complete_object_wait_def list_all_iff list_ex_iff split: if_splits)

lemma acquire_target_drains:
  assumes "acquire_target env p st = (ok, st')"
  shows "drains st st'" and "\<not> ok \<Longrightarrow> st' = st \<and> \<not> target_ready env st p"
proof -
  have "drains st (upd_hdr p (hd_signal_count_update (\<lambda>n. n - 1)) st)"
    by (simp add: drains_def)
  then show "drains st st'" using assms acquire_target_ready [of env st p] acquire_target_not_ready [of env st p]
    by (cases "target_ready env st p") (auto split: if_splits)
  show "st' = st \<and> \<not> target_ready env st p" if "\<not> ok"
    using that assms acquire_target_ready [of env st p] acquire_target_not_ready [of env st p]
    by (cases "target_ready env st p") auto
qed

lemma acquire_all_drains:
  "acquire_all env ps st = (r, st') \<Longrightarrow> drains st st' \<and> (r < 0 \<longrightarrow> \<not> list_all (target_ready env st') ps)"
proof (induction ps arbitrary: st)
  case (Cons p ps)
  obtain ok st1 where a: "acquire_target env p st = (ok, st1)" by fastforce
  show ?case
  proof (cases ok)
    case True
    then have "acquire_all env ps st1 = (r, st')" using Cons.prems a by simp
    from Cons.IH [OF this] show ?thesis using acquire_target_drains(1) [OF a] drains_trans by auto
  next
    case False
    then show ?thesis using Cons.prems a acquire_target_drains(2) [OF a] by auto
  qed
qed simp

lemma acquire_first_drains:
  "acquire_first env i ps st = (r, st') \<Longrightarrow> drains st st' \<and> (r < 0 \<longrightarrow> \<not> list_ex (target_ready env st') ps)"
proof (induction ps arbitrary: i)
  case (Cons p ps)
  obtain ok st1 where a: "acquire_target env p st = (ok, st1)" by fastforce
  show ?case
  proof (cases ok)
    case True
    then show ?thesis using Cons.prems a acquire_target_drains(1) [OF a] by auto
  next
    case False
    note n = acquire_target_drains(2) [OF a False]
    then have "acquire_first env (Suc i) ps st = (r, st')" using Cons.prems a False by simp
    from Cons.IH [OF this] n show ?thesis using drains_ready by auto
  qed
qed simp

lemma consume_drains:
  assumes "consume_object_wait env w st = (r, st')"
  shows "drains st st'" and "r < 0 \<Longrightarrow> \<not> can_complete_object_wait env w st'"
  using assms acquire_all_drains [of env "wt_objects w" st r st'] acquire_first_drains [of env 0 "wt_objects w" st r st']
  by (auto simp: consume_object_wait_def can_complete_object_wait_def split: if_splits)

section \<open>Walking the thread table\<close>

text \<open>A thread left behind: blocked in a wait on objects that could complete.\<close>

definition left_behind :: "stream_env \<Rightarrow> kobj_state \<Rightarrow> thread_io \<Rightarrow> bool" where
  "left_behind env st t \<longleftrightarrow> ti_state t = Run_blocked_wait \<and> can_complete_object_wait env (ti_wait t) st"

definition polls :: "thread_io \<Rightarrow> bool" where
  "polls t \<longleftrightarrow> (case ti_poll t of None \<Rightarrow> False | Some s \<Rightarrow> ps_active s)"

text \<open>A poll left behind: parked although its deadline has passed or something it asked for is
  ready.\<close>

definition poll_left_behind :: "stream_env \<Rightarrow> process_view \<Rightarrow> u64 \<Rightarrow> kobj_state \<Rightarrow> thread_io \<Rightarrow> bool" where
  "poll_left_behind env pv now st t \<longleftrightarrow>
     ti_state t = Run_blocked_wait \<and> wt_reason (ti_wait t) \<noteq> Wait_address \<and> pv_posix pv (ti_process t) \<and> polls t \<and>
     (ti_deadline t \<noteq> 0 \<and> ti_deadline t \<le> now \<or>
      fst (evaluate_poll_entries env st (pv_handles pv (ti_process t)) (the (ti_poll t))) \<noteq> 0)"

text \<open>What waking does to a thread: nothing but the readiness in its poll request, or a thread that
  waited becomes ready.\<close>

definition woken :: "thread_io \<Rightarrow> thread_io \<Rightarrow> bool" where
  "woken t t' \<longleftrightarrow> t' = t \<or>
     ti_state t = Run_blocked_wait \<and> (\<exists>s. t' = t\<lparr>ti_poll := s\<rparr>) \<or>
     (ti_state t = Run_sleeping \<or> ti_state t = Run_blocked_wait) \<and> ti_state t' = Run_ready"

lemma woken_refl: "list_all2 woken ts ts"
  by (simp add: woken_def list.rel_refl)

lemma woken_trans: "list_all2 woken as bs \<Longrightarrow> list_all2 woken bs cs \<Longrightarrow> list_all2 woken as cs"
proof (rule list_all2_trans)
  fix a b c assume "woken a b" and "woken b c"
  then show "woken a c" unfolding woken_def by (elim disjE exE conjE) (simp_all, blast+)
qed

lemma complete_ready [simp]: "ti_state (complete_blocked_wait t r) = Run_ready"
  by (simp add: complete_blocked_wait_def)

lemma wake_waiter_step:
  assumes "wake_waiter env p t st = (t', st')"
  shows "drains st st'" and "woken t t'"
  using assms consume_drains(1) by (auto simp: wake_waiter_def woken_def split: if_splits prod.splits)

lemma recheck_drains: "recheck_parked env pv now h t st = (t', st') \<Longrightarrow> drains st st'"
  using consume_drains(1) by (auto simp: recheck_parked_def split: if_splits prod.splits)

text \<open>What the hook does to a parked thread.\<close>

lemma recheck_hook_cases:
  obtains (same) "recheck_parked_thread env pv now h st t = t" "\<not> pv_posix pv (ti_process t) \<or> \<not> polls t"
    | (parked) s where "pv_posix pv (ti_process t)" "ti_poll t = Some s" "ps_active s"
        "fst (evaluate_poll_entries env st (pv_handles pv (ti_process t)) s) = 0"
        "\<not> (h \<and> ti_deadline t \<noteq> 0 \<and> ti_deadline t \<le> now)"
        "recheck_parked_thread env pv now h st t =
          t\<lparr>ti_poll := Some (snd (evaluate_poll_entries env st (pv_handles pv (ti_process t)) s))\<rparr>"
    | (ready) "ti_state (recheck_parked_thread env pv now h st t) = Run_ready"
proof (cases "pv_posix pv (ti_process t) \<and> polls t")
  case True
  then obtain s where s: "ti_poll t = Some s" "ps_active s" by (auto simp: polls_def split: option.splits)
  obtain r s1 where e: "evaluate_poll_entries env st (pv_handles pv (ti_process t)) s = (r, s1)" by fastforce
  show ?thesis
  proof (cases "r = 0 \<and> \<not> (h \<and> ti_deadline t \<noteq> 0 \<and> ti_deadline t \<le> now)")
    case idle: True
    with True s e show ?thesis by (intro parked) (auto simp: recheck_parked_thread_def recheck_parked_poll_def)
  next
    case False
    with True s e show ?thesis by (intro ready) (auto simp: recheck_parked_thread_def recheck_parked_poll_def)
  qed
next
  case False
  then show ?thesis using same
    by (auto simp: recheck_parked_thread_def recheck_parked_poll_def polls_def split: option.splits)
qed

lemma evaluate_again:
  "fst (evaluate_poll_entries env st hs (snd (evaluate_poll_entries env st' hs s))) = fst (evaluate_poll_entries env st hs s)"
proof -
  have v: "\<exists>v. evaluate_poll_entry env st' hs e = e\<lparr>pe_revents := v\<rparr>" for e
    by (auto simp: evaluate_poll_entry_def Let_def split: option.splits)
  have "evaluate_poll_entry env st hs (e\<lparr>pe_revents := v\<rparr>) = evaluate_poll_entry env st hs e" for e v
    by (simp add: evaluate_poll_entry_def Let_def cong: option.case_cong)
  then have "evaluate_poll_entry env st hs (evaluate_poll_entry env st' hs e) = evaluate_poll_entry env st hs e" for e
    using v [of e] by metis
  then show ?thesis by (simp add: evaluate_poll_entries_def Let_def comp_def)
qed

lemma hook_step:
  fixes env pv now h st t
  defines "t' \<equiv> recheck_parked_thread env pv now h st t"
  assumes "ti_state t = Run_blocked_wait"
  shows "woken t t'" and "\<not> can_complete_object_wait env (ti_wait t) st \<Longrightarrow> \<not> left_behind env st t'"
    and "h \<Longrightarrow> \<not> poll_left_behind env pv now st t'"
  unfolding t'_def
  by (cases rule: recheck_hook_cases [of env pv now h st t],
    use assms(2) in \<open>auto simp: woken_def left_behind_def poll_left_behind_def polls_def evaluate_again\<close>)+

lemma recheck_step:
  assumes "recheck_parked env pv now h t st = (t', st')"
  shows "woken t t'" and "\<not> left_behind env st' t'" and "h \<Longrightarrow> \<not> poll_left_behind env pv now st' t'"
proof -
  obtain r st1 where c: "consume_object_wait env (ti_wait t) st = (r, st1)" by fastforce
  have obj: "wt_reason (ti_wait t) = Wait_object" if "can_complete_object_wait env (ti_wait t) s" for s
    using that by (auto simp: can_complete_object_wait_def split: if_splits)
  consider (idle) "ti_state t \<noteq> Run_blocked_wait \<or> wt_reason (ti_wait t) = Wait_address" "t' = t"
    | (completes) "ti_state t = Run_blocked_wait" "t' = complete_blocked_wait t r"
    | (hook) "ti_state t = Run_blocked_wait" "t' = recheck_parked_thread env pv now h st' t"
        "\<not> can_complete_object_wait env (ti_wait t) st'"
  proof (cases "ti_state t \<noteq> Run_blocked_wait \<or> wt_reason (ti_wait t) = Wait_address")
    case True
    then show ?thesis using assms by (intro idle) (auto simp: recheck_parked_def)
  next
    case b: False
    show ?thesis
    proof (cases "can_complete_object_wait env (ti_wait t) st")
      case True
      then have e: "t' = (if 0 \<le> r then complete_blocked_wait t r else recheck_parked_thread env pv now h st1 t) \<and> st' = st1"
        using assms b c obj [OF True] by (cases "0 \<le> r", simp_all add: recheck_parked_def)
      show ?thesis
      proof (cases "0 \<le> r")
        case True
        then show ?thesis using b e by (intro completes) simp_all
      next
        case False
        then show ?thesis using b e consume_drains(2) [OF c] by (intro hook) simp_all
      qed
    next
      case False
      then have "t' = recheck_parked_thread env pv now h st t \<and> st' = st" using assms b by (auto simp: recheck_parked_def)
      then show ?thesis using b False by (intro hook) simp_all
    qed
  qed
  then have "woken t t' \<and> \<not> left_behind env st' t' \<and> (h \<longrightarrow> \<not> poll_left_behind env pv now st' t')"
  proof cases
    case idle
    then show ?thesis using obj by (auto simp: woken_def left_behind_def poll_left_behind_def)
  next
    case completes
    then show ?thesis by (simp add: woken_def left_behind_def poll_left_behind_def)
  next
    case hook
    then show ?thesis using hook_step [where env = env and pv = pv and now = now and h = h and st = st' and t = t] by simp
  qed
  then show "woken t t'" "\<not> left_behind env st' t'" "h \<Longrightarrow> \<not> poll_left_behind env pv now st' t'" by simp_all
qed

lemma left_behind_drains: "drains st st' \<Longrightarrow> left_behind env st' t \<Longrightarrow> left_behind env st t"
  using drains_can_complete by (auto simp: left_behind_def)

lemma drains_evaluate:
  assumes "drains st st'" and "fst (evaluate_poll_entries env st' hs s) \<noteq> 0"
  shows "fst (evaluate_poll_entries env st hs s) \<noteq> 0"
proof -
  note d = drains_same [OF assms(1)]
  have io: "fd_to_io_object hs st' fd a = fd_to_io_object hs st fd a" for fd a
    using d(4) by (simp add: fd_to_io_object_def as_io_def split: option.split obj_ptr.split)
  have poll: "poll_open_file env st' f ev = poll_open_file env st f ev" for f ev
    using d(1,2) by (simp add: poll_open_file_def open_file_can_read_def open_file_can_write_def
      open_file_has_hangup_def cong: option.case_cong handle_kind.case_cong)
  have sat: "can_satisfy_wait p st" if "can_satisfy_wait p st'" for p
    using that d(5) [of p] d(6) [of p] by (auto simp: can_satisfy_wait_def is_waitable_def)
  have "pe_revents (evaluate_poll_entry env st hs e) \<noteq> 0" if "pe_revents (evaluate_poll_entry env st' hs e) \<noteq> 0" for e
    using that sat by (auto simp: evaluate_poll_entry_def io poll Let_def split: option.splits if_splits)
  then show ?thesis using assms(2) by (auto simp: evaluate_poll_entries_def Let_def filter_empty_conv)
qed

lemma poll_left_behind_drains: "drains st st' \<Longrightarrow> poll_left_behind env pv now st' t \<Longrightarrow> poll_left_behind env pv now st t"
  using drains_evaluate by (auto simp: poll_left_behind_def)

lemma over_threads_drains:
  assumes "\<And>t st t' st'. f t st = (t', st') \<Longrightarrow> drains st st'"
  shows "over_threads f ts st = (ts', st') \<Longrightarrow> drains st st'"
proof (induction ts arbitrary: st ts')
  case (Cons t ts)
  then show ?case using assms drains_trans by (fastforce split: prod.splits)
qed simp

lemma over_threads_woken:
  assumes "\<And>t st t' st'. f t st = (t', st') \<Longrightarrow> woken t t'"
  shows "list_all2 woken ts (fst (over_threads f ts st))"
proof (induction ts arbitrary: st)
  case (Cons t ts)
  obtain t1 st1 where f: "f t st = (t1, st1)" by fastforce
  then show ?case using assms Cons [of st1] by (auto split: prod.splits)
qed simp

lemma recheck_threads:
  "recheck_parked_threads env pv now h (ts, st) = (ts', st') \<Longrightarrow>
    drains st st' \<and> list_all2 woken ts ts' \<and> (\<forall>t\<in>set ts'. \<not> left_behind env st' t) \<and>
    (h \<longrightarrow> (\<forall>t\<in>set ts'. \<not> poll_left_behind env pv now st' t))"
proof (induction ts arbitrary: st ts')
  case (Cons t ts)
  obtain t1 st1 where f: "recheck_parked env pv now h t st = (t1, st1)" by fastforce
  obtain ts1 st2 where o: "recheck_parked_threads env pv now h (ts, st1) = (ts1, st2)" by fastforce
  have e: "ts' = t1 # ts1" "st2 = st'" using Cons.prems f o by (simp_all add: recheck_parked_threads_def)
  note s = recheck_step [OF f] and ih = Cons.IH [OF o [unfolded e(2)]]
  have "\<not> left_behind env st' t1" "h \<longrightarrow> \<not> poll_left_behind env pv now st' t1"
    using s(2,3) ih left_behind_drains poll_left_behind_drains by blast+
  then show ?case using recheck_drains [OF f] s(1) ih e(1) drains_trans by auto
qed (simp add: recheck_parked_threads_def)

lemma wake_waiters_drains:
  assumes "wake_waiters_for_object env pv p (ts, st) = (ts', st')"
  shows "drains st st'"
proof (cases "is_waitable st p")
  case True
  obtain ts1 st1 where o: "over_threads (wake_waiter env p) ts st = (ts1, st1)" by fastforce
  with True assms have r: "over_threads (recheck_parked env pv 0 False) ts1 st1 = (ts', st')"
    by (simp add: wake_waiters_for_object_def recheck_parked_threads_def)
  have "drains st st1" using over_threads_drains [OF _ o] wake_waiter_step by blast
  moreover have "drains st1 st'" using over_threads_drains [OF _ r] recheck_drains by blast
  ultimately show ?thesis by (rule drains_trans)
qed (use assms in \<open>simp add: wake_waiters_for_object_def\<close>)

lemma wake_waiters_threads:
  shows "list_all2 woken (fst ws) (fst (wake_waiters_for_object env pv p ws))"
proof -
  obtain ts st where ws: "ws = (ts, st)" by fastforce
  let ?o = "over_threads (wake_waiter env p) ts st"
  have "list_all2 woken ts (fst ?o)" using over_threads_woken wake_waiter_step(2) by blast
  moreover have "list_all2 woken (fst ?o) (fst (recheck_parked_threads env pv 0 False ?o))"
    using recheck_threads [of env pv 0 False "fst ?o" "snd ?o"] by (metis prod.collapse)
  ultimately show ?thesis using woken_trans woken_refl unfolding ws wake_waiters_for_object_def by simp
qed

interpretation waker: timer_listener "wake_waiters_for_object env pv" for env pv
proof
  fix p and ws :: "thread_io list \<times> kobj_state"
  have "wake_waiters_for_object env pv p (fst ws, snd ws) =
      (fst (wake_waiters_for_object env pv p ws), snd (wake_waiters_for_object env pv p ws))" by simp
  from drains_same(3) [OF wake_waiters_drains [OF this]]
  show "k_timers (snd (wake_waiters_for_object env pv p ws)) = k_timers (snd ws)" .
qed

section \<open>Deadlines\<close>

definition expired :: "u64 \<Rightarrow> thread_io \<Rightarrow> bool" where
  "expired now t \<longleftrightarrow>
     ti_state t = Run_sleeping \<and> ti_deadline t \<le> now \<or>
     ti_state t = Run_blocked_wait \<and> (wt_reason (ti_wait t) = Wait_object \<or> wt_reason (ti_wait t) = Wait_address) \<and>
       ti_deadline t \<noteq> 0 \<and> ti_deadline t \<le> now"

lemma timeouts_expire:
  "list_all2 woken ts (wake_wait_timeouts now (wake_sleepers now ts))"
  "\<forall>t\<in>set (wake_wait_timeouts now (wake_sleepers now ts)). \<not> expired now t"
proof -
  have "list_all2 woken ts (wake_sleepers now ts)"
    by (simp add: wake_sleepers_def woken_def list_all2_map2 list.rel_refl list_all2_same)
  moreover have "list_all2 woken us (wake_wait_timeouts now us)" for us
    by (simp add: wake_wait_timeouts_def woken_def list_all2_map2 list_all2_same)
  ultimately show "list_all2 woken ts (wake_wait_timeouts now (wake_sleepers now ts))" using woken_trans by blast
  show "\<forall>t\<in>set (wake_wait_timeouts now (wake_sleepers now ts)). \<not> expired now t"
    by (auto simp: wake_wait_timeouts_def wake_sleepers_def expired_def not_le)
qed

lemma woken_expired:
  assumes "list_all2 woken ts ts'" and "\<forall>t\<in>set ts. \<not> expired now t" and "t' \<in> set ts'"
  shows "\<not> expired now t'"
proof -
  obtain t where "t \<in> set ts" "woken t t'" using assms(1,3) by (metis list_all2_conv_all_nth in_set_conv_nth)
  then show ?thesis using assms(2) by (auto simp: woken_def expired_def)
qed

lemma wake_parked_none_left:
  assumes "wake_parked_waiters env pv now (ts, st) = (ts', st')"
  shows "list_all2 woken ts ts' \<and> (\<forall>t\<in>set ts'. \<not> left_behind env st' t \<and> \<not> poll_left_behind env pv now st' t)"
proof (cases "list_ex (\<lambda>t. ti_state t = Run_blocked_wait) ts")
  case True
  then show ?thesis using assms recheck_threads [of env pv now True] by (auto simp: wake_parked_waiters_def)
next
  case False
  then show ?thesis using assms woken_refl
    by (auto simp: wake_parked_waiters_def left_behind_def poll_left_behind_def list_ex_iff)
qed

lemma polled_woken: "list_all2 woken (fst ws) (fst (foldl (waker.fired env pv now) ws js))"
proof (induction js arbitrary: ws)
  case Nil
  then show ?case by (simp add: woken_refl)
next
  case (Cons j js)
  have "list_all2 woken (fst ws) (fst (waker.fired env pv now ws j))"
    using wake_waiters_threads [of "(fst ws, signal_timer now j (snd ws))"] by (simp add: waker.fired_def)
  then show ?case using Cons woken_trans by simp
qed

section \<open>Correctness of timers and wake-ups\<close>

text \<open>C21. \<^verbatim>\<open>poll_timers\<close>, called as the kernel calls it with \<^verbatim>\<open>wake_waiters_for_object\<close>, terminates and
  fires exactly the timers that are due. For each of them, in the order of the table, the
  timer is signalled and its waiters are served, which may take the signal again, before the
  next timer is looked at. A one-shot timer is disarmed; a periodic one moves to the first
  multiple of its period past the current time, so it keeps its phase and comes due again within a
  period; every other timer is untouched. The hypothesis, that the clock plus a period stays
  below two to the 64 milliseconds, is what the loop needs to end.\<close>

theorem poll_timers_exact:
  assumes "\<forall>t\<in>set (k_timers st). unat now + unat (tm_period_ms t) < 2 ^ 64"
  shows "\<exists>ts' st'. poll_timers (Some (wake_waiters_for_object env pv)) now (ts, st) = Some (ts', st') \<and>
    (ts', st') = foldl (\<lambda>(ts, st) j. wake_waiters_for_object env pv (Timer_at j) (ts, signal_timer now j st)) (ts, st)
      (filter (\<lambda>j. timer_due now (k_timers st ! j)) [0..<length (k_timers st)]) \<and>
    k_timers st' = map (\<lambda>t. if timer_due now t then timer_next now t else t) (k_timers st) \<and>
    (\<forall>t\<in>set (k_timers st). timer_due now t \<and> tm_period_ms t \<noteq> 0 \<longrightarrow>
      now < tm_due_ms (timer_next now t) \<and> tm_due_ms (timer_next now t) \<le> now + tm_period_ms t)"
proof -
  let ?js = "filter (\<lambda>j. timer_due now (k_timers st ! j)) [0..<length (k_timers st)]"
  have f: "waker.fired env pv now = (\<lambda>(ts, st) j. wake_waiters_for_object env pv (Timer_at j) (ts, signal_timer now j st))"
    by (auto simp: fun_eq_iff waker.fired_def)
  obtain ts' st' where r: "foldl (waker.fired env pv now) (ts, st) ?js = (ts', st')" by fastforce
  have "now < tm_due_ms (timer_next now t) \<and> tm_due_ms (timer_next now t) \<le> now + tm_period_ms t"
    if "t \<in> set (k_timers st)" "timer_due now t" "tm_period_ms t \<noteq> 0" for t
    using that assms advance_due_closed(2,3) [of "tm_period_ms t" now "tm_due_ms t"] by (simp add: timer_next_def timer_due_def)
  then show ?thesis using waker.poll_timers_eq [of "(ts, st)" now env pv] assms r f
    by (intro exI [of _ ts'] exI [of _ st']) simp
qed

text \<open>Two threads that wait for the same auto-reset timer: one of them gets its signal.\<close>

definition waiting_on :: "obj_ptr \<Rightarrow> thread_io" where
  "waiting_on p = \<lparr>ti_process = 0, ti_state = Run_blocked_wait, ti_wait = \<lparr>wt_reason = Wait_object, wt_objects = [p], wt_all = False\<rparr>,
     ti_blocked_fd = 0, ti_buffer = 0, ti_length = 0, ti_progress = 0, ti_deadline = 0, ti_result = 0,
     ti_poll = None\<rparr>"

definition timer_example :: kobj_state where
  "timer_example = set_timer 1 10 100 (snd (create_timer False (snd (create_timer False kobj_example))))"

definition no_streams :: stream_env where
  "no_streams = \<lparr>tty_line_ready = False, device_can_read = (\<lambda>_. False), socket_can_read = (\<lambda>_. False),
     socket_can_write = (\<lambda>_. False), socket_has_hangup = (\<lambda>_. False)\<rparr>"

definition no_processes :: process_view where
  "no_processes = \<lparr>pv_handles = (\<lambda>_. []), pv_posix = (\<lambda>_. False), pv_writable = (\<lambda>_ _ _. False)\<rparr>"

lemmas timer_example_simps = timer_example_def set_timer_def create_timer_def kobj_example_def zero_timer_def zero_header_def Let_def

theorem poll_timers_exact_witness:
  "case poll_timers (Some (wake_waiters_for_object no_streams no_processes)) 1005
      ([waiting_on (Timer_at 1), waiting_on (Timer_at 1)], timer_example) of
     None \<Rightarrow> False
   | Some (ts, st) \<Rightarrow> map ti_state ts = [Run_ready, Run_blocked_wait] \<and> hd_signal_count (k_hdr st (Timer_at 1)) = 0 \<and>
       tm_due_ms (k_timers st ! 1) = 1010"
proof -
  have b: "\<forall>t\<in>set (k_timers timer_example). unat (1005::u64) + unat (tm_period_ms t) < 2 ^ 64"
    by (simp add: timer_example_simps)
  have js: "filter (\<lambda>j. timer_due 1005 (k_timers timer_example ! j)) [0..<length (k_timers timer_example)] = [1]"
    by (simp add: timer_example_simps timer_due_def upt_rec)
  show ?thesis using poll_timers_exact [OF b, of no_streams no_processes "[waiting_on (Timer_at 1), waiting_on (Timer_at 1)]"]
    unfolding js
    by (auto simp: wake_waiters_for_object_def recheck_parked_threads_def wake_waiter_def recheck_parked_def recheck_parked_thread_def no_processes_def
      waiting_on_def is_waitable_def can_complete_object_wait_def consume_object_wait_def target_ready_def can_satisfy_wait_def
      acquire_target_def try_acquire_wait_def complete_blocked_wait_def clear_wait_state_def signal_timer_def timer_next_def
      timer_due_def timer_example_simps)
qed

text \<open>C6. The timer tick leaves nobody behind. Whatever the threads wait for, after the tick at time
  \<open>now\<close> no thread is blocked in a wait on objects that could complete, no sleeper's time has
  come, no wait on objects or on an address is past its deadline, and no parked \<^verbatim>\<open>poll\<close> of a POSIX
  process is past its deadline or has something ready. A thread is untouched (but for the
  readiness noted in its poll request), or it was sleeping or waiting and is ready. The tick always
  returns, as long as the clock plus a timer's period stays below two to the 64 milliseconds.\<close>

theorem tick_leaves_nobody:
  assumes "\<forall>t\<in>set (k_timers st). unat now + unat (tm_period_ms t) < 2 ^ 64"
  shows "\<exists>ts' st'. tick_wakes env env' pv now (ts, st) = Some (ts', st') \<and> list_all2 woken ts ts' \<and>
    (\<forall>t\<in>set ts'. \<not> left_behind env' st' t \<and> \<not> expired now t \<and> \<not> poll_left_behind env' pv now st' t)"
proof -
  let ?js = "filter (\<lambda>j. timer_due now (k_timers st ! j)) [0..<length (k_timers st)]"
  obtain ts1 st1 where f: "foldl (waker.fired env pv now) (ts, st) ?js = (ts1, st1)" by fastforce
  then have p: "poll_timers (Some (wake_waiters_for_object env pv)) now (ts, st) = Some (ts1, st1)"
    using waker.poll_timers_eq(1) [of "(ts, st)" now env pv] assms by simp
  let ?ts2 = "wake_wait_timeouts now (wake_sleepers now ts1)"
  obtain ts' st' where w: "wake_parked_waiters env' pv now (?ts2, st1) = (ts', st')" by fastforce
  note n = wake_parked_none_left [OF w] and e = timeouts_expire [where now = now and ts = ts1]
  have "list_all2 woken ts ts1" using polled_woken [of "(ts, st)" env pv now ?js] f by simp
  then have "list_all2 woken ts ts'" using e(1) n woken_trans by blast
  moreover have "\<forall>t\<in>set ts'. \<not> expired now t" using woken_expired [OF _ e(2)] n by blast
  moreover have "tick_wakes env env' pv now (ts, st) = Some (ts', st')" using p w by (simp add: tick_wakes_def)
  ultimately show ?thesis using n by blast
qed

theorem tick_leaves_nobody_witness:
  "case tick_wakes no_streams no_streams no_processes 1005
      ([waiting_on (Timer_at 1), (waiting_on (Timer_at 0))\<lparr>ti_deadline := 1000\<rparr>], timer_example) of
     None \<Rightarrow> False
   | Some (ts, st) \<Rightarrow> \<forall>t\<in>set ts. \<not> left_behind no_streams st t \<and> \<not> expired 1005 t"
proof -
  have "\<forall>t\<in>set (k_timers timer_example). unat (1005::u64) + unat (tm_period_ms t) < 2 ^ 64"
    by (simp add: timer_example_simps)
  from tick_leaves_nobody [OF this, of no_streams no_streams no_processes
      "[waiting_on (Timer_at 1), (waiting_on (Timer_at 0))\<lparr>ti_deadline := 1000\<rparr>]"]
  show ?thesis by fastforce
qed

end
