(* ===== verification/Block_Layer.thy ===== *)
theory Block_Layer
  imports Sx_Prelude "HOL-Library.Code_Target_Nat" "HOL-Library.Sublist"
begin

text \<open>
  The block layer (\<^verbatim>\<open>kernel/block.cpp\<close>): the device table, the writeback queue that
  holds writes to physical disks until a background step moves them, and the calls
  \<^verbatim>\<open>read\<close>, \<^verbatim>\<open>write_cached\<close>, \<^verbatim>\<open>flush\<close>, \<^verbatim>\<open>sync\<close> and \<^verbatim>\<open>write\<close>; with it the ramdisk driver
  (\<^verbatim>\<open>kernel/ramdisk.cpp\<close>) and the forwarding operations of a partition
  (\<^verbatim>\<open>kernel/partition.cpp\<close>).

  Every buffer the layer moves is a whole number of 512-byte sectors, so a buffer is a
  list of sectors. Sector numbers are naturals: \<^verbatim>\<open>request_in_range\<close> bounds every sum by
  the 32-bit size of the device, so none of them wraps. What a disk does is the
  parameter \<open>D\<close>; the commands that succeeded are appended to \<open>b_log\<close> in the order the
  layer issued them. Whether \<^verbatim>\<open>heap::allocate\<close> finds memory for a queue record is the
  argument \<open>heap\<close>.
\<close>

section \<open>Devices\<close>

type_synonym sector = "u8 list"

definition kSectorSize :: nat where "kSectorSize = 512"
definition kMaxBlockDevices :: nat where "kMaxBlockDevices = 32"
definition kMaxDrivers :: nat where "kMaxDrivers = 8"

text \<open>What the drivers of physical disks do, by the context they registered.\<close>

record 'd disk_driver =
  disk_read :: "nat \<Rightarrow> nat \<Rightarrow> nat \<Rightarrow> 'd \<Rightarrow> sector list option"
  disk_write :: "nat \<Rightarrow> nat \<Rightarrow> sector list \<Rightarrow> 'd \<Rightarrow> bool \<times> 'd"
  disk_flush :: "nat \<Rightarrow> 'd \<Rightarrow> bool \<times> 'd"

text \<open>Where the operations of a device lead: to a driver with its context, or to the part
  of another device that starts at a sector (a partition).\<close>

datatype ops_target = Driver_at nat | Slice_of nat nat

record device_ops =
  ops_target :: ops_target
  ops_can_read :: bool
  ops_can_write :: bool
  ops_can_flush :: bool
  ops_deferred :: bool

record block_device =
  bd_present :: bool
  bd_id :: u32
  bd_ops :: device_ops
  bd_sectors :: nat
  bd_writable :: bool
  bd_name :: string
  bd_unflushed :: bool
  bd_failed :: bool

definition no_ops :: device_ops where
  "no_ops = \<lparr>ops_target = Driver_at 0, ops_can_read = False, ops_can_write = False, ops_can_flush = False,
     ops_deferred = False\<rparr>"

definition zero_device :: block_device where
  "zero_device = \<lparr>bd_present = False, bd_id = 0, bd_ops = no_ops, bd_sectors = 0, bd_writable = False,
     bd_name = [], bd_unflushed = False, bd_failed = False\<rparr>"

text \<open>A queued write, or an ordering point when \<open>p_count\<close> is zero.\<close>

record pending =
  p_device :: nat
  p_lba :: nat
  p_count :: nat
  p_written :: nat
  p_queued_ms :: u64
  p_data :: "sector list"

record writeback_stats =
  ws_queued_bytes :: nat
  ws_peak_queued_bytes :: nat
  ws_steps :: nat
  ws_device_writes :: nat
  ws_device_flushes :: nat
  ws_forced_drains :: nat
  ws_failures :: nat

definition kMaxQueuedBytes :: nat where "kMaxQueuedBytes = 8 * 1024 * 1024"
definition kStepSectors :: nat where "kStepSectors = 128"
definition kMaxAgeMs :: u64 where "kMaxAgeMs = 1000"
definition kForcedStepIntervalMs :: u64 where "kForcedStepIntervalMs = 100"

datatype dev_command = Dev_write nat nat "sector list" | Dev_flush nat

record 'd block_state =
  b_devices :: "block_device list"
  b_device_count :: nat
  b_next_id :: u32
  b_generation :: u32
  b_ready :: bool
  b_drivers :: "int list"
  b_queue :: "pending list"
  b_clock_ms :: u64
  b_last_forced_ms :: u64
  b_stats :: writeback_stats
  b_disks :: 'd
  b_log :: "dev_command list"

abbreviation upd_device :: "nat \<Rightarrow> (block_device \<Rightarrow> block_device) \<Rightarrow> 'd block_state \<Rightarrow> 'd block_state" where
  "upd_device i f st \<equiv> st\<lparr>b_devices := (b_devices st)[i := f (b_devices st ! i)]\<rparr>"

abbreviation upd_stats :: "(writeback_stats \<Rightarrow> writeback_stats) \<Rightarrow> 'd block_state \<Rightarrow> 'd block_state" where
  "upd_stats f st \<equiv> st\<lparr>b_stats := f (b_stats st)\<rparr>"

definition device_for_index :: "nat \<Rightarrow> 'd block_state \<Rightarrow> block_device option" where
  "device_for_index i st =
     (if b_device_count st \<le> i then None
      else if bd_present (b_devices st ! i) then Some (b_devices st ! i) else None)"

definition request_in_range :: "block_device \<Rightarrow> nat \<Rightarrow> nat \<Rightarrow> bool" where
  "request_in_range d lba n =
     (if \<not> bd_present d \<or> n = 0 then False else lba < bd_sectors d \<and> n \<le> bd_sectors d - lba)"

definition defers :: "block_device \<Rightarrow> bool" where
  "defers d = ops_deferred (bd_ops d)"

text \<open>The driver calls. A slice is never deferred, so its operations are not reached from
  the queue; \<open>block_read\<close> and its siblings below forward them.\<close>

definition ops_write :: "'d disk_driver \<Rightarrow> nat \<Rightarrow> nat \<Rightarrow> sector list \<Rightarrow> 'd block_state \<Rightarrow> bool \<times> 'd block_state" where
  "ops_write D i lba bs st =
     (case ops_target (bd_ops (b_devices st ! i)) of
        Slice_of parent start \<Rightarrow> (False, st)
      | Driver_at c \<Rightarrow>
          (case disk_write D c lba bs (b_disks st) of
             (ok, m) \<Rightarrow> (ok, st\<lparr>b_disks := m, b_log := (if ok then b_log st @ [Dev_write i lba bs] else b_log st)\<rparr>)))"

definition ops_flush :: "'d disk_driver \<Rightarrow> nat \<Rightarrow> 'd block_state \<Rightarrow> bool \<times> 'd block_state" where
  "ops_flush D i st =
     (case ops_target (bd_ops (b_devices st ! i)) of
        Slice_of parent start \<Rightarrow> (False, st)
      | Driver_at c \<Rightarrow>
          (case disk_flush D c (b_disks st) of
             (ok, m) \<Rightarrow> (ok, st\<lparr>b_disks := m, b_log := (if ok then b_log st @ [Dev_flush i] else b_log st)\<rparr>)))"

section \<open>The writeback queue\<close>

definition enqueue :: "pending \<Rightarrow> 'd block_state \<Rightarrow> 'd block_state" where
  "enqueue r st = st\<lparr>b_queue := b_queue st @ [r\<lparr>p_queued_ms := b_clock_ms st\<rparr>]\<rparr>"

definition pop_head :: "'d block_state \<Rightarrow> 'd block_state" where
  "pop_head st =
     (case b_queue st of
        [] \<Rightarrow> st
      | r # q \<Rightarrow> upd_stats (ws_queued_bytes_update (\<lambda>n. n - (p_count r - p_written r) * kSectorSize))
                  (st\<lparr>b_queue := q\<rparr>))"

definition fail :: "nat \<Rightarrow> 'd block_state \<Rightarrow> 'd block_state" where
  "fail i st = upd_stats (ws_failures_update Suc) (upd_device i (bd_failed_update (\<lambda>_. True)) st)"

text \<open>The merging loop of \<^verbatim>\<open>step\<close>: the whole records right behind the head that continue it,
  with their sectors and their number.\<close>

fun gather :: "nat \<Rightarrow> nat \<Rightarrow> nat \<Rightarrow> pending list \<Rightarrow> nat \<times> sector list \<times> nat" where
  "gather dev lba n [] = (n, [], 0)"
| "gather dev lba n (r # q) =
     (if p_count r \<noteq> 0 \<and> p_device r = dev \<and> p_lba r = lba + n \<and> n + p_count r \<le> kStepSectors
      then (case gather dev lba (n + p_count r) q of
              (n', bs, merged) \<Rightarrow> (n', take (p_count r) (p_data r) @ bs, Suc merged))
      else (n, [], 0))"

definition step_flush :: "'d disk_driver \<Rightarrow> nat \<Rightarrow> 'd block_state \<Rightarrow> bool \<times> 'd block_state" where
  "step_flush D i st =
     (let d = b_devices st ! i;
          (ok, st1) = (if bd_unflushed d \<and> ops_can_flush (bd_ops d) then ops_flush D i st else (True, st)) in
      if \<not> ok then (False, fail i st1)
      else
        let st2 = (if bd_unflushed d \<and> ops_can_flush (bd_ops d)
              then upd_stats (ws_device_flushes_update Suc) st1 else st1)
        in (True, pop_head (upd_device i (bd_unflushed_update (\<lambda>_. False)) st2)))"

definition step_write :: "'d disk_driver \<Rightarrow> pending \<Rightarrow> pending list \<Rightarrow> 'd block_state \<Rightarrow> bool \<times> 'd block_state" where
  "step_write D r q st =
     (let remaining = p_count r - p_written r;
          n0 = (if remaining < kStepSectors then remaining else kStepSectors);
          lba = p_lba r + p_written r;
          own = take n0 (drop (p_written r) (p_data r));
          (n, extra, merged) = (if n0 = remaining then gather (p_device r) lba n0 q else (n0, [], 0));
          (ok, st1) = ops_write D (p_device r) lba (own @ extra) st in
      if \<not> ok then (False, fail (p_device r) st1)
      else
        let st2 = upd_device (p_device r) (bd_unflushed_update (\<lambda>_. True))
              (upd_stats (ws_device_writes_update Suc) st1)
        in if n < remaining
           then (True, upd_stats (ws_queued_bytes_update (\<lambda>b. b - n * kSectorSize))
                   (st2\<lparr>b_queue := r\<lparr>p_written := p_written r + n\<rparr> # q\<rparr>))
           else (True, (pop_head ^^ merged) (pop_head st2)))"

definition step :: "'d disk_driver \<Rightarrow> 'd block_state \<Rightarrow> bool \<times> 'd block_state" where
  "step D st =
     (case b_queue st of
        [] \<Rightarrow> (False, st)
      | r # q \<Rightarrow>
          if bd_failed (b_devices st ! p_device r) then (False, st)
          else
            let st1 = upd_stats (ws_steps_update Suc) st in
            if p_count r = 0 then step_flush D (p_device r) st1 else step_write D r q st1)"

text \<open>What is left to do: every successful step makes it smaller, so the draining loops
  end.\<close>

definition queue_work :: "'d block_state \<Rightarrow> nat" where
  "queue_work st = (\<Sum>r\<leftarrow>b_queue st. Suc (p_count r - p_written r))"

lemma b_queue_ops_write: "ops_write D i lba bs st = (ok, st1) \<Longrightarrow> b_queue st1 = b_queue st"
  by (auto simp: ops_write_def split: ops_target.splits prod.splits)

lemma b_queue_ops_flush: "ops_flush D i st = (ok, st1) \<Longrightarrow> b_queue st1 = b_queue st"
  by (auto simp: ops_flush_def split: ops_target.splits prod.splits)

lemma b_queue_pop_head: "b_queue (pop_head st) = tl (b_queue st)"
  by (simp add: pop_head_def split: list.split)

lemma b_queue_pop_heads: "b_queue ((pop_head ^^ n) st) = drop n (b_queue st)"
  by (induction n) (simp_all add: b_queue_pop_head drop_Suc tl_drop)

lemma gather_length: "gather dev lba n q = (n', bs, merged) \<Longrightarrow> merged \<le> length q \<and> n \<le> n'"
  by (induction dev lba n q arbitrary: n' bs merged rule: gather.induct) (fastforce split: if_splits prod.splits)+

lemma queue_work_drop_le: "sum_list (map f (drop n q)) \<le> sum_list (map (f :: 'a \<Rightarrow> nat) q)"
  by (metis append_take_drop_id le_add2 map_append sum_list_append)

lemma step_flush_queue:
  assumes "step_flush D i st = (True, st')"
  shows "b_queue st' = tl (b_queue st)"
  using assms b_queue_ops_flush [of D i st True]
  by (auto simp: step_flush_def Let_def b_queue_pop_head split: if_splits prod.splits)

lemma step_write_eq:
  assumes "remaining = p_count r - p_written r"
    and "n0 = (if remaining < kStepSectors then remaining else kStepSectors)"
    and "(if n0 = remaining then gather (p_device r) (p_lba r + p_written r) n0 q else (n0, [], 0)) = (n, extra, merged)"
    and "ops_write D (p_device r) (p_lba r + p_written r) (take n0 (drop (p_written r) (p_data r)) @ extra) st = (ok, st1)"
  shows "step_write D r q st =
    (if \<not> ok then (False, fail (p_device r) st1)
     else
       let st2 = upd_device (p_device r) (bd_unflushed_update (\<lambda>_. True))
             (upd_stats (ws_device_writes_update Suc) st1)
       in if n < remaining
          then (True, upd_stats (ws_queued_bytes_update (\<lambda>b. b - n * kSectorSize))
                  (st2\<lparr>b_queue := r\<lparr>p_written := p_written r + n\<rparr> # q\<rparr>))
          else (True, (pop_head ^^ merged) (pop_head st2)))"
  unfolding step_write_def Let_def assms(1) [symmetric] assms(2) [symmetric] assms(3) prod.case assms(4) ..

lemma step_gather_cases:
  assumes "remaining = p_count r - p_written r"
    and "n0 = (if remaining < kStepSectors then remaining else kStepSectors)"
    and "(if n0 = remaining then gather (p_device r) (p_lba r + p_written r) n0 q else (n0, [], 0)) = (n, extra, merged)"
  shows "n < remaining \<longleftrightarrow> n0 \<noteq> remaining"
    and "n0 \<noteq> remaining \<Longrightarrow> n = kStepSectors \<and> kStepSectors < remaining \<and> extra = [] \<and> merged = 0 \<and> n0 = kStepSectors"
proof -
  show "n0 \<noteq> remaining \<Longrightarrow> n = kStepSectors \<and> kStepSectors < remaining \<and> extra = [] \<and> merged = 0 \<and> n0 = kStepSectors"
    using assms(2,3) by (auto split: if_splits)
  then show "n < remaining \<longleftrightarrow> n0 \<noteq> remaining"
    using assms(3) gather_length [of "p_device r" "p_lba r + p_written r" n0 q n extra merged] by auto
qed

lemma step_write_queue:
  assumes "step_write D r q st = (True, st')" and "b_queue st = r # q"
  shows "\<exists>n. b_queue st' = drop n q \<or>
    (b_queue st' = r\<lparr>p_written := p_written r + kStepSectors\<rparr> # q \<and> kStepSectors < p_count r - p_written r)"
proof -
  define remaining where "remaining = p_count r - p_written r"
  define n0 where "n0 = (if remaining < kStepSectors then remaining else kStepSectors)"
  obtain n extra merged where g: "(if n0 = remaining then gather (p_device r) (p_lba r + p_written r) n0 q else (n0, [], 0)) = (n, extra, merged)"
    by (metis prod_cases3)
  obtain ok st1 where w: "ops_write D (p_device r) (p_lba r + p_written r)
      (take n0 (drop (p_written r) (p_data r)) @ extra) st = (ok, st1)" by fastforce
  have q1: "b_queue st1 = r # q" using b_queue_ops_write [OF w] assms(2) by simp
  note eq = step_write_eq [OF remaining_def n0_def g w]
  note c = step_gather_cases [OF remaining_def n0_def g]
  have ok: "ok" using assms(1) eq by (auto split: if_splits)
  show ?thesis
  proof (cases "n < remaining")
    case True
    with c have n: "n = kStepSectors" "kStepSectors < remaining" by auto
    have "b_queue st' = r\<lparr>p_written := p_written r + n\<rparr> # q" using assms(1) eq ok True by (simp add: Let_def) force
    then show ?thesis using n by (simp add: remaining_def)
  next
    case False
    have "b_queue st' = drop merged q" using assms(1) eq ok False q1
      by (simp add: Let_def) (force simp: b_queue_pop_heads b_queue_pop_head)
    then show ?thesis by blast
  qed
qed

lemma step_progress:
  assumes "step D st = (True, st')"
  shows "queue_work st' < queue_work st"
proof -
  from assms obtain r q where q: "b_queue st = r # q" by (auto simp: step_def split: list.splits)
  let ?st1 = "upd_stats (ws_steps_update Suc) st"
  have q1: "b_queue ?st1 = r # q" using q by simp
  show ?thesis
  proof (cases "p_count r = 0")
    case True
    with assms q have "step_flush D (p_device r) ?st1 = (True, st')" by (auto simp: step_def Let_def split: if_splits)
    from step_flush_queue [OF this] q1 show ?thesis by (simp add: queue_work_def q)
  next
    case False
    with assms q have "step_write D r q ?st1 = (True, st')" by (auto simp: step_def Let_def split: if_splits)
    from step_write_queue [OF this q1] show ?thesis
      using queue_work_drop_le [of "\<lambda>r. Suc (p_count r - p_written r)" _ q]
      by (auto simp: queue_work_def q kStepSectors_def less_Suc_eq_le intro: le_trans [OF _ le_add2])
  qed
qed

text \<open>The loop of \<^verbatim>\<open>make_room\<close>; the first component says whether it ended, the second whether it
  waited.\<close>

function make_room_loop :: "'d disk_driver \<Rightarrow> nat \<Rightarrow> bool \<Rightarrow> 'd block_state \<Rightarrow> bool \<times> bool \<times> 'd block_state" where
  "make_room_loop D bytes waited st =
     (if b_queue st \<noteq> [] \<and> kMaxQueuedBytes < ws_queued_bytes (b_stats st) + bytes
      then (case step D st of (ok, st1) \<Rightarrow> if ok then make_room_loop D bytes True st1 else (False, True, st1))
      else (True, waited, st))"
  by pat_completeness auto
termination
  by (relation "measure (\<lambda>(D, bytes, waited, st). queue_work st)") (auto simp: step_progress dest: sym [of "(_, _)"] split: prod.splits)

declare make_room_loop.simps [simp del]

definition make_room :: "'d disk_driver \<Rightarrow> nat \<Rightarrow> 'd block_state \<Rightarrow> bool \<times> 'd block_state" where
  "make_room D bytes st =
     (case make_room_loop D bytes False st of
        (ok, waited, st1) \<Rightarrow> (ok, if ok \<and> waited then upd_stats (ws_forced_drains_update Suc) st1 else st1))"

function drain_queue :: "'d disk_driver \<Rightarrow> 'd block_state \<Rightarrow> bool \<times> 'd block_state" where
  "drain_queue D st =
     (if b_queue st = [] then (True, st)
      else (case step D st of (ok, st1) \<Rightarrow> if ok then drain_queue D st1 else (False, st1)))"
  by pat_completeness auto
termination
  by (relation "measure (\<lambda>(D, st). queue_work st)") (auto simp: step_progress dest: sym [of "(_, _)"] split: prod.splits)

declare drain_queue.simps [simp del]

fun flush_devices :: "'d disk_driver \<Rightarrow> nat list \<Rightarrow> bool \<Rightarrow> 'd block_state \<Rightarrow> bool \<times> 'd block_state" where
  "flush_devices D [] ok st = (ok, st)"
| "flush_devices D (i # is) ok st =
     (let d = b_devices st ! i in
      if \<not> bd_present d \<or> \<not> defers d \<or> \<not> bd_unflushed d then flush_devices D is ok st
      else
        let (done, st1) = (if ops_can_flush (bd_ops d) then ops_flush D i st else (True, st)) in
        if \<not> done then flush_devices D is False (fail i st1)
        else flush_devices D is ok (upd_device i (bd_unflushed_update (\<lambda>_. False))
               (upd_stats (ws_device_flushes_update Suc) st1)))"

definition drain_all :: "'d disk_driver \<Rightarrow> 'd block_state \<Rightarrow> bool \<times> 'd block_state" where
  "drain_all D st =
     (case drain_queue D st of
        (ok, st1) \<Rightarrow> if \<not> ok then (False, st1) else flush_devices D [0..<b_device_count st1] True st1)"

text \<open>The part of a queued record inside a range, laid over the buffer.\<close>

definition overlay_record :: "nat \<Rightarrow> nat \<Rightarrow> nat \<Rightarrow> pending \<Rightarrow> sector list \<Rightarrow> sector list" where
  "overlay_record i lba n r buf =
     (if p_device r \<noteq> i \<or> p_count r = 0 then buf
      else
        let e = lba + n;
            record_end = p_lba r + p_count r;
            first = (if lba < p_lba r then p_lba r else lba);
            last = (if record_end < e then record_end else e)
        in if last \<le> first then buf
           else take (first - lba) buf @ take (last - first) (drop (first - p_lba r) (p_data r))
                  @ drop (last - lba) buf)"

definition overlay_queued :: "nat \<Rightarrow> nat \<Rightarrow> nat \<Rightarrow> pending list \<Rightarrow> sector list \<Rightarrow> sector list" where
  "overlay_queued i lba n q buf = foldl (\<lambda>b r. overlay_record i lba n r b) buf q"

definition queue_has_device :: "nat \<Rightarrow> 'd block_state \<Rightarrow> bool" where
  "queue_has_device i st = list_ex (\<lambda>r. p_device r = i) (b_queue st)"

section \<open>Registration\<close>

definition register_driver :: "int \<Rightarrow> bool \<Rightarrow> 'd block_state \<Rightarrow> bool \<times> 'd block_state" where
  "register_driver priority has_enumerate st =
     (if kMaxDrivers \<le> length (b_drivers st) \<or> \<not> has_enumerate then (False, st)
      else (True, st\<lparr>b_drivers := b_drivers st @ [priority]\<rparr>))"

definition register_device ::
  "device_ops \<Rightarrow> nat \<Rightarrow> bool \<Rightarrow> string \<Rightarrow> 'd block_state \<Rightarrow> nat option \<times> 'd block_state" where
  "register_device ops sectors writable name st =
     (if \<not> ops_can_read ops \<or> sectors = 0 then (None, st)
      else case find_slot (\<lambda>d. \<not> bd_present d) (b_devices st) of
        None \<Rightarrow> (None, st)
      | Some slot \<Rightarrow>
          (Some slot, st\<lparr>b_devices := (b_devices st)[slot := zero_device\<lparr>bd_present := True, bd_id := b_next_id st,
               bd_ops := ops, bd_sectors := sectors, bd_writable := (writable \<and> ops_can_write ops),
               bd_name := name\<rparr>],
             b_next_id := b_next_id st + 1,
             b_device_count := (if b_device_count st < slot + 1 then slot + 1 else b_device_count st),
             b_generation := b_generation st + 1, b_ready := True\<rparr>))"

fun trim_count :: "block_device list \<Rightarrow> nat \<Rightarrow> nat" where
  "trim_count ds 0 = 0"
| "trim_count ds (Suc n) = (if bd_present (ds ! n) then Suc n else trim_count ds n)"

definition unregister_device :: "nat \<Rightarrow> 'd block_state \<Rightarrow> bool \<times> 'd block_state" where
  "unregister_device i st =
     (if device_for_index i st = None \<or> queue_has_device i st then (False, st)
      else
        let ds = (b_devices st)[i := zero_device]
        in (True, st\<lparr>b_devices := ds, b_device_count := trim_count ds (b_device_count st),
              b_generation := b_generation st + 1\<rparr>))"

text \<open>The selection loop of \<^verbatim>\<open>probe_all\<close>: of the drivers not yet run, the first of those with
  the highest priority.\<close>

fun best_driver :: "int list \<Rightarrow> bool list \<Rightarrow> nat option \<Rightarrow> nat \<Rightarrow> nat option" where
  "best_driver ps done best 0 = best"
| "best_driver ps done best (Suc n) =
     (let i = length ps - Suc n in
      best_driver ps done
        (if done ! i then best
         else case best of None \<Rightarrow> Some i | Some b \<Rightarrow> if ps ! b < ps ! i then Some i else best) n)"

fun probe_order :: "int list \<Rightarrow> bool list \<Rightarrow> nat \<Rightarrow> nat list" where
  "probe_order ps done 0 = []"
| "probe_order ps done (Suc attempts) =
     (case best_driver ps done None (length ps) of
        None \<Rightarrow> []
      | Some b \<Rightarrow> b # probe_order ps (done[b := True]) attempts)"

definition probe_all :: "(nat \<Rightarrow> 'd block_state \<Rightarrow> 'd block_state) \<Rightarrow> 'd block_state \<Rightarrow> 'd block_state" where
  "probe_all run st =
     foldl (\<lambda>s i. run i s)
       (st\<lparr>b_devices := replicate kMaxBlockDevices zero_device, b_device_count := 0, b_ready := False\<rparr>)
       (probe_order (b_drivers st) (replicate (length (b_drivers st)) False) (length (b_drivers st)))"

section \<open>The calls on whole disks\<close>

definition disk_level_read :: "'d disk_driver \<Rightarrow> nat \<Rightarrow> nat \<Rightarrow> nat \<Rightarrow> 'd block_state \<Rightarrow> sector list option" where
  "disk_level_read D i lba n st =
     (case device_for_index i st of
        None \<Rightarrow> None
      | Some d \<Rightarrow>
          if \<not> request_in_range d lba n then None
          else (case ops_target (bd_ops d) of
              Slice_of parent start \<Rightarrow> None
            | Driver_at c \<Rightarrow>
                (case disk_read D c lba n (b_disks st) of
                   None \<Rightarrow> None
                 | Some bs \<Rightarrow> Some (if defers d then overlay_queued i lba n (b_queue st) bs else bs))))"

definition disk_level_write_cached ::
  "'d disk_driver \<Rightarrow> bool \<Rightarrow> nat \<Rightarrow> nat \<Rightarrow> sector list \<Rightarrow> 'd block_state \<Rightarrow> bool \<times> 'd block_state" where
  "disk_level_write_cached D heap i lba bs st =
     (case device_for_index i st of
        None \<Rightarrow> (False, st)
      | Some d \<Rightarrow>
          if \<not> bd_writable d \<or> \<not> request_in_range d lba (length bs) then (False, st)
          else if \<not> defers d then ops_write D i lba bs st
          else if bd_failed d then (False, st)
          else
            let bytes = length bs * kSectorSize in
            (case make_room D bytes st of
               (room, st1) \<Rightarrow>
                 if \<not> room then (False, st1)
                 else if \<not> heap
                 then (case drain_all D st1 of
                     (drained, st2) \<Rightarrow>
                       if \<not> drained then (False, st2)
                       else (case ops_write D i lba bs st2 of
                           (ok, st3) \<Rightarrow> if \<not> ok then (False, st3)
                             else (True, upd_device i (bd_unflushed_update (\<lambda>_. True)) st3)))
                 else
                   let st2 = enqueue \<lparr>p_device = i, p_lba = lba, p_count = length bs, p_written = 0,
                         p_queued_ms = 0, p_data = bs\<rparr> st1;
                       queued = ws_queued_bytes (b_stats st2) + bytes
                   in (True, upd_stats (\<lambda>s. s\<lparr>ws_queued_bytes := queued,
                         ws_peak_queued_bytes := (if ws_peak_queued_bytes s < queued then queued
                           else ws_peak_queued_bytes s)\<rparr>) st2)))"

definition disk_level_flush :: "'d disk_driver \<Rightarrow> bool \<Rightarrow> nat \<Rightarrow> 'd block_state \<Rightarrow> bool \<times> 'd block_state" where
  "disk_level_flush D heap i st =
     (case device_for_index i st of
        None \<Rightarrow> (False, st)
      | Some d \<Rightarrow>
          if \<not> bd_writable d then (False, st)
          else if \<not> defers d then (if ops_can_flush (bd_ops d) then ops_flush D i st else (True, st))
          else if bd_failed d then (False, st)
          else if \<not> bd_unflushed d \<and> \<not> queue_has_device i st then (True, st)
          else if b_queue st \<noteq> [] \<and> p_device (last (b_queue st)) = i \<and> p_count (last (b_queue st)) = 0
          then (True, st)
          else if \<not> heap then drain_all D st
          else (True, enqueue \<lparr>p_device = i, p_lba = 0, p_count = 0, p_written = 0, p_queued_ms = 0,
                  p_data = []\<rparr> st))"

section \<open>The calls on any device\<close>

text \<open>A device is a whole disk or a partition of one; the operations of a partition move the
  origin and call the disk underneath (\<^verbatim>\<open>read_op\<close>, \<^verbatim>\<open>write_op\<close> and \<^verbatim>\<open>flush_op\<close> of
  \<^verbatim>\<open>kernel/partition.cpp\<close>). The checks of \<^verbatim>\<open>block::read\<close> are made for both.\<close>

definition block_read :: "'d disk_driver \<Rightarrow> nat \<Rightarrow> nat \<Rightarrow> nat \<Rightarrow> 'd block_state \<Rightarrow> sector list option" where
  "block_read D i lba n st =
     (case device_for_index i st of
        None \<Rightarrow> None
      | Some d \<Rightarrow>
          (case ops_target (bd_ops d) of
             Driver_at c \<Rightarrow> disk_level_read D i lba n st
           | Slice_of parent start \<Rightarrow>
               if \<not> request_in_range d lba n then None else disk_level_read D parent (start + lba) n st))"

definition write_cached ::
  "'d disk_driver \<Rightarrow> bool \<Rightarrow> nat \<Rightarrow> nat \<Rightarrow> sector list \<Rightarrow> 'd block_state \<Rightarrow> bool \<times> 'd block_state" where
  "write_cached D heap i lba bs st =
     (case device_for_index i st of
        None \<Rightarrow> (False, st)
      | Some d \<Rightarrow>
          (case ops_target (bd_ops d) of
             Driver_at c \<Rightarrow> disk_level_write_cached D heap i lba bs st
           | Slice_of parent start \<Rightarrow>
               if \<not> bd_writable d \<or> \<not> request_in_range d lba (length bs) then (False, st)
               else disk_level_write_cached D heap parent (start + lba) bs st))"

definition block_flush :: "'d disk_driver \<Rightarrow> bool \<Rightarrow> nat \<Rightarrow> 'd block_state \<Rightarrow> bool \<times> 'd block_state" where
  "block_flush D heap i st =
     (case device_for_index i st of
        None \<Rightarrow> (False, st)
      | Some d \<Rightarrow>
          (case ops_target (bd_ops d) of
             Driver_at c \<Rightarrow> disk_level_flush D heap i st
           | Slice_of parent start \<Rightarrow>
               if \<not> bd_writable d then (False, st) else disk_level_flush D heap parent st))"

definition block_sync :: "'d disk_driver \<Rightarrow> nat \<Rightarrow> 'd block_state \<Rightarrow> bool \<times> 'd block_state" where
  "block_sync D i st = (if device_for_index i st = None then (False, st) else drain_all D st)"

definition sync_all :: "'d disk_driver \<Rightarrow> 'd block_state \<Rightarrow> bool \<times> 'd block_state" where
  "sync_all D st = drain_all D st"

definition block_write ::
  "'d disk_driver \<Rightarrow> bool \<Rightarrow> bool \<Rightarrow> nat \<Rightarrow> nat \<Rightarrow> sector list \<Rightarrow> 'd block_state \<Rightarrow> bool \<times> 'd block_state" where
  "block_write D heap1 heap2 i lba bs st =
     (case write_cached D heap1 i lba bs st of
        (False, st1) \<Rightarrow> (False, st1)
      | (True, st1) \<Rightarrow>
          (case block_flush D heap2 i st1 of
             (False, st2) \<Rightarrow> (False, st2)
           | (True, st2) \<Rightarrow> block_sync D i st2))"

definition writeback_step :: "'d disk_driver \<Rightarrow> 'd block_state \<Rightarrow> bool \<times> 'd block_state" where
  "writeback_step D st = step D st"

definition writeback_tick :: "'d disk_driver \<Rightarrow> u64 \<Rightarrow> 'd block_state \<Rightarrow> 'd block_state" where
  "writeback_tick D now st0 =
     (let st = st0\<lparr>b_clock_ms := now\<rparr> in
      if b_queue st = [] \<or> now - p_queued_ms (hd (b_queue st)) < kMaxAgeMs \<or>
         now - b_last_forced_ms st < kForcedStepIntervalMs then st
      else snd (step D (st\<lparr>b_last_forced_ms := now\<rparr>)))"

definition writeback_pending :: "'d block_state \<Rightarrow> bool" where
  "writeback_pending st = (b_queue st \<noteq> [] \<and> \<not> bd_failed (b_devices st ! p_device (hd (b_queue st))))"

section \<open>The ramdisk driver\<close>

record image =
  im_sectors :: "sector list"
  im_writable :: bool
  im_name :: string

text \<open>The caller has checked the range (\<^verbatim>\<open>block::read\<close>); an access outside the image, which is
  undefined in C++, is the failing branch of the two operations.\<close>

definition ramdisk_read_op :: "nat \<Rightarrow> nat \<Rightarrow> image \<Rightarrow> sector list option" where
  "ramdisk_read_op lba n im =
     (if lba + n \<le> length (im_sectors im) then Some (take n (drop lba (im_sectors im))) else None)"

definition ramdisk_write_op :: "nat \<Rightarrow> sector list \<Rightarrow> image \<Rightarrow> bool \<times> image" where
  "ramdisk_write_op lba bs im =
     (if lba + length bs \<le> length (im_sectors im)
      then (True, im\<lparr>im_sectors := take lba (im_sectors im) @ bs @ drop (lba + length bs) (im_sectors im)\<rparr>)
      else (False, im))"

definition ramdisk_ops :: device_ops where
  "ramdisk_ops = \<lparr>ops_target = Driver_at 0, ops_can_read = True, ops_can_write = True, ops_can_flush = False,
     ops_deferred = False\<rparr>"

text \<open>There is one image, the context \<^verbatim>\<open>&g_image\<close> the operations are registered with.\<close>

definition ramdisk_driver :: "image disk_driver" where
  "ramdisk_driver =
     \<lparr>disk_read = (\<lambda>c lba n im. if c = 0 then ramdisk_read_op lba n im else None),
      disk_write = (\<lambda>c lba bs im. if c = 0 then ramdisk_write_op lba bs im else (False, im)),
      disk_flush = (\<lambda>c im. (True, im))\<rparr>"

definition ramdisk_enumerate :: "image block_state \<Rightarrow> image block_state" where
  "ramdisk_enumerate st =
     (let im = b_disks st in
      if im_sectors im = [] then st
      else snd (register_device ramdisk_ops (length (im_sectors im)) (im_writable im) (im_name im) st))"

definition attach_image :: "u8 list option \<Rightarrow> bool \<Rightarrow> string \<Rightarrow> image \<Rightarrow> image" where
  "attach_image base writable name im =
     (case base of
        None \<Rightarrow> im
      | Some bytes \<Rightarrow>
          if length bytes < kSectorSize then im
          else \<lparr>im_sectors = map (\<lambda>k. take kSectorSize (drop (k * kSectorSize) bytes)) [0..<length bytes div kSectorSize],
                im_writable = writable, im_name = name\<rparr>)"

section \<open>Identification strings\<close>

text \<open>\<^verbatim>\<open>copy_ata_string\<close>: two characters per word, high byte first, as many as fit, without the
  padding at either end.\<close>

fun ata_chars :: "u16 list \<Rightarrow> nat \<Rightarrow> nat \<Rightarrow> u8 list" where
  "ata_chars [] len capacity = []"
| "ata_chars (w # ws) len capacity =
     (if len + 2 < capacity then ucast (drop_bit 8 w) # ucast (w AND 0xff) # ata_chars ws (len + 2) capacity else [])"

definition printable_or_space :: "u8 \<Rightarrow> u8" where
  "printable_or_space c = (if 0x20 \<le> c \<and> c < 0x7f then c else 0x20)"

definition copy_ata_string :: "u16 list \<Rightarrow> nat \<Rightarrow> nat \<Rightarrow> nat \<Rightarrow> u8 list option" where
  "copy_ata_string identify first_word word_count capacity =
     (if capacity = 0 then None
      else
        let kept = map printable_or_space (ata_chars (take word_count (drop first_word identify)) 0 capacity)
        in Some (rev (dropWhile (\<lambda>c. c = 0x20) (rev (dropWhile (\<lambda>c. c = 0x20) kept)))))"

section \<open>What a reader sees\<close>

definition covers :: "pending \<Rightarrow> nat \<Rightarrow> nat \<Rightarrow> bool" where
  "covers r i x \<longleftrightarrow> p_device r = i \<and> p_lba r \<le> x \<and> x < p_lba r + p_count r"

definition over :: "nat \<Rightarrow> nat \<Rightarrow> sector \<Rightarrow> pending \<Rightarrow> sector" where
  "over i x v r = (if covers r i x then p_data r ! (x - p_lba r) else v)"

definition context_of :: "'d block_state \<Rightarrow> nat \<Rightarrow> nat" where
  "context_of st i = (case ops_target (bd_ops (b_devices st ! i)) of Driver_at c \<Rightarrow> c | Slice_of _ _ \<Rightarrow> 0)"

text \<open>Sector \<open>x\<close> of disk \<open>i\<close> as a reader sees it: the newest queued copy, or what the
  device holds.\<close>

definition disk_seen :: "('d \<Rightarrow> nat \<Rightarrow> nat \<Rightarrow> sector) \<Rightarrow> 'd block_state \<Rightarrow> nat \<Rightarrow> nat \<Rightarrow> sector" where
  "disk_seen view st i x = foldl (over i x) (view (b_disks st) (context_of st i) x) (b_queue st)"

definition is_disk :: "'d block_state \<Rightarrow> nat \<Rightarrow> bool" where
  "is_disk st i \<longleftrightarrow> i < b_device_count st \<and> bd_present (b_devices st ! i) \<and>
     ops_target (bd_ops (b_devices st ! i)) = Driver_at (context_of st i)"

definition record_ok :: "'d block_state \<Rightarrow> pending \<Rightarrow> bool" where
  "record_ok st r \<longleftrightarrow> is_disk st (p_device r) \<and> defers (b_devices st ! p_device r) \<and>
     length (p_data r) = p_count r \<and> p_lba r + p_count r \<le> bd_sectors (b_devices st ! p_device r) \<and>
     (p_written r < p_count r \<or> p_written r = 0 \<and> p_count r = 0)"

text \<open>A partition lies inside a whole disk.\<close>

definition slice_ok :: "'d block_state \<Rightarrow> nat \<Rightarrow> bool" where
  "slice_ok st i = (case ops_target (bd_ops (b_devices st ! i)) of
     Driver_at c \<Rightarrow> True
   | Slice_of p s \<Rightarrow> is_disk st p \<and> s + bd_sectors (b_devices st ! i) \<le> bd_sectors (b_devices st ! p))"

definition queued_sectors :: "pending list \<Rightarrow> nat" where
  "queued_sectors q = (\<Sum>r\<leftarrow>q. p_count r - p_written r)"

definition head_written :: "('d \<Rightarrow> nat \<Rightarrow> nat \<Rightarrow> sector) \<Rightarrow> 'd block_state \<Rightarrow> bool" where
  "head_written view st = (case b_queue st of
     [] \<Rightarrow> True
   | r # q \<Rightarrow> (\<forall>k<p_written r. view (b_disks st) (context_of st (p_device r)) (p_lba r + k) = p_data r ! k) \<and>
       (\<forall>r'\<in>set q. p_written r' = 0))"

definition block_inv :: "('d \<Rightarrow> nat \<Rightarrow> nat \<Rightarrow> sector) \<Rightarrow> 'd block_state \<Rightarrow> bool" where
  "block_inv view st \<longleftrightarrow> b_device_count st \<le> length (b_devices st) \<and>
     (\<forall>r\<in>set (b_queue st). record_ok st r) \<and> head_written view st \<and>
     ws_queued_bytes (b_stats st) = queued_sectors (b_queue st) * kSectorSize \<and>
     (\<forall>i<b_device_count st. bd_present (b_devices st ! i) \<longrightarrow> slice_ok st i) \<and>
     (\<forall>i j. is_disk st i \<longrightarrow> is_disk st j \<longrightarrow> context_of st i = context_of st j \<longrightarrow> i = j)"

lemma foldl_over_not_covered:
  "(\<forall>r\<in>set q. \<not> covers r i x) \<Longrightarrow> foldl (over i x) v q = v"
  by (induction q arbitrary: v) (auto simp: over_def)

text \<open>Overlaying the queue on a buffer gives each sector its newest copy.\<close>

lemma overlay_record_nth:
  assumes "length buf = n" and "k < n" and "length (p_data r) = p_count r"
  shows "overlay_record i lba n r buf ! k = over i (lba + k) (buf ! k) r"
    and "length (overlay_record i lba n r buf) = n"
proof -
  define a where "a = max lba (p_lba r)"
  define b where "b = min (p_lba r + p_count r) (lba + n)"
  have ab: "lba \<le> a" "p_lba r \<le> a" "b \<le> lba + n" "b \<le> p_lba r + p_count r" by (simp_all add: a_def b_def)
  have eq: "overlay_record i lba n r buf =
    (if p_device r \<noteq> i \<or> p_count r = 0 \<or> b \<le> a then buf
     else take (a - lba) buf @ take (b - a) (drop (a - p_lba r) (p_data r)) @ drop (b - lba) buf)"
    unfolding overlay_record_def Let_def a_def b_def max_def min_def by auto
  show "length (overlay_record i lba n r buf) = n"
    unfolding eq using assms ab by auto
  show "overlay_record i lba n r buf ! k = over i (lba + k) (buf ! k) r"
  proof (cases "p_device r \<noteq> i \<or> p_count r = 0 \<or> b \<le> a")
    case True
    then show ?thesis using assms(2) unfolding eq over_def covers_def a_def b_def by auto
  next
    case False
    consider "lba + k < a" | "a \<le> lba + k" "lba + k < b" | "b \<le> lba + k" by linarith
    then show ?thesis
    proof cases
      case 1
      then have "\<not> covers r i (lba + k)" by (auto simp: covers_def a_def)
      moreover have "k < a - lba" using 1 by linarith
      ultimately show ?thesis using False assms(1,2) unfolding eq over_def by (simp add: nth_append)
    next
      case 2
      then have c: "covers r i (lba + k)" using False ab by (auto simp: covers_def)
      have "(take (a - lba) buf @ take (b - a) (drop (a - p_lba r) (p_data r)) @ drop (b - lba) buf) ! k =
          take (b - a) (drop (a - p_lba r) (p_data r)) ! (k - (a - lba))"
        using 2 ab assms by (auto simp: nth_append)
      also have "\<dots> = p_data r ! (lba + k - p_lba r)"
      proof -
        have "k - (a - lba) < b - a" "a - p_lba r + (k - (a - lba)) = lba + k - p_lba r" using 2 ab by linarith+
        moreover have "a - p_lba r \<le> length (p_data r)" using 2 ab assms(3) by linarith
        ultimately show ?thesis by simp
      qed
      finally show ?thesis using False c unfolding eq over_def by simp
    next
      case 3
      then have "\<not> covers r i (lba + k)" using assms(2) by (auto simp: covers_def b_def)
      moreover have "(take (a - lba) buf @ take (b - a) (drop (a - p_lba r) (p_data r)) @ drop (b - lba) buf) ! k = buf ! k"
      proof -
        define L where "L = take (a - lba) buf @ take (b - a) (drop (a - p_lba r) (p_data r))"
        have "length L = b - lba"
        proof -
          have "length (take (a - lba) buf) = a - lba" using False ab assms(1) by auto
          moreover have "length (take (b - a) (drop (a - p_lba r) (p_data r))) = b - a" using False ab assms(3) by auto
          ultimately show ?thesis using False ab by (simp add: L_def del: length_take length_drop)
        qed
        moreover have "b - lba \<le> k" "b - lba \<le> n" using 3 assms(2) by linarith+
        ultimately have "(L @ drop (b - lba) buf) ! k = buf ! k"
          using assms(1) by (simp add: nth_append)
        then show ?thesis by (simp add: L_def)
      qed
      ultimately show ?thesis using False unfolding eq over_def by simp
    qed
  qed
qed

lemma overlay_queued_nth:
  assumes "\<forall>r\<in>set q. length (p_data r) = p_count r" and "length buf = n" and "k < n"
  shows "overlay_queued i lba n q buf ! k = foldl (over i (lba + k)) (buf ! k) q \<and>
    length (overlay_queued i lba n q buf) = n"
  using assms
proof (induction q arbitrary: buf)
  case (Cons r q)
  have "length (overlay_record i lba n r buf) = n" "overlay_record i lba n r buf ! k = over i (lba + k) (buf ! k) r"
    using overlay_record_nth [of buf n k r i lba] Cons.prems by simp_all
  with Cons.IH [of "overlay_record i lba n r buf"] Cons.prems show ?case
    by (simp add: overlay_queued_def)
qed (simp add: overlay_queued_def)

lemma gather_spec:
  "gather dev lba n q = (n', bs, merged) \<Longrightarrow> \<forall>r\<in>set q. length (p_data r) = p_count r \<Longrightarrow>
    n \<le> n' \<and> length bs = n' - n \<and> merged \<le> length q \<and> (n \<le> kStepSectors \<longrightarrow> n' \<le> kStepSectors) \<and>
    foldl (over i x) v (take merged q) =
      (if i = dev \<and> lba + n \<le> x \<and> x < lba + n' then bs ! (x - (lba + n)) else v)"
proof (induction dev lba n q arbitrary: n' bs merged v rule: gather.induct)
  case (2 dev lba n r q)
  show ?case
  proof (cases "p_count r \<noteq> 0 \<and> p_device r = dev \<and> p_lba r = lba + n \<and> n + p_count r \<le> kStepSectors")
    case True
    obtain n1 bs1 m1 where g: "gather dev lba (n + p_count r) q = (n1, bs1, m1)" by (metis prod_cases3)
    have e: "n' = n1" "bs = p_data r @ bs1" "merged = Suc m1" using 2(2,3) True g by auto
    have "\<forall>r\<in>set q. length (p_data r) = p_count r" using 2(3) by simp
    note ih = 2(1) [OF True g this, of "over i x v r"]
    have len: "length (p_data r) = p_count r" using 2(3) by simp
    have "foldl (over i x) v (take merged (r # q)) = foldl (over i x) (over i x v r) (take m1 q)"
      using e by simp
    also have "\<dots> = (if i = dev \<and> lba + n \<le> x \<and> x < lba + n1 then bs ! (x - (lba + n)) else v)"
    proof (cases "i = dev \<and> lba + n \<le> x \<and> x < lba + n1")
      case t: True
      show ?thesis
      proof (cases "lba + n + p_count r \<le> x")
        case far: True
        then have "x - (lba + n) = p_count r + (x - (lba + (n + p_count r)))" by linarith
        then have "bs ! (x - (lba + n)) = bs1 ! (x - (lba + (n + p_count r)))"
          using e(2) len by (simp only: nth_append_length_plus [of "p_data r", unfolded len])
        then show ?thesis using ih t far by (simp add: add.assoc)
      next
        case near: False
        then have "x - (lba + n) < p_count r" using t by linarith
        then have "bs ! (x - (lba + n)) = p_data r ! (x - p_lba r)"
          using e len True by (simp add: nth_append)
        moreover have "over i x v r = p_data r ! (x - p_lba r)" using near t True by (simp add: over_def covers_def)
        ultimately show ?thesis using ih t near by (simp add: add.assoc)
      qed
    next
      case f: False
      then have "\<not> covers r i x" using True ih by (auto simp: covers_def)
      then have "over i x v r = v" by (simp add: over_def)
      then show ?thesis using ih f by auto
    qed
    finally show ?thesis using ih e len True by auto
  next
    case False
    then show ?thesis using 2(2) by (auto split: if_splits)
  qed
qed auto

text \<open>Operations that keep the device table, up to the flags \<open>unflushed\<close> and \<open>failed\<close>.\<close>

definition same_devices :: "'d block_state \<Rightarrow> 'd block_state \<Rightarrow> bool" where
  "same_devices st st' \<longleftrightarrow> b_device_count st' = b_device_count st \<and> length (b_devices st') = length (b_devices st) \<and>
     (\<forall>i. bd_present (b_devices st' ! i) = bd_present (b_devices st ! i) \<and>
        bd_ops (b_devices st' ! i) = bd_ops (b_devices st ! i) \<and>
        bd_sectors (b_devices st' ! i) = bd_sectors (b_devices st ! i) \<and>
        bd_writable (b_devices st' ! i) = bd_writable (b_devices st ! i))"

lemma same_devices_refl [simp]: "same_devices st st"
  by (simp add: same_devices_def)

lemma same_devices_trans: "same_devices a b \<Longrightarrow> same_devices b c \<Longrightarrow> same_devices a c"
  by (simp add: same_devices_def)

lemma same_devices_context: "same_devices st st' \<Longrightarrow> context_of st' i = context_of st i"
  by (simp add: same_devices_def context_of_def)

lemma same_devices_disk: "same_devices st st' \<Longrightarrow> is_disk st' i = is_disk st i"
  by (simp add: same_devices_def is_disk_def context_of_def)

lemma same_devices_record: "same_devices st st' \<Longrightarrow> record_ok st' r = record_ok st r"
  by (simp add: record_ok_def same_devices_disk) (simp add: same_devices_def defers_def)

lemma same_devices_slice: "same_devices st st' \<Longrightarrow> slice_ok st' i = slice_ok st i"
  by (auto simp: slice_ok_def same_devices_disk split: ops_target.split) (simp_all add: same_devices_def)

lemma block_inv_same:
  assumes "block_inv view st" and "same_devices st st'" and "view (b_disks st') = view (b_disks st)"
    and "b_queue st' = b_queue st"
    and "ws_queued_bytes (b_stats st') = ws_queued_bytes (b_stats st)"
  shows "block_inv view st'" and "disk_seen view st' = disk_seen view st"
proof -
  have "head_written view st' = head_written view st"
    using assms by (simp add: head_written_def same_devices_context split: list.split)
  moreover have "b_device_count st' = b_device_count st" "length (b_devices st') = length (b_devices st)"
    "\<And>i. bd_present (b_devices st' ! i) = bd_present (b_devices st ! i)" using assms(2) by (simp_all add: same_devices_def)
  ultimately show "block_inv view st'"
    using assms by (simp add: block_inv_def same_devices_record same_devices_slice same_devices_disk same_devices_context)
  show "disk_seen view st' = disk_seen view st"
    using assms by (simp add: disk_seen_def fun_eq_iff same_devices_context)
qed

lemma same_devices_upd:
  assumes "\<And>d. bd_present (f d) = bd_present d \<and> bd_ops (f d) = bd_ops d \<and> bd_sectors (f d) = bd_sectors d \<and>
    bd_writable (f d) = bd_writable d"
  shows "same_devices st (upd_device i f st)"
  using assms by (cases "i < length (b_devices st)") (simp_all add: same_devices_def nth_list_update list_update_beyond not_less)

lemma same_devices_ops_write: "ops_write D i lba bs st = (ok, st') \<Longrightarrow> same_devices st st'"
  by (auto simp: ops_write_def same_devices_def split: ops_target.splits prod.splits)

lemma same_devices_ops_flush: "ops_flush D i st = (ok, st') \<Longrightarrow> same_devices st st'"
  by (auto simp: ops_flush_def same_devices_def split: ops_target.splits prod.splits)

lemma fail_keeps:
  "same_devices st (fail i st)" "b_disks (fail i st) = b_disks st" "b_queue (fail i st) = b_queue st"
  "ws_queued_bytes (b_stats (fail i st)) = ws_queued_bytes (b_stats st)" "b_log (fail i st) = b_log st"
  using same_devices_upd [of "bd_failed_update (\<lambda>_. True)" st i]
  by (simp_all add: fail_def same_devices_def)

lemma pop_heads_keep:
  "same_devices st ((pop_head ^^ n) st)" "b_disks ((pop_head ^^ n) st) = b_disks st" "b_log ((pop_head ^^ n) st) = b_log st"
  by (induction n) (auto simp: pop_head_def same_devices_def split: list.split)

lemma pop_head_bytes:
  "ws_queued_bytes (b_stats st) = queued_sectors (b_queue st) * kSectorSize \<Longrightarrow>
    ws_queued_bytes (b_stats (pop_head st)) = queued_sectors (tl (b_queue st)) * kSectorSize"
  by (cases "b_queue st") (simp_all add: pop_head_def queued_sectors_def add_mult_distrib)

lemma pop_heads_bytes:
  "ws_queued_bytes (b_stats st) = queued_sectors (b_queue st) * kSectorSize \<Longrightarrow>
    ws_queued_bytes (b_stats ((pop_head ^^ n) st)) = queued_sectors (drop n (b_queue st)) * kSectorSize"
proof (induction n)
  case (Suc n)
  then have "ws_queued_bytes (b_stats ((pop_head ^^ n) st)) = queued_sectors (b_queue ((pop_head ^^ n) st)) * kSectorSize"
    by (simp add: b_queue_pop_heads)
  from pop_head_bytes [OF this] show ?case by (simp add: b_queue_pop_heads drop_Suc drop_tl)
qed simp

text \<open>What the block layer relies on from a disk driver: a read returns what the device holds,
  a successful write replaces exactly the sectors written, a failed one leaves the others
  alone, and a flush changes nothing a reader can see.\<close>

locale disk_medium =
  fixes D :: "'d disk_driver" and view :: "'d \<Rightarrow> nat \<Rightarrow> nat \<Rightarrow> sector"
  assumes read_view: "disk_read D c lba n m = Some bs \<Longrightarrow> bs = map (view m c) [lba..<lba + n]"
    and write_view: "disk_write D c lba bs m = (True, m') \<Longrightarrow>
      view m' c' x = (if c' = c \<and> lba \<le> x \<and> x < lba + length bs then bs ! (x - lba) else view m c' x)"
    and write_failed: "disk_write D c lba bs m = (False, m') \<Longrightarrow>
      \<not> (c' = c \<and> lba \<le> x \<and> x < lba + length bs) \<Longrightarrow> view m' c' x = view m c' x"
    and flush_view: "disk_flush D c m = (ok, m') \<Longrightarrow> view m' = view m"
begin

lemma read_seen:
  assumes inv: "block_inv view st" and i: "is_disk st i" and r: "disk_level_read D i lba n st = Some bs"
    and nd: "\<not> defers (b_devices st ! i) \<Longrightarrow> \<forall>r\<in>set (b_queue st). p_device r \<noteq> i"
  shows "bs = map (disk_seen view st i) [lba..<lba + n]"
proof -
  let ?c = "context_of st i"
  have d: "device_for_index i st = Some (b_devices st ! i)" "ops_target (bd_ops (b_devices st ! i)) = Driver_at ?c"
    using i by (simp_all add: device_for_index_def is_disk_def)
  from r d obtain ds where ds: "disk_read D ?c lba n (b_disks st) = Some ds"
    and bs: "bs = (if defers (b_devices st ! i) then overlay_queued i lba n (b_queue st) ds else ds)"
    by (auto simp: disk_level_read_def split: if_splits option.splits)
  have dv: "ds = map (view (b_disks st) ?c) [lba..<lba + n]" by (rule read_view [OF ds])
  have q: "\<forall>r\<in>set (b_queue st). length (p_data r) = p_count r" using inv by (auto simp: block_inv_def record_ok_def)
  have len: "length ds = n" using dv by simp
  have ov: "overlay_queued i lba n (b_queue st) ds = map (disk_seen view st i) [lba..<lba + n]"
  proof (cases "n = 0")
    case True
    have "length (foldl (\<lambda>b r. overlay_record i lba 0 r b) [] rs) = 0" for rs
      by (induction rs) (simp_all add: overlay_record_def Let_def)
    then show ?thesis using True len by (simp add: overlay_queued_def)
  next
    case False
    then have l: "length (overlay_queued i lba n (b_queue st) ds) = n"
      using overlay_queued_nth [OF q len, of 0 i lba] by simp
    show ?thesis
    proof (rule nth_equalityI)
      show "length (overlay_queued i lba n (b_queue st) ds) = length (map (disk_seen view st i) [lba..<lba + n])"
        using l by simp
      fix k assume "k < length (overlay_queued i lba n (b_queue st) ds)"
      then have k: "k < n" using l by simp
      show "overlay_queued i lba n (b_queue st) ds ! k = map (disk_seen view st i) [lba..<lba + n] ! k"
        using overlay_queued_nth [OF q len k, of i lba] k dv by (simp add: disk_seen_def)
    qed
  qed
  show ?thesis
  proof (cases "defers (b_devices st ! i)")
    case True
    then show ?thesis using bs ov by simp
  next
    case False
    then have "disk_seen view st i x = view (b_disks st) ?c x" for x
      using nd by (auto simp: disk_seen_def covers_def intro!: foldl_over_not_covered)
    then show ?thesis using bs False dv by simp
  qed
qed

end

section \<open>A step changes nothing a reader sees\<close>

text \<open>What the head record and the records merged behind it contribute to a sector.\<close>

lemma step_fold:
  assumes q: "\<forall>r'\<in>set (r # q). length (p_data r') = p_count r'" and wr: "p_written r < p_count r"
    and rem: "remaining = p_count r - p_written r"
    and n0: "n0 = (if remaining < kStepSectors then remaining else kStepSectors)"
    and g: "(if n0 = remaining then gather (p_device r) (p_lba r + p_written r) n0 q else (n0, [], 0)) = (n, extra, merged)"
    and lba: "lba = p_lba r + p_written r" and bs: "bs = take n0 (drop (p_written r) (p_data r)) @ extra"
  shows "length bs = n"
    and "i = p_device r \<and> lba \<le> x \<and> x < lba + n \<Longrightarrow>
      foldl (over i x) v (r # take merged q) = bs ! (x - lba)"
    and "n0 = remaining \<Longrightarrow> \<not> (i = p_device r \<and> lba \<le> x \<and> x < lba + n) \<Longrightarrow>
      foldl (over i x) v (r # take merged q) = (if i = p_device r \<and> p_lba r \<le> x \<and> x < lba then p_data r ! (x - p_lba r) else v)"
    and "0 < n" and "lba + n0 \<le> p_lba r + p_count r"
proof -
  have len: "length (p_data r) = p_count r" and q': "\<forall>r'\<in>set q. length (p_data r') = p_count r'" using q by simp_all
  have pos: "0 < n0" using n0 rem wr by (simp add: kStepSectors_def)
  have n0le: "n0 \<le> remaining" using n0 by simp
  have own: "length (take n0 (drop (p_written r) (p_data r))) = n0" using n0le rem len by simp
  have gs: "n0 \<le> n \<and> length extra = n - n0 \<and>
      foldl (over i x) w (take merged q) = (if i = p_device r \<and> lba + n0 \<le> x \<and> x < lba + n then extra ! (x - (lba + n0)) else w)"
    for i x w
  proof (cases "n0 = remaining")
    case True
    with g have "gather (p_device r) (p_lba r + p_written r) n0 q = (n, extra, merged)" by simp
    from gather_spec [OF this q', of i x w] show ?thesis by (simp add: lba)
  next
    case False
    then show ?thesis using g by auto
  qed
  show lb: "length bs = n" using gs bs own by simp
  show "0 < n" using pos gs by (meson less_le_trans)
  show "lba + n0 \<le> p_lba r + p_count r" using lba n0le rem wr by linarith
  show "foldl (over i x) v (r # take merged q) = bs ! (x - lba)" if t: "i = p_device r \<and> lba \<le> x \<and> x < lba + n"
  proof (cases "x < lba + n0")
    case True
    then have k: "x - lba < n0" "p_written r + (x - lba) = x - p_lba r" using t lba by linarith+
    have "bs ! (x - lba) = take n0 (drop (p_written r) (p_data r)) ! (x - lba)" using bs k own by (simp add: nth_append)
    also have "\<dots> = p_data r ! (x - p_lba r)" using k len wr by simp
    finally have "bs ! (x - lba) = p_data r ! (x - p_lba r)" .
    moreover have "covers r i x" using t True lba n0le rem wr by (auto simp: covers_def)
    ultimately show ?thesis using gs [of i x "over i x v r"] True t by (simp add: over_def)
  next
    case False
    then have "x - lba = n0 + (x - (lba + n0))" using t by linarith
    then have "bs ! (x - lba) = extra ! (x - (lba + n0))"
      using bs own by (metis nth_append_length_plus)
    then show ?thesis using gs [of i x "over i x v r"] False t by simp
  qed
  show "foldl (over i x) v (r # take merged q) = (if i = p_device r \<and> p_lba r \<le> x \<and> x < lba then p_data r ! (x - p_lba r) else v)"
    if full: "n0 = remaining" and t: "\<not> (i = p_device r \<and> lba \<le> x \<and> x < lba + n)"
  proof -
    have "covers r i x \<longleftrightarrow> i = p_device r \<and> p_lba r \<le> x \<and> x < lba"
    proof -
      have "n0 \<le> n" using gs by blast
      then have "p_lba r + p_count r \<le> lba + n" "lba < p_lba r + p_count r" "p_lba r \<le> lba"
        using full rem wr lba by linarith+
      then show ?thesis using t by (auto simp: covers_def)
    qed
    then show ?thesis using gs [of i x "over i x v r"] t by (auto simp: over_def)
  qed
qed

context disk_medium
begin

lemma ops_write_view:
  assumes "is_disk st i" and "ops_write D i lba bs st = (ok, st1)"
  shows "b_queue st1 = b_queue st" and "b_stats st1 = b_stats st" and "same_devices st st1" and "b_devices st1 = b_devices st"
    and "ok \<Longrightarrow> view (b_disks st1) c x =
      (if c = context_of st i \<and> lba \<le> x \<and> x < lba + length bs then bs ! (x - lba) else view (b_disks st) c x)"
    and "\<not> (c = context_of st i \<and> lba \<le> x \<and> x < lba + length bs) \<Longrightarrow> view (b_disks st1) c x = view (b_disks st) c x"
    and "b_log st1 = (if ok then b_log st @ [Dev_write i lba bs] else b_log st)"
proof -
  obtain m where w: "disk_write D (context_of st i) lba bs (b_disks st) = (ok, m)"
    and st1: "st1 = st\<lparr>b_disks := m, b_log := (if ok then b_log st @ [Dev_write i lba bs] else b_log st)\<rparr>"
    using assms by (auto simp: ops_write_def is_disk_def split: prod.splits)
  show "b_queue st1 = b_queue st" "b_stats st1 = b_stats st" "same_devices st st1" "b_devices st1 = b_devices st"
    "b_log st1 = (if ok then b_log st @ [Dev_write i lba bs] else b_log st)"
    using st1 by (simp_all add: same_devices_def)
  show "view (b_disks st1) c x =
      (if c = context_of st i \<and> lba \<le> x \<and> x < lba + length bs then bs ! (x - lba) else view (b_disks st) c x)" if ok
    using write_view [of "context_of st i" lba bs "b_disks st" m c x] w that st1 by simp
  then show "view (b_disks st1) c x = view (b_disks st) c x"
    if "\<not> (c = context_of st i \<and> lba \<le> x \<and> x < lba + length bs)"
    using write_failed [of "context_of st i" lba bs "b_disks st" m c x] w that st1 by (cases ok) simp_all
qed

lemma ops_flush_view:
  assumes "ops_flush D i st = (ok, st1)"
  shows "b_queue st1 = b_queue st" and "b_stats st1 = b_stats st" and "same_devices st st1" and "b_devices st1 = b_devices st"
    and "view (b_disks st1) = view (b_disks st)"
    and "is_disk st i \<Longrightarrow> b_log st1 = (if ok then b_log st @ [Dev_flush i] else b_log st)"
  using assms flush_view
  by (auto simp: ops_flush_def same_devices_def is_disk_def split: ops_target.splits prod.splits)

text \<open>A command that leaves the head record in the queue: it failed, or the record is longer
  than a step.\<close>

lemma keep_head:
  assumes inv: "block_inv view st" and q: "b_queue st = r # q" and sd: "same_devices st st'"
    and q': "b_queue st' = r\<lparr>p_written := w\<rparr> # q" and w: "w < p_count r"
    and bytes: "ws_queued_bytes (b_stats st') = queued_sectors (b_queue st') * kSectorSize"
    and fold: "\<And>i x. is_disk st i \<Longrightarrow> foldl (over i x) (view (b_disks st') (context_of st i) x) (r # q) =
      foldl (over i x) (view (b_disks st) (context_of st i) x) (r # q)"
    and hw: "\<And>k. k < w \<Longrightarrow> view (b_disks st') (context_of st (p_device r)) (p_lba r + k) = p_data r ! k"
  shows "block_inv view st' \<and> same_devices st st' \<and> (\<forall>i. is_disk st i \<longrightarrow> disk_seen view st' i = disk_seen view st i)"
proof (intro conjI allI impI)
  show "same_devices st st'" by (rule sd)
  have ro: "\<forall>r'\<in>set (r # q). record_ok st r'" and tl0: "\<forall>r'\<in>set q. p_written r' = 0"
    using inv q by (simp_all add: block_inv_def head_written_def)
  have "record_ok st (r\<lparr>p_written := w\<rparr>)" using ro w by (simp add: record_ok_def)
  then have "\<forall>r'\<in>set (b_queue st'). record_ok st' r'" using ro q' by (simp add: same_devices_record [OF sd])
  moreover have "head_written view st'"
    using q' hw tl0 by (simp add: head_written_def same_devices_context [OF sd])
  moreover have "b_device_count st' = b_device_count st" "length (b_devices st') = length (b_devices st)"
    "\<And>i. bd_present (b_devices st' ! i) = bd_present (b_devices st ! i)" using sd by (simp_all add: same_devices_def)
  ultimately show "block_inv view st'"
    using inv bytes by (simp add: block_inv_def same_devices_slice [OF sd] same_devices_disk [OF sd] same_devices_context [OF sd])
  show "disk_seen view st' i = disk_seen view st i" if "is_disk st i" for i
  proof
    fix x
    have "over i x v (r\<lparr>p_written := w\<rparr>) = over i x v r" for v by (simp add: over_def covers_def)
    then show "disk_seen view st' i x = disk_seen view st i x"
      using fold [OF that, of x] q q' by (simp add: disk_seen_def same_devices_context [OF sd])
  qed
qed

text \<open>A command that takes whole records off the queue.\<close>

lemma drop_head:
  assumes inv: "block_inv view st" and q: "b_queue st = r # q" and sd: "same_devices st st'"
    and q': "b_queue st' = drop k q"
    and bytes: "ws_queued_bytes (b_stats st') = queued_sectors (b_queue st') * kSectorSize"
    and fold: "\<And>i x. is_disk st i \<Longrightarrow> view (b_disks st') (context_of st i) x =
      foldl (over i x) (view (b_disks st) (context_of st i) x) (r # take k q)"
  shows "block_inv view st' \<and> same_devices st st' \<and> (\<forall>i. is_disk st i \<longrightarrow> disk_seen view st' i = disk_seen view st i)"
proof (intro conjI allI impI)
  show "same_devices st st'" by (rule sd)
  have ro: "\<forall>r'\<in>set (r # q). record_ok st r'" and tl0: "\<forall>r'\<in>set q. p_written r' = 0"
    using inv q by (simp_all add: block_inv_def head_written_def)
  have "\<forall>r'\<in>set (b_queue st'). record_ok st' r'"
    using ro q' by (auto simp: same_devices_record [OF sd] dest: in_set_dropD)
  moreover have "\<forall>r'\<in>set (drop k q). p_written r' = 0" using tl0 by (auto dest: in_set_dropD)
  then have "head_written view st'"
    using q' by (auto simp: head_written_def split: list.split)
  moreover have "b_device_count st' = b_device_count st" "length (b_devices st') = length (b_devices st)"
    "\<And>i. bd_present (b_devices st' ! i) = bd_present (b_devices st ! i)" using sd by (simp_all add: same_devices_def)
  ultimately show "block_inv view st'"
    using inv bytes by (simp add: block_inv_def same_devices_slice [OF sd] same_devices_disk [OF sd] same_devices_context [OF sd])
  show "disk_seen view st' i = disk_seen view st i" if "is_disk st i" for i
  proof
    fix x
    have "foldl (over i x) v (r # q) = foldl (over i x) (foldl (over i x) v (r # take k q)) (drop k q)" for v
      by (metis append_Cons append_take_drop_id foldl_append)
    then show "disk_seen view st' i x = disk_seen view st i x"
      using fold [OF that, of x] q q' by (simp add: disk_seen_def same_devices_context [OF sd])
  qed
qed

lemma step_write_keeps:
  assumes inv: "block_inv view st" and q: "b_queue st = r # q" and nz: "p_count r \<noteq> 0"
    and s: "step_write D r q st = (b, st')"
  shows "block_inv view st' \<and> same_devices st st' \<and> (\<forall>i. is_disk st i \<longrightarrow> disk_seen view st' i = disk_seen view st i)"
proof -
  let ?dev = "p_device r"
  define remaining where "remaining = p_count r - p_written r"
  define n0 where "n0 = (if remaining < kStepSectors then remaining else kStepSectors)"
  define lba where "lba = p_lba r + p_written r"
  obtain n extra merged where g: "(if n0 = remaining then gather ?dev (p_lba r + p_written r) n0 q else (n0, [], 0)) = (n, extra, merged)"
    by (metis prod_cases3)
  define bs where "bs = take n0 (drop (p_written r) (p_data r)) @ extra"
  obtain ok st1 where w: "ops_write D ?dev (p_lba r + p_written r) (take n0 (drop (p_written r) (p_data r)) @ extra) st = (ok, st1)"
    by fastforce
  have ro: "\<forall>r'\<in>set (r # q). record_ok st r'" and hw: "head_written view st"
    and bytes: "ws_queued_bytes (b_stats st) = queued_sectors (r # q) * kSectorSize"
    using inv q by (simp_all add: block_inv_def)
  have wr: "p_written r < p_count r" and disk: "is_disk st ?dev" and ql: "\<forall>r'\<in>set (r # q). length (p_data r') = p_count r'"
    using ro nz by (auto simp: record_ok_def)
  note fold = step_fold [OF ql wr remaining_def n0_def g lba_def bs_def]
  note wv = ops_write_view [OF disk w, folded lba_def bs_def, unfolded fold(1)]
  note eq = step_write_eq [OF remaining_def n0_def g w]
  note cases = step_gather_cases [OF remaining_def n0_def g]
  have inj: "context_of st i = context_of st ?dev \<longleftrightarrow> i = ?dev" if "is_disk st i" for i
    using inv that disk by (auto simp: block_inv_def)
  have hws: "view (b_disks st) (context_of st ?dev) (p_lba r + k) = p_data r ! k" if "k < p_written r" for k
    using hw q that by (simp add: head_written_def)
  define st2 where "st2 = upd_device ?dev (bd_unflushed_update (\<lambda>_. True)) (upd_stats (ws_device_writes_update Suc) st1)"
  have sd2: "same_devices st st2"
    using wv(3,4) same_devices_upd [of "bd_unflushed_update (\<lambda>_. True)" st ?dev] by (simp add: st2_def same_devices_def)
  have overwritten: "foldl (over i x) (view (b_disks st1) (context_of st i) x) (r # q) =
      foldl (over i x) (view (b_disks st) (context_of st i) x) (r # q)" if i: "is_disk st i" for i x
  proof (cases "i = ?dev \<and> lba \<le> x \<and> x < lba + n")
    case True
    have "foldl (over i x) v (r # q) = foldl (over i x) (foldl (over i x) v (r # take merged q)) (drop merged q)" for v
      by (metis append_Cons append_take_drop_id foldl_append)
    then show ?thesis unfolding fold(2) [OF True] by simp
  next
    case False
    then show ?thesis using wv(6) [of "context_of st i" x] inj [OF i] by simp
  qed
  consider (failed) "\<not> ok" | (partial) "ok" "n < remaining" | (full) "ok" "\<not> n < remaining" by blast
  then show ?thesis
  proof cases
    case failed
    have st': "st' = fail ?dev st1" using s eq failed by simp
    have "view (b_disks st1) (context_of st ?dev) (p_lba r + k) = p_data r ! k" if "k < p_written r" for k
      using that hws wv(6) [of "context_of st ?dev" "p_lba r + k"] by (simp add: lba_def)
    moreover have "same_devices st st'" using wv(3) fail_keeps(1) same_devices_trans st' by blast
    ultimately show ?thesis
      using overwritten wr wv(1,2) bytes q
      by (intro keep_head [OF inv q, where w = "p_written r"]) (simp_all add: st' fail_keeps)
  next
    case partial
    have n: "n = kStepSectors" "n0 = n" "extra = []" "n < remaining" using partial cases by auto
    have st': "st' = upd_stats (ws_queued_bytes_update (\<lambda>b. b - n * kSectorSize)) (st2\<lparr>b_queue := r\<lparr>p_written := p_written r + n\<rparr> # q\<rparr>)"
      using s eq partial by (simp add: Let_def st2_def)
    have "view (b_disks st1) (context_of st ?dev) (p_lba r + k) = p_data r ! k" if k: "k < p_written r + n" for k
    proof (cases "k < p_written r")
      case True
      then show ?thesis using hws wv(6) [of "context_of st ?dev" "p_lba r + k"] by (simp add: lba_def)
    next
      case False
      have "bs ! (k - p_written r) = p_data r ! k" using False k n bs_def ql wr by (simp add: remaining_def)
      then show ?thesis using wv(5) [OF partial(1), of "context_of st ?dev" "p_lba r + k"] False k by (simp add: lba_def)
    qed
    moreover have "same_devices st st'" using sd2 st' by (simp add: same_devices_def)
    moreover have "ws_queued_bytes (b_stats st') = queued_sectors (b_queue st') * kSectorSize"
    proof -
      define left where "left = p_count r - (p_written r + n)"
      have l: "p_count r - p_written r = left + n" using n(4) by (simp add: remaining_def left_def)
      have "ws_queued_bytes (b_stats st') = (left + n + queued_sectors q) * kSectorSize - n * kSectorSize"
        using bytes wv(2) st' l by (simp add: st2_def queued_sectors_def)
      also have "\<dots> = (left + queued_sectors q) * kSectorSize" by (simp add: add_mult_distrib)
      finally show ?thesis using st' by (simp add: queued_sectors_def left_def)
    qed
    ultimately show ?thesis
      using overwritten n(4) st'
      by (intro keep_head [OF inv q, where w = "p_written r + n"]) (simp_all add: st2_def remaining_def less_diff_conv add.commute)
  next
    case full
    have n: "n0 = remaining" using full cases by auto
    have st': "st' = (pop_head ^^ Suc merged) st2" using s eq full by (simp add: Let_def st2_def funpow_swap1)
    have q2: "b_queue st2 = r # q" "ws_queued_bytes (b_stats st2) = queued_sectors (b_queue st2) * kSectorSize"
      using wv(1,2) q bytes by (simp_all add: st2_def)
    have "same_devices st st'" using sd2 pop_heads_keep(1) same_devices_trans st' by blast
    moreover have "b_queue st' = drop merged q" using st' q2(1) by (simp add: b_queue_pop_heads del: funpow.simps)
    moreover have "ws_queued_bytes (b_stats st') = queued_sectors (b_queue st') * kSectorSize"
      using pop_heads_bytes [OF q2(2), of "Suc merged"] st' by (simp add: b_queue_pop_heads del: funpow.simps)
    moreover have "view (b_disks st') (context_of st i) x =
        foldl (over i x) (view (b_disks st) (context_of st i) x) (r # take merged q)" if i: "is_disk st i" for i x
    proof -
      have d: "b_disks st' = b_disks st1" using st' pop_heads_keep(2) [of "Suc merged" st2] by (simp add: st2_def del: funpow.simps)
      show ?thesis
      proof (cases "i = ?dev \<and> lba \<le> x \<and> x < lba + n")
        case True
        then show ?thesis using fold(2) [OF True] wv(5) [OF full(1), of "context_of st i" x] d by simp
      next
        case False
        have "x = p_lba r + (x - p_lba r) \<and> x - p_lba r < p_written r" if "p_lba r \<le> x" "x < lba"
          using that by (simp add: lba_def less_diff_conv2 add.commute)
        then show ?thesis using fold(3) [OF n False] wv(6) [of "context_of st i" x] inj [OF i] False d hws [of "x - p_lba r"] by auto
      qed
    qed
    ultimately show ?thesis by (intro drop_head [OF inv q]) simp_all
  qed
qed

end

text \<open>The two draining loops only repeat the step: what every step keeps, they keep.\<close>

locale step_relation =
  fixes D :: "'d disk_driver" and I :: "'d block_state \<Rightarrow> bool" and R :: "'d block_state \<Rightarrow> 'd block_state \<Rightarrow> bool"
  assumes rel_refl: "I s \<Longrightarrow> R s s"
    and rel_step: "I s \<Longrightarrow> step D s = (b, s') \<Longrightarrow> R s s'"
    and rel_inv: "I s \<Longrightarrow> R s s' \<Longrightarrow> I s'"
    and rel_trans: "R s s1 \<Longrightarrow> R s1 s2 \<Longrightarrow> R s s2"
begin

lemma make_room_loop_rel:
  "I st \<Longrightarrow> make_room_loop D bytes waited st = (ok, w, st') \<Longrightarrow>
    R st st' \<and> (ok \<longrightarrow> b_queue st' = [] \<or> ws_queued_bytes (b_stats st') + bytes \<le> kMaxQueuedBytes)"
proof (induction "queue_work st" arbitrary: st waited rule: less_induct)
  case less
  obtain b st1 where s: "step D st = (b, st1)" by fastforce
  note r = rel_step [OF less.prems(1) s]
  show ?case
  proof (cases "b_queue st \<noteq> [] \<and> kMaxQueuedBytes < ws_queued_bytes (b_stats st) + bytes")
    case False
    then have "make_room_loop D bytes waited st = (True, waited, st)" by (subst make_room_loop.simps) auto
    then show ?thesis using less.prems rel_refl False by auto
  next
    case True
    then have e: "make_room_loop D bytes waited st = (if b then make_room_loop D bytes True st1 else (False, True, st1))"
      using s by (subst make_room_loop.simps) simp
    show ?thesis
    proof (cases b)
      case b: True
      have "queue_work st1 < queue_work st" using step_progress [of D st st1] s b by simp
      from less.hyps [OF this rel_inv [OF less.prems(1) r], of True] show ?thesis
        using less.prems(2) e b r rel_trans by auto
    qed (use e r less.prems(2) in auto)
  qed
qed

lemma drain_queue_rel:
  "I st \<Longrightarrow> drain_queue D st = (ok, st') \<Longrightarrow> R st st' \<and> (ok \<longrightarrow> b_queue st' = [])"
proof (induction "queue_work st" arbitrary: st rule: less_induct)
  case less
  obtain b st1 where s: "step D st = (b, st1)" by fastforce
  note r = rel_step [OF less.prems(1) s]
  show ?case
  proof (cases "b_queue st = []")
    case True
    then have "drain_queue D st = (True, st)" by (subst drain_queue.simps) simp
    then show ?thesis using less.prems True rel_refl by auto
  next
    case False
    then have e: "drain_queue D st = (if b then drain_queue D st1 else (False, st1))"
      using s by (subst drain_queue.simps) simp
    show ?thesis
    proof (cases b)
      case b: True
      have "queue_work st1 < queue_work st" using step_progress [of D st st1] s b by simp
      from less.hyps [OF this rel_inv [OF less.prems(1) r]] show ?thesis
        using less.prems(2) e b r rel_trans by auto
    qed (use e r less.prems(2) in auto)
  qed
qed

end

context disk_medium
begin

text \<open>The layer's housekeeping: the invariant stays, the devices stay, and so does every
  sector a reader can see.\<close>

definition keeps :: "'d block_state \<Rightarrow> 'd block_state \<Rightarrow> bool" where
  "keeps st st' \<longleftrightarrow> block_inv view st' \<and> same_devices st st' \<and> (\<forall>i. is_disk st i \<longrightarrow> disk_seen view st' i = disk_seen view st i)"

lemma keeps_refl: "block_inv view st \<Longrightarrow> keeps st st"
  by (simp add: keeps_def)

lemma keeps_inv: "block_inv view st \<Longrightarrow> keeps st st' \<Longrightarrow> block_inv view st'"
  by (simp add: keeps_def)

lemma keeps_trans: "keeps a b \<Longrightarrow> keeps b c \<Longrightarrow> keeps a c"
  by (auto simp: keeps_def same_devices_disk intro: same_devices_trans)

lemma keeps_same:
  assumes "block_inv view st" and "same_devices st st'" and "view (b_disks st') = view (b_disks st)" and "b_queue st' = b_queue st"
    and "ws_queued_bytes (b_stats st') = ws_queued_bytes (b_stats st)"
  shows "keeps st st'"
  using block_inv_same [OF assms] assms(2) by (simp add: keeps_def)

lemma step_flush_keeps:
  assumes inv: "block_inv view st" and q: "b_queue st = r # q" and z: "p_count r = 0"
    and s: "step_flush D (p_device r) st = (b, st')"
  shows "keeps st st'"
proof -
  let ?i = "p_device r"
  let ?f = "bd_unflushed (b_devices st ! ?i) \<and> ops_can_flush (bd_ops (b_devices st ! ?i))"
  obtain ok st1 where f: "(if ?f then ops_flush D ?i st else (True, st)) = (ok, st1)" by fastforce
  have v: "b_queue st1 = b_queue st" "b_stats st1 = b_stats st" "same_devices st st1" "view (b_disks st1) = view (b_disks st)"
    using f ops_flush_view [of ?i st ok st1] by (auto split: if_splits)
  show ?thesis
  proof (cases ok)
    case False
    then have st': "st' = fail ?i st1" using s f by (auto simp: step_flush_def Let_def split: if_splits)
    show ?thesis
    proof (rule keeps_same [OF inv])
      show "same_devices st st'" using v(3) fail_keeps(1) same_devices_trans st' by blast
    qed (simp_all add: st' fail_keeps v)
  next
    case True
    define st2 where "st2 = upd_device ?i (bd_unflushed_update (\<lambda>_. False))
      (if ?f then upd_stats (ws_device_flushes_update Suc) st1 else st1)"
    have st': "st' = pop_head st2" using s f True by (auto simp: step_flush_def Let_def st2_def split: if_splits)
    let ?st1 = "if ?f then upd_stats (ws_device_flushes_update Suc) st1 else st1"
    have "same_devices st1 ?st1" by (simp add: same_devices_def)
    moreover have "same_devices ?st1 st2" unfolding st2_def by (rule same_devices_upd) simp
    ultimately have sd: "same_devices st st2" using v(3) same_devices_trans by blast
    have q2: "b_queue st2 = r # q" "b_disks st2 = b_disks st1" "ws_queued_bytes (b_stats st2) = queued_sectors (b_queue st2) * kSectorSize"
      using v(1,2) q inv by (simp_all add: st2_def block_inv_def)
    have "b_queue st' = drop 0 q" using st' q2 by (simp add: b_queue_pop_head)
    moreover have "same_devices st st'" using same_devices_trans [OF sd, of "pop_head st2"] pop_heads_keep(1) [of st2 1] st' by simp
    moreover have "ws_queued_bytes (b_stats st') = queued_sectors (b_queue st') * kSectorSize"
      using pop_head_bytes [OF q2(3)] st' by (simp add: b_queue_pop_head)
    moreover have "view (b_disks st') (context_of st i) x = foldl (over i x) (view (b_disks st) (context_of st i) x) (r # take 0 q)" for i x
      using st' q2(2) v(4) pop_heads_keep(2) [of 1 st2] z by (auto simp: over_def covers_def)
    ultimately show ?thesis unfolding keeps_def by (intro drop_head [OF inv q, where k = 0]) simp_all
  qed
qed

lemma step_keeps:
  assumes inv: "block_inv view st" and s: "step D st = (b, st')"
  shows "keeps st st'"
proof (cases "b_queue st")
  case Nil
  then show ?thesis using s inv by (simp add: step_def keeps_refl)
next
  case (Cons r q)
  let ?st1 = "upd_stats (ws_steps_update Suc) st"
  have k1: "keeps st ?st1" using inv by (intro keeps_same) (simp_all add: same_devices_def)
  then have inv1: "block_inv view ?st1" by (simp add: keeps_def)
  have q1: "b_queue ?st1 = r # q" using Cons by simp
  consider "st' = st" | "p_count r = 0" "step_flush D (p_device r) ?st1 = (b, st')"
    | "p_count r \<noteq> 0" "step_write D r q ?st1 = (b, st')"
    using s Cons by (auto simp: step_def Let_def split: if_splits)
  then show ?thesis
  proof cases
    case 1
    then show ?thesis using inv by (simp add: keeps_refl)
  next
    case 2
    then show ?thesis using step_flush_keeps [OF inv1 q1] k1 keeps_trans by blast
  next
    case 3
    then show ?thesis using step_write_keeps [OF inv1 q1] k1 keeps_trans unfolding keeps_def [symmetric] by blast
  qed
qed

end

sublocale disk_medium \<subseteq> keeping: step_relation D "block_inv view" keeps
  by unfold_locales (auto intro: keeps_refl step_keeps keeps_inv keeps_trans)

context disk_medium
begin

lemma make_room_loop_keeps:
  "block_inv view st \<Longrightarrow> make_room_loop D bytes waited st = (ok, w, st') \<Longrightarrow> keeps st st'"
  using keeping.make_room_loop_rel by blast

lemma make_room_keeps:
  assumes "block_inv view st" and "make_room D bytes st = (ok, st')"
  shows "keeps st st'"
proof -
  obtain ok1 w st1 where l: "make_room_loop D bytes False st = (ok1, w, st1)" by (metis prod_cases3)
  have k: "keeps st st1" by (rule make_room_loop_keeps [OF assms(1) l])
  have "keeps st1 (upd_stats (ws_forced_drains_update Suc) st1)"
    using k by (intro keeps_same) (simp_all add: keeps_def same_devices_def)
  then show ?thesis using assms(2) l k keeps_trans by (auto simp: make_room_def split: if_splits)
qed

lemma drain_queue_keeps:
  "block_inv view st \<Longrightarrow> drain_queue D st = (ok, st') \<Longrightarrow> keeps st st' \<and> (ok \<longrightarrow> b_queue st' = [])"
  using keeping.drain_queue_rel by blast

lemma flush_devices_keeps:
  "block_inv view st \<Longrightarrow> flush_devices D is ok0 st = (ok, st') \<Longrightarrow> keeps st st' \<and> b_queue st' = b_queue st"
proof (induction "is" arbitrary: st ok0)
  case Nil
  then show ?case by (simp add: keeps_refl)
next
  case (Cons i "is")
  let ?d = "b_devices st ! i"
  obtain dn st1 where f: "(if ops_can_flush (bd_ops ?d) then ops_flush D i st else (True, st)) = (dn, st1)" by fastforce
  have v: "b_queue st1 = b_queue st" "b_stats st1 = b_stats st" "same_devices st st1" "view (b_disks st1) = view (b_disks st)"
    using f ops_flush_view [of i st dn st1] by (auto split: if_splits)
  have kf: "keeps st (fail i st1)"
  proof (rule keeps_same [OF Cons.prems(1)])
    show "same_devices st (fail i st1)" using v(3) fail_keeps(1) same_devices_trans by blast
  qed (simp_all add: fail_keeps v)
  let ?st2 = "upd_device i (bd_unflushed_update (\<lambda>_. False)) (upd_stats (ws_device_flushes_update Suc) st1)"
  have kd: "keeps st ?st2"
  proof (rule keeps_same [OF Cons.prems(1)])
    have "same_devices st1 (upd_stats (ws_device_flushes_update Suc) st1)" by (simp add: same_devices_def)
    moreover have "same_devices (upd_stats (ws_device_flushes_update Suc) st1) ?st2" by (rule same_devices_upd) simp
    ultimately show "same_devices st ?st2" using v(3) same_devices_trans by blast
  qed (simp_all add: v)
  consider "flush_devices D is ok0 st = (ok, st')" | "flush_devices D is False (fail i st1) = (ok, st')"
    | "flush_devices D is ok0 ?st2 = (ok, st')"
    using Cons.prems(2) f by (auto simp: Let_def split: if_splits)
  then show ?case
  proof cases
    case 1
    then show ?thesis using Cons.IH [OF Cons.prems(1)] by blast
  next
    case 2
    then have "keeps (fail i st1) st' \<and> b_queue st' = b_queue (fail i st1)" using Cons.IH kf unfolding keeps_def by blast
    then show ?thesis using kf keeps_trans fail_keeps(3) v(1) by metis
  next
    case 3
    then have "keeps ?st2 st' \<and> b_queue st' = b_queue ?st2" using Cons.IH kd unfolding keeps_def by blast
    then show ?thesis using kd keeps_trans v(1) by auto
  qed
qed

lemma drain_all_keeps:
  assumes "block_inv view st" and "drain_all D st = (ok, st')"
  shows "keeps st st' \<and> (ok \<longrightarrow> b_queue st' = [])"
proof -
  obtain b st1 where q: "drain_queue D st = (b, st1)" by fastforce
  note k = drain_queue_keeps [OF assms(1) q]
  show ?thesis
  proof (cases b)
    case True
    then have "flush_devices D [0..<b_device_count st1] True st1 = (ok, st')" using assms(2) q by (simp add: drain_all_def)
    from flush_devices_keeps [OF _ this] k True show ?thesis unfolding keeps_def [of st st1]
      using keeps_trans k by auto
  next
    case False
    then show ?thesis using assms(2) q k by (simp add: drain_all_def)
  qed
qed

end

text \<open>The ways a write to a whole disk can go.\<close>

lemma write_cases:
  assumes disk: "is_disk st i" and w: "disk_level_write_cached D heap i lba bs st = (ok, st')"
  obtains (refused) "\<not> ok" "st' = st"
    | (direct) "\<not> defers (b_devices st ! i)" "ops_write D i lba bs st = (ok, st')"
    | (no_room) "\<not> ok" "make_room D (length bs * kSectorSize) st = (False, st')"
    | (queued) st1 where "ok" "defers (b_devices st ! i)" "request_in_range (b_devices st ! i) lba (length bs)"
        "make_room D (length bs * kSectorSize) st = (True, st1)"
        "b_queue st' = b_queue st1 @ [\<lparr>p_device = i, p_lba = lba, p_count = length bs, p_written = 0,
           p_queued_ms = b_clock_ms st1, p_data = bs\<rparr>]"
        "b_device_count st' = b_device_count st1" "b_devices st' = b_devices st1" "b_disks st' = b_disks st1" "b_log st' = b_log st1"
        "ws_queued_bytes (b_stats st') = ws_queued_bytes (b_stats st1) + length bs * kSectorSize"
    | (undrained) st1 where "\<not> ok" "make_room D (length bs * kSectorSize) st = (True, st1)" "drain_all D st1 = (False, st')"
    | (through) st1 st2 st3 where "make_room D (length bs * kSectorSize) st = (True, st1)" "drain_all D st1 = (True, st2)"
        "ops_write D i lba bs st2 = (ok, st3)" "st' = (if ok then upd_device i (bd_unflushed_update (\<lambda>_. True)) st3 else st3)"
proof -
  let ?d = "b_devices st ! i"
  have d: "device_for_index i st = Some ?d" using disk by (simp add: device_for_index_def is_disk_def)
  obtain room st1 where m: "make_room D (length bs * kSectorSize) st = (room, st1)" by fastforce
  obtain drained st2 where dr: "drain_all D st1 = (drained, st2)" by fastforce
  obtain ok3 st3 where o: "ops_write D i lba bs st2 = (ok3, st3)" by fastforce
  note e = w [unfolded disk_level_write_cached_def d option.case Let_def m prod.case dr o]
  show ?thesis
  proof (cases "\<not> bd_writable ?d \<or> \<not> request_in_range ?d lba (length bs) \<or> defers ?d \<and> bd_failed ?d")
    case True
    then show ?thesis using e that(1,2) by (auto split: if_splits)
  next
    case ok: False
    show ?thesis
    proof (cases "defers ?d")
      case False
      then show ?thesis using e ok that(2) by auto
    next
      case df: True
      show ?thesis
      proof (cases room)
        case False
        then show ?thesis using e ok df m that(3) by auto
      next
        case room: True
        show ?thesis
        proof (cases heap)
          case True
          then show ?thesis using e ok df room m by (intro that(4) [of st1]) (auto simp: enqueue_def)
        next
          case False
          show ?thesis
          proof (cases drained)
            case True
            then show ?thesis using e ok df room False m dr o by (intro that(6) [of st1 st2 st3]) (auto split: if_splits)
          qed (use e ok df room False m dr that(5) in auto)
        qed
      qed
    qed
  qed
qed

context disk_medium
begin

lemma queue_only_deferred:
  assumes "block_inv view st" and "\<not> defers (b_devices st ! i)" and "r \<in> set (b_queue st)"
  shows "p_device r \<noteq> i"
  using assms by (auto simp: block_inv_def record_ok_def)

text \<open>A write that goes straight to a device no queued record is for.\<close>

lemma direct_write:
  assumes inv: "block_inv view st" and disk: "is_disk st i" and w: "ops_write D i lba bs st = (ok, st1)"
    and none: "\<forall>r\<in>set (b_queue st). p_device r \<noteq> i"
  shows "block_inv view st1" and "same_devices st st1"
    and "is_disk st j \<Longrightarrow> \<not> (j = i \<and> lba \<le> x \<and> x < lba + length bs) \<Longrightarrow> disk_seen view st1 j x = disk_seen view st j x"
    and "ok \<Longrightarrow> lba \<le> x \<Longrightarrow> x < lba + length bs \<Longrightarrow> disk_seen view st1 i x = bs ! (x - lba)"
proof -
  note wv = ops_write_view [OF disk w]
  show sd: "same_devices st st1" by (rule wv(3))
  have inj: "context_of st j = context_of st i \<longleftrightarrow> j = i" if "is_disk st j" for j
    using inv that disk by (auto simp: block_inv_def)
  have other: "view (b_disks st1) (context_of st j) x = view (b_disks st) (context_of st j) x"
    if "is_disk st j" "\<not> (j = i \<and> lba \<le> x \<and> x < lba + length bs)" for j x
    using wv(6) [of "context_of st j" x] inj that by auto
  show "disk_seen view st1 j x = disk_seen view st j x" if "is_disk st j" "\<not> (j = i \<and> lba \<le> x \<and> x < lba + length bs)"
    using other [OF that] wv(1) by (simp add: disk_seen_def same_devices_context [OF sd])
  show "disk_seen view st1 i x = bs ! (x - lba)" if "ok" "lba \<le> x" "x < lba + length bs"
    using wv(5) [OF that(1), of "context_of st i" x] that none wv(1)
    by (auto simp: disk_seen_def same_devices_context [OF sd] covers_def intro!: trans [OF foldl_over_not_covered])
  have "head_written view st1"
  proof (cases "b_queue st")
    case Nil
    then show ?thesis using wv(1) by (simp add: head_written_def)
  next
    case (Cons r q)
    then have "is_disk st (p_device r)" "p_device r \<noteq> i" using inv none by (auto simp: block_inv_def record_ok_def)
    then show ?thesis using inv other Cons wv(1)
      by (auto simp: block_inv_def head_written_def same_devices_context [OF sd])
  qed
  then show "block_inv view st1"
    using inv wv(1,2,4) by (simp add: block_inv_def same_devices_record [OF sd] same_devices_slice [OF sd]
      same_devices_disk [OF sd] same_devices_context [OF sd]) (use sd in \<open>simp add: same_devices_def\<close>)
qed

lemma enqueue_write:
  assumes inv: "block_inv view st" and disk: "is_disk st i" and df: "defers (b_devices st ! i)"
    and fit: "lba + length bs \<le> bd_sectors (b_devices st ! i)"
    and st': "b_queue st' = b_queue st @ [r]" "same_devices st st'" "b_disks st' = b_disks st"
      "ws_queued_bytes (b_stats st') = ws_queued_bytes (b_stats st) + length bs * kSectorSize"
    and r: "p_device r = i" "p_lba r = lba" "p_count r = length bs" "p_written r = 0" "p_data r = bs"
  shows "block_inv view st'"
    and "is_disk st j \<Longrightarrow> disk_seen view st' j x =
      (if j = i \<and> lba \<le> x \<and> x < lba + length bs then bs ! (x - lba) else disk_seen view st j x)"
proof -
  have "record_ok st r" using disk df fit r by (simp add: record_ok_def)
  moreover have "head_written view st'"
    using inv st' r by (auto simp: block_inv_def head_written_def same_devices_context split: list.splits)
  moreover have "b_device_count st' = b_device_count st" "length (b_devices st') = length (b_devices st)"
    "\<And>i. bd_present (b_devices st' ! i) = bd_present (b_devices st ! i)" using st'(2) by (simp_all add: same_devices_def)
  ultimately show "block_inv view st'"
    using inv st' r by (auto simp: block_inv_def same_devices_record same_devices_slice same_devices_disk
      same_devices_context queued_sectors_def add_mult_distrib)
  show "disk_seen view st' j x =
      (if j = i \<and> lba \<le> x \<and> x < lba + length bs then bs ! (x - lba) else disk_seen view st j x)" if "is_disk st j"
    using st' r by (auto simp: disk_seen_def same_devices_context over_def covers_def)
qed

text \<open>A write seen by its readers: the sectors written read back, every other sector of every
  disk is as before. A refused or failed write touches at most its own sectors.\<close>

lemma write_effect:
  assumes inv: "block_inv view st" and disk: "is_disk st i"
    and w: "disk_level_write_cached D heap i lba bs st = (ok, st')"
  shows "block_inv view st' \<and> same_devices st st' \<and>
    (\<forall>j x. is_disk st j \<longrightarrow>
      (\<not> (j = i \<and> lba \<le> x \<and> x < lba + length bs) \<longrightarrow> disk_seen view st' j x = disk_seen view st j x) \<and>
      (ok \<longrightarrow> j = i \<longrightarrow> lba \<le> x \<longrightarrow> x < lba + length bs \<longrightarrow> disk_seen view st' j x = bs ! (x - lba)))"
    (is "?effect st st'")
proof -
  have after: "?effect st st'" if "keeps st s" "?effect s st'" for s
    using that same_devices_trans [of st s st'] by (auto simp: keeps_def same_devices_disk)
  have failed: "?effect st st'" if "keeps st st'" "\<not> ok"
    using that by (auto simp: keeps_def)
  from disk w show ?thesis
  proof (cases rule: write_cases)
    case refused
    then show ?thesis using inv by simp
  next
    case direct
    show ?thesis using direct_write [OF inv disk direct(2)] queue_only_deferred [OF inv direct(1)] by blast
  next
    case no_room
    show ?thesis using failed [OF make_room_keeps [OF inv no_room(2)] no_room(1)] .
  next
    case (queued st1)
    note k1 = make_room_keeps [OF inv queued(4)]
    then have inv1: "block_inv view st1" and sd1: "same_devices st st1" by (simp_all add: keeps_def)
    have disk1: "is_disk st1 i" "defers (b_devices st1 ! i)" "lba + length bs \<le> bd_sectors (b_devices st1 ! i)"
      using disk sd1 queued(2,3) same_devices_disk [OF sd1]
      by (auto simp: same_devices_def defers_def request_in_range_def split: if_splits)
    have sd2: "same_devices st1 st'" using queued(6,7) by (simp add: same_devices_def)
    note e = enqueue_write [OF inv1 disk1 queued(5) sd2 queued(8,10)]
    show ?thesis by (rule after [OF k1]) (use e sd2 queued(1) in auto)
  next
    case (undrained st1)
    note k1 = make_room_keeps [OF inv undrained(2)]
    have "keeps st1 st'" using drain_all_keeps [OF _ undrained(3)] k1 by (auto simp: keeps_def)
    then show ?thesis using failed keeps_trans [OF k1] undrained(1) by blast
  next
    case (through st1 st2 st3)
    note k1 = make_room_keeps [OF inv through(1)]
    have k2: "keeps st1 st2" "b_queue st2 = []" using drain_all_keeps [OF _ through(2)] k1 by (auto simp: keeps_def)
    then have inv2: "block_inv view st2" and disk2: "is_disk st2 i"
      using disk k1 by (auto simp: keeps_def same_devices_disk)
    note e = direct_write [OF inv2 disk2 through(3)]
    have k3: "keeps st3 st'"
      using e(1) k2(2) through(4) same_devices_upd [of "bd_unflushed_update (\<lambda>_. True)" st3 i]
      by (auto intro!: keeps_same keeps_refl)
    then have s3: "block_inv view st'" "same_devices st2 st'" "\<And>j x. is_disk st2 j \<Longrightarrow> disk_seen view st' j x = disk_seen view st3 j x"
      using e(2) k2(2) same_devices_trans [of st2 st3 st'] same_devices_disk [of st2 st3] by (auto simp: keeps_def)
    show ?thesis by (rule after [OF keeps_trans [OF k1 k2(1)]]) (use e k2(2) s3 in auto)
  qed
qed

lemma flush_effect:
  assumes inv: "block_inv view st" and disk: "is_disk st i" and f: "disk_level_flush D heap i st = (ok, st')"
  shows "keeps st st'"
proof -
  let ?r = "\<lparr>p_device = i, p_lba = 0, p_count = 0, p_written = 0, p_queued_ms = b_clock_ms st, p_data = []\<rparr>"
  have d: "device_for_index i st = Some (b_devices st ! i)" using disk by (simp add: device_for_index_def is_disk_def)
  have "st' = st \<or> ops_flush D i st = (ok, st') \<or> drain_all D st = (ok, st') \<or>
    defers (b_devices st ! i) \<and> st' = st\<lparr>b_queue := b_queue st @ [?r]\<rparr>"
    using f unfolding disk_level_flush_def d option.case enqueue_def by (simp split: if_split_asm)
  then consider "st' = st" | "ops_flush D i st = (ok, st')" | "drain_all D st = (ok, st')"
    | "defers (b_devices st ! i)" "st' = st\<lparr>b_queue := b_queue st @ [?r]\<rparr>" by blast
  then show ?thesis
  proof cases
    case 1
    then show ?thesis using inv by (simp add: keeps_refl)
  next
    case 2
    note v = ops_flush_view [OF 2]
    show ?thesis using v by (intro keeps_same [OF inv]) simp_all
  next
    case 3
    then show ?thesis using drain_all_keeps [OF inv] by blast
  next
    case 4
    have sd: "same_devices st st'" using 4(2) by (simp add: same_devices_def)
    have "block_inv view st'" "\<And>j x. is_disk st j \<Longrightarrow> disk_seen view st' j x = disk_seen view st j x"
      using enqueue_write [OF inv disk 4(1), of 0 "[]" st' ?r] 4(2) sd disk
      by (auto simp: is_disk_def)
    then show ?thesis using sd by (simp add: keeps_def fun_eq_iff)
  qed
qed

end

definition image_view :: "image \<Rightarrow> nat \<Rightarrow> nat \<Rightarrow> sector" where
  "image_view im c x = (if c = 0 \<and> x < length (im_sectors im) then im_sectors im ! x else [])"

lemma nth_splice:
  "lba + length bs \<le> length xs \<Longrightarrow> x < length xs \<Longrightarrow>
    (take lba xs @ bs @ drop (lba + length bs) xs) ! x = (if lba \<le> x \<and> x < lba + length bs then bs ! (x - lba) else xs ! x)"
  by (auto simp: nth_append min_def)

interpretation ramdisk: disk_medium ramdisk_driver image_view
proof
  show "bs = map (image_view m c) [lba..<lba + n]" if "disk_read ramdisk_driver c lba n m = Some bs" for c lba n m bs
    using that by (auto simp: ramdisk_driver_def ramdisk_read_op_def image_view_def intro!: nth_equalityI split: if_splits)
  show "image_view m' c' x = (if c' = c \<and> lba \<le> x \<and> x < lba + length bs then bs ! (x - lba) else image_view m c' x)"
    if "disk_write ramdisk_driver c lba bs m = (True, m')" for c lba bs m m' c' x
    using that nth_splice [of lba bs "im_sectors m" x]
    by (auto simp: ramdisk_driver_def ramdisk_write_op_def image_view_def split: if_splits)
  show "image_view m' c' x = image_view m c' x" if "disk_write ramdisk_driver c lba bs m = (False, m')" for c lba bs m m' c' x
    using that by (auto simp: ramdisk_driver_def ramdisk_write_op_def split: if_splits)
  show "image_view m' = image_view m" if "disk_flush ramdisk_driver c m = (ok, m')" for c m ok m'
    using that by (simp add: ramdisk_driver_def)
qed

section \<open>Calls on the layer and the store they refine\<close>

text \<open>Where the sectors of a device are: the disk underneath and the first sector.\<close>

definition place :: "'d block_state \<Rightarrow> nat \<Rightarrow> (nat \<times> nat) option" where
  "place st i =
     (case device_for_index i st of
        None \<Rightarrow> None
      | Some d \<Rightarrow>
          (case ops_target (bd_ops d) of Driver_at c \<Rightarrow> Some (i, 0) | Slice_of p s \<Rightarrow> Some (p, s)))"

datatype block_call =
    Read nat nat nat
  | Write_cached bool nat nat "sector list"
  | Write bool bool nat nat "sector list"
  | Flush bool nat
  | Sync nat
  | Sync_all
  | Step
  | Tick u64

datatype block_reply = Data "sector list option" | Done bool

fun run_call :: "'d disk_driver \<Rightarrow> block_call \<Rightarrow> 'd block_state \<Rightarrow> block_reply \<times> 'd block_state" where
  "run_call D (Read i lba n) st = (Data (block_read D i lba n st), st)"
| "run_call D (Write_cached h i lba bs) st = (case write_cached D h i lba bs st of (ok, st') \<Rightarrow> (Done ok, st'))"
| "run_call D (Write h1 h2 i lba bs) st = (case block_write D h1 h2 i lba bs st of (ok, st') \<Rightarrow> (Done ok, st'))"
| "run_call D (Flush h i) st = (case block_flush D h i st of (ok, st') \<Rightarrow> (Done ok, st'))"
| "run_call D (Sync i) st = (case block_sync D i st of (ok, st') \<Rightarrow> (Done ok, st'))"
| "run_call D Sync_all st = (case sync_all D st of (ok, st') \<Rightarrow> (Done ok, st'))"
| "run_call D Step st = (case writeback_step D st of (ok, st') \<Rightarrow> (Done ok, st'))"
| "run_call D (Tick now) st = (Done True, writeback_tick D now st)"

fun run_calls :: "'d disk_driver \<Rightarrow> block_call list \<Rightarrow> 'd block_state \<Rightarrow> block_reply list \<times> 'd block_state" where
  "run_calls D [] st = ([], st)"
| "run_calls D (c # cs) st =
     (case run_call D c st of (a, st1) \<Rightarrow> (case run_calls D cs st1 of (as, st2) \<Rightarrow> (a # as, st2)))"

text \<open>The specification: disks are arrays of sectors, a write that succeeds replaces its sectors, a
  write that fails may have changed those sectors and no other, a read returns what the array
  holds, and nothing else changes it.\<close>

type_synonym store = "nat \<Rightarrow> nat \<Rightarrow> sector option"

definition store_write :: "(nat \<Rightarrow> (nat \<times> nat) option) \<Rightarrow> nat \<Rightarrow> nat \<Rightarrow> sector list \<Rightarrow> bool \<Rightarrow> store \<Rightarrow> store \<Rightarrow> bool" where
  "store_write pl i lba bs ok s s' =
     (case pl i of
        None \<Rightarrow> \<not> ok \<and> s' = s
      | Some (j, base) \<Rightarrow>
          (\<forall>j' x. \<not> (j' = j \<and> base + lba \<le> x \<and> x < base + lba + length bs) \<longrightarrow> s' j' x = s j' x) \<and>
          (ok \<longrightarrow> (\<forall>k<length bs. s' j (base + lba + k) = Some (bs ! k))))"

fun store_call :: "(nat \<Rightarrow> (nat \<times> nat) option) \<Rightarrow> block_call \<Rightarrow> block_reply \<Rightarrow> store \<Rightarrow> store \<Rightarrow> bool" where
  "store_call pl (Read i lba n) a s s' \<longleftrightarrow> s' = s \<and>
     (case a of
        Data None \<Rightarrow> True
      | Data (Some bs) \<Rightarrow>
          (case pl i of None \<Rightarrow> False | Some (j, base) \<Rightarrow> map Some bs = map (s j) [base + lba..<base + lba + n])
      | Done ok \<Rightarrow> False)"
| "store_call pl (Write_cached h i lba bs) a s s' \<longleftrightarrow> (case a of Done ok \<Rightarrow> store_write pl i lba bs ok s s' | Data d \<Rightarrow> False)"
| "store_call pl (Write h1 h2 i lba bs) a s s' \<longleftrightarrow> (case a of Done ok \<Rightarrow> store_write pl i lba bs ok s s' | Data d \<Rightarrow> False)"
| "store_call pl (Flush h i) a s s' \<longleftrightarrow> s' = s"
| "store_call pl (Sync i) a s s' \<longleftrightarrow> s' = s"
| "store_call pl Sync_all a s s' \<longleftrightarrow> s' = s"
| "store_call pl Step a s s' \<longleftrightarrow> s' = s"
| "store_call pl (Tick now) a s s' \<longleftrightarrow> s' = s"

inductive store_calls :: "(nat \<Rightarrow> (nat \<times> nat) option) \<Rightarrow> block_call list \<Rightarrow> block_reply list \<Rightarrow> store \<Rightarrow> store \<Rightarrow> bool"
  for pl where
  no_calls: "store_calls pl [] [] s s"
| one_more: "store_call pl c a s s1 \<Longrightarrow> store_calls pl cs as s1 s' \<Longrightarrow> store_calls pl (c # cs) (a # as) s s'"

definition flat :: "('d \<Rightarrow> nat \<Rightarrow> nat \<Rightarrow> sector) \<Rightarrow> 'd block_state \<Rightarrow> store" where
  "flat view st j x = (if is_disk st j then Some (disk_seen view st j x) else None)"

lemma same_devices_place: "same_devices st st' \<Longrightarrow> place st' i = place st i"
  by (auto simp: place_def same_devices_def device_for_index_def split: ops_target.split)

context disk_medium
begin

lemma keeps_flat: "keeps st st' \<Longrightarrow> flat view st' = flat view st \<and> block_inv view st' \<and> same_devices st st'"
  by (auto simp: keeps_def flat_def same_devices_disk fun_eq_iff)

text \<open>A device is a disk, or a partition of one.\<close>

lemma place_cases:
  assumes inv: "block_inv view st" and i: "device_for_index i st = Some d"
  obtains (disk) c where "ops_target (bd_ops d) = Driver_at c" "place st i = Some (i, 0)" "is_disk st i"
  | (slice) p s where "ops_target (bd_ops d) = Slice_of p s" "place st i = Some (p, s)" "is_disk st p"
proof (cases "ops_target (bd_ops d)")
  case (Driver_at c)
  then show ?thesis using i that(1) by (auto simp: place_def device_for_index_def is_disk_def context_of_def split: if_splits)
next
  case (Slice_of p s)
  have "slice_ok st i" "d = b_devices st ! i" using i inv by (auto simp: device_for_index_def block_inv_def split: if_splits)
  then show ?thesis using i that(2) Slice_of by (auto simp: place_def slice_ok_def)
qed

lemma disk_read_flat:
  assumes inv: "block_inv view st" and i: "is_disk st i" and r: "disk_level_read D i lba n st = Some bs"
  shows "map Some bs = map (flat view st i) [lba..<lba + n]"
  using read_seen [OF inv i r queue_only_deferred [OF inv, THEN ballI]] i by (simp add: flat_def)

lemma read_flat:
  assumes inv: "block_inv view st" and r: "block_read D i lba n st = Some bs"
  obtains j base where "place st i = Some (j, base)" "map Some bs = map (flat view st j) [base + lba..<base + lba + n]"
proof -
  obtain d where d: "device_for_index i st = Some d" using r by (auto simp: block_read_def split: option.splits)
  show ?thesis using inv d
  proof (cases rule: place_cases)
    case disk
    then show ?thesis using r d disk_read_flat [OF inv disk(3)] that [of i 0] by (simp add: block_read_def)
  next
    case (slice p s)
    then show ?thesis using r d disk_read_flat [OF inv slice(3), of "s + lba"] that [of p s] by (auto simp: block_read_def split: if_splits)
  qed
qed

lemma write_flat:
  assumes inv: "block_inv view st" and w: "write_cached D h i lba bs st = (ok, st')"
  shows "block_inv view st' \<and> same_devices st st' \<and> store_write (place st) i lba bs ok (flat view st) (flat view st')"
proof (cases "device_for_index i st")
  case None
  then show ?thesis using w inv by (auto simp: write_cached_def store_write_def place_def)
next
  case (Some d)
  have at_disk: "block_inv view st' \<and> same_devices st st' \<and> store_write (place st) i lba bs ok (flat view st) (flat view st')"
    if p: "place st i = Some (j, base)" "is_disk st j" "disk_level_write_cached D h j (base + lba) bs st = (ok, st')" for j base
    using write_effect [OF inv p(2,3)] p(1,2) by (auto simp: store_write_def flat_def same_devices_disk)
  from inv Some show ?thesis
  proof (cases rule: place_cases)
    case disk
    moreover have "disk_level_write_cached D h i (0 + lba) bs st = (ok, st')"
      using w Some disk(1) by (simp add: write_cached_def)
    ultimately show ?thesis using at_disk by blast
  next
    case (slice p s)
    have "\<not> ok \<and> st' = st \<or> disk_level_write_cached D h p (s + lba) bs st = (ok, st')"
      using w Some slice(1) by (simp add: write_cached_def split: if_splits)
    then show ?thesis
    proof
      assume "\<not> ok \<and> st' = st"
      then show ?thesis using slice(2) inv by (simp add: store_write_def)
    qed (use at_disk slice in blast)
  qed
qed

lemma flush_flat:
  assumes inv: "block_inv view st" and f: "block_flush D h i st = (ok, st')"
  shows "keeps st st'"
proof (cases "device_for_index i st")
  case None
  then show ?thesis using f inv by (auto simp: block_flush_def keeps_refl)
next
  case (Some d)
  from inv Some show ?thesis
  proof (cases rule: place_cases)
    case disk
    then show ?thesis using f Some flush_effect [OF inv disk(3)] by (simp add: block_flush_def)
  next
    case (slice p s)
    have "st' = st \<or> disk_level_flush D h p st = (ok, st')"
      using f Some slice(1) by (simp add: block_flush_def split: if_splits)
    then show ?thesis using flush_effect [OF inv slice(3)] keeps_refl [OF inv] by blast
  qed
qed

lemma sync_keeps:
  assumes inv: "block_inv view st" and f: "block_sync D i st = (ok, st')"
  shows "keeps st st' \<and> (ok \<longrightarrow> b_queue st' = [])"
  using assms drain_all_keeps [OF inv] by (auto simp: block_sync_def keeps_refl split: if_splits)

lemma tick_keeps: "block_inv view st \<Longrightarrow> keeps st (writeback_tick D now st)"
proof -
  assume inv: "block_inv view st"
  let ?st1 = "st\<lparr>b_clock_ms := now\<rparr>" and ?st2 = "st\<lparr>b_clock_ms := now, b_last_forced_ms := now\<rparr>"
  have k1: "keeps st ?st1" and k2: "keeps st ?st2" using inv by (auto intro!: keeps_same simp: same_devices_def)
  have "keeps ?st2 (snd (step D ?st2))" using step_keeps [of ?st2] k2 by (cases "step D ?st2") (simp add: keeps_def)
  then show ?thesis using k1 k2 keeps_trans by (auto simp: writeback_tick_def Let_def)
qed

lemma block_write_flat:
  assumes inv: "block_inv view st" and w: "block_write D h1 h2 i lba bs st = (ok, st')"
  shows "block_inv view st' \<and> same_devices st st' \<and> store_write (place st) i lba bs ok (flat view st) (flat view st') \<and>
    (ok \<longrightarrow> b_queue st' = [])"
proof -
  obtain ok1 st1 where w1: "write_cached D h1 i lba bs st = (ok1, st1)" by fastforce
  note a = write_flat [OF inv w1]
  have weaken: "store_write (place st) i lba bs ok1 s s' \<Longrightarrow> ok \<longrightarrow> ok1 \<Longrightarrow> place st i \<noteq> None \<Longrightarrow> store_write (place st) i lba bs ok s s'" for s s'
    by (auto simp: store_write_def split: option.splits)
  show ?thesis
  proof (cases ok1)
    case False
    then show ?thesis using w w1 a by (simp add: block_write_def)
  next
    case True
    obtain ok2 st2 where f: "block_flush D h2 i st1 = (ok2, st2)" by fastforce
    have k2: "keeps st1 st2" using flush_flat [OF _ f] a by blast
    have "place st i \<noteq> None" using a True by (auto simp: store_write_def split: option.splits)
    moreover have "keeps st1 st' \<and> (ok \<longrightarrow> b_queue st' = [])"
    proof (cases ok2)
      case False
      then show ?thesis using w w1 True f k2 by (simp add: block_write_def)
    next
      case ok2: True
      then have "block_sync D i st2 = (ok, st')" using w w1 True f by (simp add: block_write_def)
      then show ?thesis using sync_keeps [of st2] keeps_flat [OF k2] keeps_trans [OF k2] by blast
    qed
    ultimately show ?thesis using a True keeps_flat [of st1 st'] weaken same_devices_trans by auto
  qed
qed

lemma call_refines:
  assumes inv: "block_inv view st" and r: "run_call D c st = (a, st')"
  shows "block_inv view st' \<and> same_devices st st' \<and> store_call (place st) c a (flat view st) (flat view st')"
proof (cases c)
  case (Read i lba n)
  show ?thesis
  proof (cases "block_read D i lba n st")
    case (Some bs)
    from read_flat [OF inv Some] obtain j base where "place st i = Some (j, base)"
      "map Some bs = map (flat view st j) [base + lba..<base + lba + n]" .
    then show ?thesis using r Read inv Some by (auto simp del: map_map)
  qed (use r Read inv in auto)
next
  case (Write_cached h i lba bs)
  then show ?thesis using r write_flat [OF inv] by (auto split: prod.splits)
next
  case (Write h1 h2 i lba bs)
  then show ?thesis using r block_write_flat [OF inv] by (auto split: prod.splits)
next
  case (Flush h i)
  then have "keeps st st'" "\<exists>ok. a = Done ok" using r by (auto split: prod.splits intro: flush_flat [OF inv])
  then show ?thesis using keeps_flat [of st st'] Flush by auto
next
  case (Sync i)
  then have "keeps st st'" "\<exists>ok. a = Done ok" using r by (auto split: prod.splits dest: sync_keeps [OF inv])
  then show ?thesis using keeps_flat [of st st'] Sync by auto
next
  case Sync_all
  then have "keeps st st'" "\<exists>ok. a = Done ok" using r by (auto simp: sync_all_def split: prod.splits dest: drain_all_keeps [OF inv])
  then show ?thesis using keeps_flat [of st st'] Sync_all by auto
next
  case Step
  then have "keeps st st'" "\<exists>ok. a = Done ok" using r by (auto simp: writeback_step_def split: prod.splits dest: step_keeps [OF inv])
  then show ?thesis using keeps_flat [of st st'] Step by auto
next
  case (Tick now)
  then show ?thesis using r keeps_flat [OF tick_keeps [OF inv, of now]] by auto
qed

lemma calls_refine:
  "block_inv view st \<Longrightarrow> run_calls D cs st = (as, st') \<Longrightarrow>
    block_inv view st' \<and> same_devices st st' \<and> store_calls (place st) cs as (flat view st) (flat view st')"
proof (induction cs arbitrary: st as)
  case (Cons c cs)
  obtain a st1 as1 where r: "run_call D c st = (a, st1)" "run_calls D cs st1 = (as1, st')" "as = a # as1"
    using Cons.prems(2) by (auto split: prod.splits)
  note c = call_refines [OF Cons.prems(1) r(1)]
  then have "place st1 = place st" by (simp add: fun_eq_iff same_devices_place)
  then show ?case using Cons.IH [OF _ r(2)] c r(3) same_devices_trans by (auto intro: one_more)
qed (auto intro: no_calls)

end

section \<open>The order of writes and flushes\<close>

text \<open>What a device is told, sector by sector: a command that has completed, or a record that is
  still in the queue.\<close>

datatype event = Sector nat nat sector | Barrier nat

definition sector_events :: "nat \<Rightarrow> nat \<Rightarrow> sector list \<Rightarrow> event list" where
  "sector_events i lba bs = map (\<lambda>k. Sector i (lba + k) (bs ! k)) [0..<length bs]"

fun command_events :: "dev_command \<Rightarrow> event list" where
  "command_events (Dev_write i lba bs) = sector_events i lba bs"
| "command_events (Dev_flush i) = [Barrier i]"

definition record_events :: "pending \<Rightarrow> event list" where
  "record_events r =
     (if p_count r = 0 then [Barrier (p_device r)]
      else sector_events (p_device r) (p_lba r + p_written r) (drop (p_written r) (p_data r)))"

definition done_events :: "'d block_state \<Rightarrow> event list" where
  "done_events st = concat (map command_events (b_log st))"

definition events :: "'d block_state \<Rightarrow> event list" where
  "events st = done_events st @ concat (map record_events (b_queue st))"

fun writes_of :: "nat \<Rightarrow> event list \<Rightarrow> (nat \<times> sector) list" where
  "writes_of i [] = []"
| "writes_of i (Sector j x s # es) = (if j = i then (x, s) # writes_of i es else writes_of i es)"
| "writes_of i (Barrier j # es) = writes_of i es"

text \<open>The ordering points of a device: how many of its sectors were written before each.\<close>

fun cuts :: "nat \<Rightarrow> nat \<Rightarrow> event list \<Rightarrow> nat set" where
  "cuts i n [] = {}"
| "cuts i n (Sector j x s # es) = cuts i (if j = i then Suc n else n) es"
| "cuts i n (Barrier j # es) = (if j = i then insert n (cuts i n es) else cuts i n es)"

definition flushable :: "'d block_state \<Rightarrow> nat \<Rightarrow> bool" where
  "flushable st i \<longleftrightarrow> is_disk st i \<and> defers (b_devices st ! i) \<and> ops_can_flush (bd_ops (b_devices st ! i))"

text \<open>A device marked as flushed has had nothing written since its last flush.\<close>

definition flushed :: "nat \<Rightarrow> 'd block_state \<Rightarrow> bool" where
  "flushed i st \<longleftrightarrow> length (writes_of i (done_events st)) \<in> insert 0 (cuts i 0 (done_events st))"

definition settled :: "'d block_state \<Rightarrow> bool" where
  "settled st \<longleftrightarrow> (\<forall>i. flushable st i \<longrightarrow> \<not> bd_unflushed (b_devices st ! i) \<longrightarrow> flushed i st)"

text \<open>\<open>follows i st es st'\<close>: the device \<open>i\<close> was told, or will be told, the same writes in the
  same order, then those of \<open>es\<close>, and every ordering point is kept.\<close>

definition follows :: "'d block_state \<Rightarrow> event list \<Rightarrow> 'd block_state \<Rightarrow> bool" where
  "follows st es st' \<longleftrightarrow> settled st' \<and> (\<forall>i. flushable st i \<longrightarrow>
     writes_of i (events st') = writes_of i (events st @ es) \<and>
     cuts i 0 (events st @ es) \<subseteq> insert 0 (cuts i 0 (events st')))"

lemma writes_of_append [simp]: "writes_of i (a @ b) = writes_of i a @ writes_of i b"
  by (induction i a rule: writes_of.induct) simp_all

lemma cuts_append [simp]: "cuts i n (a @ b) = cuts i n a \<union> cuts i (n + length (writes_of i a)) b"
  by (induction i n a rule: cuts.induct) simp_all

lemma cuts_ge: "c \<in> cuts i n es \<Longrightarrow> n \<le> c"
  by (induction i n es rule: cuts.induct) (auto split: if_splits)

lemma writes_of_map_other [simp]: "j \<noteq> i \<Longrightarrow> writes_of i (map (\<lambda>k. Sector j (f k) (g k)) ks) = []"
  by (induction ks) simp_all

lemma cuts_map_sectors [simp]: "cuts i n (map (\<lambda>k. Sector j (f k) (g k)) ks) = {}"
  by (induction ks arbitrary: n) simp_all

lemma writes_of_sectors_other [simp]: "j \<noteq> i \<Longrightarrow> writes_of i (sector_events j lba bs) = []"
  by (simp add: sector_events_def)

lemma cuts_sectors [simp]: "cuts i n (sector_events j lba bs) = {}"
  by (simp add: sector_events_def)

lemma sector_events_append: "sector_events i lba (a @ b) = sector_events i lba a @ sector_events i (lba + length a) b"
proof -
  have "[0..<length a + length b] = [0..<length a] @ map (\<lambda>k. length a + k) [0..<length b]"
    by (simp add: upt_add_eq_append [of 0] map_add_upt add.commute)
  then show ?thesis by (simp add: sector_events_def nth_append add.assoc)
qed

lemma gather_events:
  "gather dev lba n q = (n', bs, merged) \<Longrightarrow> \<forall>r\<in>set q. length (p_data r) = p_count r \<and> p_written r = 0 \<Longrightarrow>
    concat (map record_events (take merged q)) = sector_events dev (lba + n) bs"
proof (induction dev lba n q arbitrary: n' bs merged rule: gather.induct)
  case (2 dev lba n r q)
  show ?case
  proof (cases "p_count r \<noteq> 0 \<and> p_device r = dev \<and> p_lba r = lba + n \<and> n + p_count r \<le> kStepSectors")
    case True
    obtain n1 bs1 m1 where g: "gather dev lba (n + p_count r) q = (n1, bs1, m1)" by (metis prod_cases3)
    have e: "bs = p_data r @ bs1" "merged = Suc m1" using 2(2,3) True g by auto
    show ?thesis using 2(1) [OF True g] 2(3) True e
      by (auto simp: record_events_def sector_events_append add.assoc)
  next
    case False
    then show ?thesis using 2(2) by (auto simp: sector_events_def split: if_splits)
  qed
qed (simp add: sector_events_def)

lemma done_events_snoc: "b_log st' = b_log st @ cs \<Longrightarrow> done_events st' = done_events st @ concat (map command_events cs)"
  by (simp add: done_events_def)

lemma same_devices_flushable: "same_devices st st' \<Longrightarrow> flushable st' i = flushable st i"
  by (simp add: flushable_def same_devices_disk) (simp add: same_devices_def defers_def)

lemma flushable_bound: "block_inv view st \<Longrightarrow> flushable st i \<Longrightarrow> i < length (b_devices st)"
  by (auto simp: flushable_def is_disk_def block_inv_def)

lemma follows_trans:
  assumes "follows a es b" and "follows b es' c" and "same_devices a b"
  shows "follows a (es @ es') c"
  unfolding follows_def
proof (intro conjI allI impI)
  show "settled c" using assms(2) by (simp add: follows_def)
  fix i assume i: "flushable a i"
  then have ib: "flushable b i" using assms(3) by (simp add: same_devices_flushable)
  have w: "writes_of i (events b) = writes_of i (events a @ es)" and c: "cuts i 0 (events a @ es) \<subseteq> insert 0 (cuts i 0 (events b))"
    using assms(1) i by (simp_all add: follows_def)
  have w': "writes_of i (events c) = writes_of i (events b @ es')" and c': "cuts i 0 (events b @ es') \<subseteq> insert 0 (cuts i 0 (events c))"
    using assms(2) ib by (simp_all add: follows_def)
  show "writes_of i (events c) = writes_of i (events a @ es @ es')" using w w' by simp
  have "cuts i (length (writes_of i (events a @ es))) es' = cuts i (length (writes_of i (events b))) es'" using w by simp
  then show "cuts i 0 (events a @ es @ es') \<subseteq> insert 0 (cuts i 0 (events c))"
    using c c' by auto
qed

text \<open>How the two marks move: a write sets the mark, a flush clears it.\<close>

lemma follows_refl: "settled st \<Longrightarrow> follows st [] st"
  by (auto simp: follows_def)

lemma settled_same:
  assumes "settled st" and "same_devices st st'" and "b_log st' = b_log st"
    and "\<And>i. flushable st i \<Longrightarrow> bd_unflushed (b_devices st' ! i) = bd_unflushed (b_devices st ! i)"
  shows "settled st'"
  using assms by (simp add: settled_def same_devices_flushable flushed_def done_events_def)

lemma follows_same:
  assumes "settled st" and "same_devices st st'" and "b_log st' = b_log st" and "b_queue st' = b_queue st"
    and "\<And>i. flushable st i \<Longrightarrow> bd_unflushed (b_devices st' ! i) = bd_unflushed (b_devices st ! i)"
  shows "follows st [] st'"
  using settled_same [OF assms(1,2,3,5)] assms(3,4) by (auto simp: follows_def events_def done_events_def)

lemma fail_unflushed [simp]: "bd_unflushed (b_devices (fail i st) ! j) = bd_unflushed (b_devices st ! j)"
  by (cases "i < length (b_devices st)") (auto simp: fail_def nth_list_update list_update_beyond not_less)

lemma settled_write:
  assumes "settled st" and "same_devices st st'" and "b_log st' = b_log st @ [Dev_write i lba bs]"
    and "\<And>j. flushable st j \<Longrightarrow> j \<noteq> i \<Longrightarrow> bd_unflushed (b_devices st' ! j) = bd_unflushed (b_devices st ! j)"
    and "flushable st i \<Longrightarrow> bd_unflushed (b_devices st' ! i)"
  shows "settled st'"
  unfolding settled_def
proof (intro allI impI)
  fix j assume j: "flushable st' j" "\<not> bd_unflushed (b_devices st' ! j)"
  then have fj: "flushable st j" using assms(2) by (simp add: same_devices_flushable)
  then have "j \<noteq> i" using assms(5) j by auto
  then have "flushed j st" using assms(1,4) fj j by (simp add: settled_def)
  then show "flushed j st'" using \<open>j \<noteq> i\<close> by (simp add: flushed_def done_events_snoc [OF assms(3)])
qed

lemma settled_flush:
  assumes "settled st" and "same_devices st st'" and "b_log st' = b_log st @ [Dev_flush i]"
    and "\<And>j. flushable st j \<Longrightarrow> j \<noteq> i \<Longrightarrow> bd_unflushed (b_devices st' ! j) = bd_unflushed (b_devices st ! j)"
  shows "settled st'"
  unfolding settled_def
proof (intro allI impI)
  fix j assume j: "flushable st' j" "\<not> bd_unflushed (b_devices st' ! j)"
  then have fj: "flushable st j" using assms(2) by (simp add: same_devices_flushable)
  show "flushed j st'"
  proof (cases "j = i")
    case False
    then have "flushed j st" using assms(1,4) fj j by (simp add: settled_def)
    then show ?thesis using False by (simp add: flushed_def done_events_snoc [OF assms(3)])
  qed (simp add: flushed_def done_events_snoc [OF assms(3)])
qed

context disk_medium
begin

lemma step_write_follows:
  assumes inv: "block_inv view st" and se: "settled st" and q: "b_queue st = r # q" and nz: "p_count r \<noteq> 0"
    and s: "step_write D r q st = (b, st')"
  shows "follows st [] st'"
proof -
  let ?dev = "p_device r"
  define remaining where "remaining = p_count r - p_written r"
  define n0 where "n0 = (if remaining < kStepSectors then remaining else kStepSectors)"
  obtain n extra merged where g: "(if n0 = remaining then gather ?dev (p_lba r + p_written r) n0 q else (n0, [], 0)) = (n, extra, merged)"
    by (metis prod_cases3)
  obtain ok st1 where w: "ops_write D ?dev (p_lba r + p_written r) (take n0 (drop (p_written r) (p_data r)) @ extra) st = (ok, st1)"
    by fastforce
  have ro: "record_ok st r" and ql: "\<forall>r'\<in>set q. length (p_data r') = p_count r' \<and> p_written r' = 0"
    using inv q by (auto simp: block_inv_def record_ok_def head_written_def)
  then have wr: "p_written r < p_count r" and disk: "is_disk st ?dev" and len: "length (p_data r) = p_count r"
    using nz by (auto simp: record_ok_def)
  note wv = ops_write_view [OF disk w]
  note eq = step_write_eq [OF remaining_def n0_def g w]
  note cases = step_gather_cases [OF remaining_def n0_def g]
  have bound: "?dev < length (b_devices st)" using disk inv by (auto simp: is_disk_def block_inv_def)
  have n0: "n0 \<le> remaining" "length (take n0 (drop (p_written r) (p_data r))) = n0" using len by (auto simp: n0_def remaining_def)
  define st2 where "st2 = upd_device ?dev (bd_unflushed_update (\<lambda>_. True)) (upd_stats (ws_device_writes_update Suc) st1)"
  have sd2: "same_devices st st2"
    using wv(3,4) same_devices_upd [of "bd_unflushed_update (\<lambda>_. True)" st ?dev] by (simp add: st2_def same_devices_def)
  have ev: "events st = done_events st @
      sector_events ?dev (p_lba r + p_written r) (drop (p_written r) (p_data r)) @ concat (map record_events q)"
    using q nz by (simp add: events_def record_events_def)
  show ?thesis
  proof (cases ok)
    case False
    then have st': "st' = fail ?dev st1" using s eq by simp
    have "same_devices st st'" using wv(3) fail_keeps(1) same_devices_trans st' by blast
    then show ?thesis using wv(1,4,7) False bound
      by (intro follows_same [OF se]) (simp_all add: st' fail_keeps)
  next
    case True
    have log2: "b_log st2 = b_log st @ [Dev_write ?dev (p_lba r + p_written r) (take n0 (drop (p_written r) (p_data r)) @ extra)]"
      using wv(7) True by (simp add: st2_def)
    have un2: "bd_unflushed (b_devices st2 ! j) = (j = ?dev \<or> bd_unflushed (b_devices st ! j))" if "flushable st j" for j
      using wv(4) bound by (auto simp: st2_def nth_list_update)
    have keep: "same_devices st2 st' \<and> b_log st' = b_log st2 \<and> b_devices st' = b_devices st2 \<and> events st' = events st"
    proof (cases "n < remaining")
      case part: True
      have n: "n = n0" "extra = []" using part cases by auto
      have st': "st' = upd_stats (ws_queued_bytes_update (\<lambda>b. b - n * kSectorSize)) (st2\<lparr>b_queue := r\<lparr>p_written := p_written r + n\<rparr> # q\<rparr>)"
        using s eq True part by (simp add: Let_def st2_def)
      have "drop (p_written r) (p_data r) = take n0 (drop (p_written r) (p_data r)) @ drop (p_written r + n0) (p_data r)"
        by (metis add.commute append_take_drop_id drop_drop)
      then have "sector_events ?dev (p_lba r + p_written r) (drop (p_written r) (p_data r)) =
          sector_events ?dev (p_lba r + p_written r) (take n0 (drop (p_written r) (p_data r))) @
          sector_events ?dev (p_lba r + p_written r + n0) (drop (p_written r + n0) (p_data r))"
        using n0(2) sector_events_append by metis
      then have "events st' = events st"
        unfolding ev using st' log2 nz n by (simp add: events_def done_events_def record_events_def add.assoc)
      then show ?thesis using st' by (simp add: same_devices_def)
    next
      case full: False
      have n: "n0 = remaining" using full cases by auto
      have st': "st' = (pop_head ^^ Suc merged) st2" using s eq True full by (simp add: Let_def st2_def funpow_swap1)
      have "take n0 (drop (p_written r) (p_data r)) = drop (p_written r) (p_data r)" using n len by (simp add: remaining_def)
      moreover have "concat (map record_events (take merged q)) = sector_events ?dev (p_lba r + p_written r + n0) extra"
        using g n ql by (auto intro: gather_events)
      moreover have "concat (map record_events q) = concat (map record_events (take merged q)) @ concat (map record_events (drop merged q))"
        by (metis append_take_drop_id concat_append map_append)
      moreover have "b_queue st' = drop merged q" using st' wv(1) q by (simp add: b_queue_pop_heads st2_def del: funpow.simps)
      moreover have "b_log st' = b_log st2" using st' pop_heads_keep(3) [of "Suc merged" st2] by simp
      moreover have "length (drop (p_written r) (p_data r)) = n0" using n len by (simp add: remaining_def)
      ultimately have "events st' = events st" unfolding ev
        using log2 sector_events_append [of ?dev "p_lba r + p_written r" "drop (p_written r) (p_data r)" extra]
        by (simp add: events_def done_events_def)
      moreover have "b_devices ((pop_head ^^ k) st2) = b_devices st2" for k
        by (induction k) (auto simp: pop_head_def split: list.split)
      ultimately show ?thesis using st' pop_heads_keep(1,3) [where st = st2 and n = "Suc merged"] by metis
    qed
    have "settled st'"
      using settled_write [OF se, of st'] same_devices_trans [OF sd2] keep log2 un2 by (auto simp: same_devices_flushable)
    then show ?thesis using keep by (auto simp: follows_def)
  qed
qed

lemma step_flush_follows:
  assumes inv: "block_inv view st" and se: "settled st" and q: "b_queue st = r # q" and z: "p_count r = 0"
    and s: "step_flush D (p_device r) st = (b, st')"
  shows "follows st [] st'"
proof -
  let ?i = "p_device r"
  let ?f = "bd_unflushed (b_devices st ! ?i) \<and> ops_can_flush (bd_ops (b_devices st ! ?i))"
  have disk: "is_disk st ?i" "defers (b_devices st ! ?i)" "?i < length (b_devices st)"
    using inv q by (auto simp: block_inv_def record_ok_def is_disk_def)
  obtain ok st1 where f: "(if ?f then ops_flush D ?i st else (True, st)) = (ok, st1)" by fastforce
  have v: "b_queue st1 = b_queue st" "same_devices st st1" "b_devices st1 = b_devices st"
    "b_log st1 = (if ?f \<and> ok then b_log st @ [Dev_flush ?i] else b_log st)"
    using f ops_flush_view [of ?i st ok st1] disk(1) by (auto split: if_splits)
  show ?thesis
  proof (cases ok)
    case False
    then have st': "st' = fail ?i st1" using s f by (auto simp: step_flush_def Let_def split: if_splits)
    have "same_devices st st'" using v(2) fail_keeps(1) same_devices_trans st' by blast
    then show ?thesis using v False disk(3)
      by (intro follows_same [OF se]) (simp_all add: st' fail_keeps)
  next
    case True
    define st2 where "st2 = upd_device ?i (bd_unflushed_update (\<lambda>_. False))
      (if ?f then upd_stats (ws_device_flushes_update Suc) st1 else st1)"
    have st': "st' = pop_head st2" using s f True by (auto simp: step_flush_def Let_def st2_def split: if_splits)
    have e': "b_queue st' = q" "b_log st' = b_log st1" "b_devices st' = (b_devices st)[?i := (b_devices st ! ?i)\<lparr>bd_unflushed := False\<rparr>]"
      using st' v(1,3) q by (auto simp: pop_head_def st2_def b_queue_pop_head split: list.split)
    have sd: "same_devices st st'" using e'(3) disk(3) st' v(2)
      by (auto simp: same_devices_def nth_list_update st2_def pop_head_def split: list.split)
    have un: "bd_unflushed (b_devices st' ! j) = bd_unflushed (b_devices st ! j)" if "j \<noteq> ?i" for j
      using e'(3) that by simp
    have ev: "events st = done_events st @ Barrier ?i # concat (map record_events q)"
      using q z by (simp add: events_def record_events_def)
    show ?thesis
    proof (cases ?f)
      case f: True
      then have log: "b_log st' = b_log st @ [Dev_flush ?i]" using e'(2) v(4) True by simp
      then have "settled st'" using settled_flush [OF se sd] un by blast
      moreover have "events st' = events st" unfolding ev using e'(1) by (simp add: events_def done_events_snoc [OF log])
      ultimately show ?thesis by (auto simp: follows_def)
    next
      case nf: False
      then have log: "b_log st' = b_log st" using e'(2) v(4) by (auto split: if_splits)
      have d: "done_events st' = done_events st" using log by (simp add: done_events_def)
      have fl: "flushed ?i st" if "flushable st ?i" using se that nf by (simp add: settled_def flushable_def)
      have "settled st'" unfolding settled_def
      proof (intro allI impI)
        fix j assume "flushable st' j" "\<not> bd_unflushed (b_devices st' ! j)"
        then show "flushed j st'" using se fl un [of j] same_devices_flushable [OF sd] d
          by (cases "j = ?i") (auto simp: settled_def flushed_def)
      qed
      then show ?thesis using fl e'(1) d unfolding follows_def ev
        by (auto simp: events_def flushed_def)
    qed
  qed
qed

lemma step_follows:
  assumes inv: "block_inv view st" and se: "settled st" and s: "step D st = (b, st')"
  shows "follows st [] st'"
proof (cases "b_queue st")
  case Nil
  then show ?thesis using s se by (simp add: step_def follows_refl)
next
  case (Cons r q)
  let ?st1 = "upd_stats (ws_steps_update Suc) st"
  have sd: "same_devices st ?st1" by (simp add: same_devices_def)
  have f1: "follows st [] ?st1" by (intro follows_same [OF se sd]) simp_all
  have inv1: "block_inv view ?st1" using inv block_inv_same(1) [OF inv sd] by simp
  have se1: "settled ?st1" using f1 by (simp add: follows_def)
  have q1: "b_queue ?st1 = r # q" using Cons by simp
  have "st' = st \<or> (p_count r = 0 \<and> step_flush D (p_device r) ?st1 = (b, st')) \<or> (p_count r \<noteq> 0 \<and> step_write D r q ?st1 = (b, st'))"
    using s Cons by (simp add: step_def Let_def split: if_splits)
  then have "st' = st \<or> follows ?st1 [] st'"
    using step_flush_follows [OF inv1 se1 q1] step_write_follows [OF inv1 se1 q1] by blast
  then show ?thesis using follows_refl [OF se] follows_trans [OF f1 _ sd, of "[]" st'] by auto
qed

end

context disk_medium
begin

lemma follows_then: "follows a [] b \<Longrightarrow> same_devices a b \<Longrightarrow> follows b es c \<Longrightarrow> follows a es c"
  using follows_trans [of a "[]" b es c] by simp

text \<open>Both at once, for the loops.\<close>

definition ordered :: "'d block_state \<Rightarrow> 'd block_state \<Rightarrow> bool" where
  "ordered st st' \<longleftrightarrow> keeps st st' \<and> follows st [] st'"

lemma ordered_refl: "block_inv view st \<and> settled st \<Longrightarrow> ordered st st"
  by (simp add: ordered_def keeps_refl follows_refl)

lemma ordered_step: "block_inv view st \<and> settled st \<Longrightarrow> step D st = (b, st') \<Longrightarrow> ordered st st'"
  using step_keeps step_follows unfolding ordered_def by blast

lemma ordered_inv: "ordered st st' \<Longrightarrow> block_inv view st' \<and> settled st'"
  by (simp add: ordered_def keeps_def follows_def)

lemma ordered_trans: "ordered st st1 \<Longrightarrow> ordered st1 st2 \<Longrightarrow> ordered st st2"
  unfolding ordered_def using keeps_trans follows_then keeps_def by blast

end

sublocale disk_medium \<subseteq> ordering: step_relation D "\<lambda>s. block_inv view s \<and> settled s" ordered
  by (rule step_relation.intro) (erule ordered_refl ordered_inv ordered_step ordered_trans, assumption?)+

context disk_medium
begin

lemma make_room_loop_follows:
  "block_inv view st \<Longrightarrow> settled st \<Longrightarrow> make_room_loop D bytes waited st = (ok, w, st') \<Longrightarrow> follows st [] st'"
  using ordering.make_room_loop_rel unfolding ordered_def by blast

lemma make_room_follows:
  assumes "block_inv view st" and "settled st" and "make_room D bytes st = (ok, st')"
  shows "follows st [] st'"
proof -
  obtain ok1 w st1 where l: "make_room_loop D bytes False st = (ok1, w, st1)" by (metis prod_cases3)
  have f: "follows st [] st1" by (rule make_room_loop_follows [OF assms(1,2) l])
  have sd: "same_devices st st1" using make_room_loop_keeps [OF assms(1) l] by (simp add: keeps_def)
  have "follows st1 [] (upd_stats (ws_forced_drains_update Suc) st1)"
    using f by (intro follows_same) (simp_all add: follows_def same_devices_def)
  then show ?thesis using assms(3) l f follows_then [OF f sd] by (auto simp: make_room_def split: if_splits)
qed

lemma drain_queue_follows:
  "block_inv view st \<Longrightarrow> settled st \<Longrightarrow> drain_queue D st = (ok, st') \<Longrightarrow> follows st [] st'"
  using ordering.drain_queue_rel unfolding ordered_def by blast

text \<open>With the queue empty, the flushes of \<^verbatim>\<open>drain_all\<close> come after everything; when they all succeed
  no device is left with unflushed writes.\<close>

lemma flush_one_follows:
  assumes inv: "block_inv view st" and se: "settled st" and q: "b_queue st = []"
    and i: "i < b_device_count st" "bd_present (b_devices st ! i)"
    and f: "(if ops_can_flush (bd_ops (b_devices st ! i)) then ops_flush D i st else (True, st)) = (dn, st1)"
  shows "follows st [] (fail i st1)"
    and "dn \<Longrightarrow> follows st [] (upd_device i (bd_unflushed_update (\<lambda>_. False)) (upd_stats (ws_device_flushes_update Suc) st1))"
proof -
  let ?c = "ops_can_flush (bd_ops (b_devices st ! i))"
  let ?st2 = "upd_device i (bd_unflushed_update (\<lambda>_. False)) (upd_stats (ws_device_flushes_update Suc) st1)"
  have v: "b_queue st1 = []" "same_devices st st1" "b_devices st1 = b_devices st"
    using f q ops_flush_view [of i st dn st1] by (auto split: if_splits)
  have log: "b_log st1 = b_log st \<or> (b_log st1 = b_log st @ [Dev_flush i])"
    using f by (auto simp: ops_flush_def split: if_splits ops_target.splits prod.splits)
  have flog: "b_log st1 = b_log st @ [Dev_flush i]" if "flushable st i" dn
    using f that ops_flush_view(6) [of i st dn st1] by (auto simp: flushable_def split: if_splits)
  have bound: "i < length (b_devices st)" using inv i by (simp add: block_inv_def)
  have ev: "events st' = done_events st'" if "b_queue st' = []" for st' :: "'d block_state" using that by (simp add: events_def)
  have sub: "writes_of j (done_events st') = writes_of j (done_events st) \<and> cuts j 0 (done_events st) \<subseteq> cuts j 0 (done_events st')"
    if "b_log st' = b_log st1" for j and st' :: "'d block_state"
    using log
  proof
    assume "b_log st1 = b_log st @ [Dev_flush i]"
    with that have "b_log st' = b_log st @ [Dev_flush i]" by simp
    then show ?thesis by (auto simp: done_events_snoc)
  qed (simp add: that done_events_def)
  have se1: "settled st1"
    using log settled_flush [OF se v(2)] settled_same [OF se v(2)] v(3) by auto
  have sdf: "same_devices st1 (fail i st1)" by (rule fail_keeps(1))
  have "settled (fail i st1)" by (rule settled_same [OF se1 sdf]) (simp_all add: fail_keeps)
  then show "follows st [] (fail i st1)"
    using sub [of "fail i st1"] q v(1) by (auto simp: follows_def ev fail_keeps)
  have sd2: "same_devices st ?st2" using v(2,3) bound by (auto simp: same_devices_def nth_list_update)
  show "follows st [] ?st2" if dn
  proof -
    have "settled ?st2" unfolding settled_def
    proof (intro allI impI)
      fix j assume j: "flushable ?st2 j" "\<not> bd_unflushed (b_devices ?st2 ! j)"
      then have fj: "flushable st j" "flushable st1 j" using same_devices_flushable [OF sd2] same_devices_flushable [OF v(2)] by auto
      show "flushed j ?st2"
      proof (cases "j = i")
        case True
        then have "b_log ?st2 = b_log st @ [Dev_flush i]" using flog fj that by simp
        then show ?thesis using True by (simp add: flushed_def done_events_snoc)
      next
        case False
        then have "flushed j st1" using se1 fj j by (simp add: settled_def)
        then show ?thesis by (simp add: flushed_def done_events_def)
      qed
    qed
    then show ?thesis using sub [of ?st2] q v(1) by (auto simp: follows_def ev)
  qed
qed

lemma flush_devices_follows:
  "block_inv view st \<Longrightarrow> settled st \<Longrightarrow> b_queue st = [] \<Longrightarrow> \<forall>i\<in>set is. i < b_device_count st \<Longrightarrow>
    flush_devices D is ok0 st = (ok, st') \<Longrightarrow>
    follows st [] st' \<and> (ok \<longrightarrow> ok0) \<and>
    (ok \<longrightarrow> (\<forall>i. flushable st i \<longrightarrow> (i \<in> set is \<or> \<not> bd_unflushed (b_devices st ! i)) \<longrightarrow> \<not> bd_unflushed (b_devices st' ! i)))"
proof (induction "is" arbitrary: st ok0)
  case Nil
  then show ?case by (simp add: follows_refl)
next
  case (Cons i "is")
  let ?d = "b_devices st ! i"
  show ?case
  proof (cases "\<not> bd_present ?d \<or> \<not> defers ?d \<or> \<not> bd_unflushed ?d")
    case True
    then have "flush_devices D is ok0 st = (ok, st')" using Cons.prems(5) by simp
    moreover have "\<not> bd_unflushed ?d" if "flushable st i" using True that by (auto simp: flushable_def is_disk_def)
    ultimately show ?thesis using Cons.IH [OF Cons.prems(1-3)] Cons.prems(4) by auto
  next
    case False
    obtain dn st1 where f: "(if ops_can_flush (bd_ops ?d) then ops_flush D i st else (True, st)) = (dn, st1)" by fastforce
    have i: "i < b_device_count st" "bd_present ?d" using Cons.prems(4) False by simp_all
    note fo = flush_one_follows [OF Cons.prems(1-3) i f]
    define st2 where "st2 = (if dn then upd_device i (bd_unflushed_update (\<lambda>_. False)) (upd_stats (ws_device_flushes_update Suc) st1) else fail i st1)"
    have fd: "flush_devices D [i] True st = (dn, st2)" using False f by (simp add: st2_def)
    have k: "keeps st st2" "b_queue st2 = []" using flush_devices_keeps [OF Cons.prems(1) fd] Cons.prems(3) by simp_all
    have f2: "follows st [] st2" using fo by (simp add: st2_def)
    have sd: "same_devices st st2" and inv2: "block_inv view st2" using k by (simp_all add: keeps_def)
    have e: "flush_devices D is (dn \<and> ok0) st2 = (ok, st')" using Cons.prems(5) False f by (auto simp: st2_def split: if_splits)
    have bound: "i < length (b_devices st)" using i Cons.prems(1) by (simp add: block_inv_def)
    have "b_devices st1 = b_devices st" using f ops_flush_view(4) [of i st dn st1] by (auto split: if_splits)
    then have un: "bd_unflushed (b_devices st2 ! j) = (if dn \<and> j = i then False else bd_unflushed (b_devices st ! j))" for j
      using bound by (auto simp: st2_def)
    have ih: "follows st2 [] st' \<and> (ok \<longrightarrow> dn \<and> ok0) \<and>
        (ok \<longrightarrow> (\<forall>i. flushable st2 i \<longrightarrow> (i \<in> set is \<or> \<not> bd_unflushed (b_devices st2 ! i)) \<longrightarrow> \<not> bd_unflushed (b_devices st' ! i)))"
      using Cons.IH [OF inv2 _ k(2) _ e] f2 Cons.prems(4) sd by (simp add: follows_def same_devices_def)
    then show ?thesis using follows_then [OF f2 sd] un same_devices_flushable [OF sd] by auto
  qed
qed

lemma drain_all_follows:
  assumes inv: "block_inv view st" and se: "settled st" and d: "drain_all D st = (ok, st')"
  shows "follows st [] st' \<and> (ok \<longrightarrow> (\<forall>i. flushable st i \<longrightarrow> flushed i st'))"
proof -
  obtain b st1 where q: "drain_queue D st = (b, st1)" by fastforce
  note k = drain_queue_keeps [OF inv q] and f = drain_queue_follows [OF inv se q]
  have sd: "same_devices st st1" and inv1: "block_inv view st1" using k by (simp_all add: keeps_def)
  show ?thesis
  proof (cases b)
    case True
    then have fd: "flush_devices D [0..<b_device_count st1] True st1 = (ok, st')" using d q by (simp add: drain_all_def)
    note ff = flush_devices_follows [OF inv1 _ _ _ fd]
    have se1: "settled st1" and q1: "b_queue st1 = []" using f k True by (simp_all add: follows_def)
    have un: "\<not> bd_unflushed (b_devices st' ! i)" if "ok" "flushable st i" for i
      using ff se1 q1 that same_devices_flushable [OF sd, of i] by (auto simp: flushable_def is_disk_def)
    have f1: "follows st1 [] st'" using ff se1 q1 by simp
    have "same_devices st1 st'" using flush_devices_keeps [OF inv1 fd] by (simp add: keeps_def)
    then have "flushable st' i = flushable st i" for i using sd same_devices_flushable by blast
    then show ?thesis using un f1 follows_then [OF f sd f1] by (auto simp: follows_def settled_def)
  next
    case False
    then show ?thesis using d q f by (simp add: drain_all_def)
  qed
qed

end

context disk_medium
begin

lemma write_follows:
  assumes inv: "block_inv view st" and se: "settled st" and disk: "is_disk st i"
    and w: "disk_level_write_cached D heap i lba bs st = (ok, st')"
  shows "follows st (if ok then sector_events i lba bs else []) st'"
proof -
  have other: "follows st es st'" if "follows st [] s" "keeps st s" "follows s es st'" for s es
    using follows_then [OF that(1) _ that(3)] that(2) by (simp add: keeps_def)
  from disk w show ?thesis
  proof (cases rule: write_cases)
    case refused
    then show ?thesis using se by (simp add: follows_refl)
  next
    case direct
    note v = ops_write_view [OF disk direct(2)]
    have nf: "\<not> flushable st i" using direct(1) by (simp add: flushable_def)
    then have ne: "i \<noteq> j" if "flushable st j" for j using that by auto
    have ev: "writes_of j (events st') = writes_of j (events st @ (if ok then sector_events i lba bs else []))"
      "cuts j 0 (events st @ (if ok then sector_events i lba bs else [])) \<subseteq> cuts j 0 (events st')" if "flushable st j" for j
      using v(1,7) ne [OF that] by (auto simp: events_def done_events_def)
    have "settled st'"
      using settled_write [OF se v(3)] settled_same [OF se v(3)] v(4,7) nf by (cases ok) auto
    then show ?thesis using ev by (auto simp: follows_def)
  next
    case no_room
    then show ?thesis using make_room_follows [OF inv se no_room(2)] by simp
  next
    case (queued st1)
    note k1 = make_room_keeps [OF inv queued(4)] and f1 = make_room_follows [OF inv se queued(4)]
    have nz: "length bs \<noteq> 0" using queued(3) by (simp add: request_in_range_def split: if_splits)
    have sd: "same_devices st1 st'" using queued(6,7) by (simp add: same_devices_def)
    have "settled st'" using settled_same [OF _ sd] f1 queued(7,9) by (auto simp: follows_def)
    moreover have "events st' = events st1 @ sector_events i lba bs"
      using queued(5,9) nz by (simp add: events_def done_events_def record_events_def)
    ultimately have "follows st1 (sector_events i lba bs) st'" by (auto simp: follows_def)
    then show ?thesis using other [OF f1 k1] queued(1) by simp
  next
    case (undrained st1)
    note k1 = make_room_keeps [OF inv undrained(2)] and f1 = make_room_follows [OF inv se undrained(2)]
    have "follows st1 [] st'" using drain_all_follows [OF _ _ undrained(3)] k1 f1 by (simp add: keeps_def follows_def)
    then show ?thesis using other [OF f1 k1] undrained(1) by simp
  next
    case (through st1 st2 st3)
    note k1 = make_room_keeps [OF inv through(1)] and f1 = make_room_follows [OF inv se through(1)]
    have f2: "follows st1 [] st2" using drain_all_follows [OF _ _ through(2)] k1 f1 by (simp add: keeps_def follows_def)
    have k2: "keeps st1 st2" "b_queue st2 = []" using drain_all_keeps [OF _ through(2)] k1 by (auto simp: keeps_def)
    have f: "follows st [] st2" "keeps st st2" using keeps_trans [OF k1 k2(1)]
      follows_then [OF f1 _ f2] k1 by (auto simp: keeps_def)
    have disk2: "is_disk st2 i" using disk f(2) same_devices_disk [of st st2] by (simp add: keeps_def)
    then have bound: "i < length (b_devices st2)" using f(2) by (auto simp: keeps_def is_disk_def block_inv_def)
    note v = ops_write_view [OF disk2 through(3)]
    have sd: "same_devices st2 st'" using through(4) v(3,4) bound by (auto simp: same_devices_def nth_list_update)
    have se2: "settled st2" using f(1) by (simp add: follows_def)
    have "settled st'"
      using settled_write [OF se2 sd] settled_same [OF se2 sd] v(4,7) through(4) bound by (cases ok) (auto simp: nth_list_update)
    moreover have "events st' = events st2 @ (if ok then sector_events i lba bs else [])"
      using through(4) v(1,7) k2(2) by (simp add: events_def done_events_def)
    ultimately have "follows st2 (if ok then sector_events i lba bs else []) st'" by (auto simp: follows_def)
    then show ?thesis by (rule other [OF f])
  qed
qed

lemma cut_now:
  assumes "length (writes_of i (done_events st)) \<in> insert 0 (cuts i 0 (done_events st))"
    and "writes_of i (concat (map record_events (b_queue st))) = []"
  shows "length (writes_of i (events st)) \<in> insert 0 (cuts i 0 (events st))"
  using assms by (auto simp: events_def)

lemma no_records_no_writes: "\<not> queue_has_device i st \<Longrightarrow> writes_of i (concat (map record_events (b_queue st))) = []"
proof -
  have "\<forall>r\<in>set q. p_device r \<noteq> i \<Longrightarrow> writes_of i (concat (map record_events q)) = []" for q
    by (induction q) (auto simp: record_events_def)
  moreover assume "\<not> queue_has_device i st"
  ultimately show ?thesis by (auto simp: queue_has_device_def list_ex_iff)
qed

lemma flush_follows:
  assumes inv: "block_inv view st" and se: "settled st" and disk: "is_disk st i" and f: "disk_level_flush D heap i st = (ok, st')"
  shows "follows st (if ok then [Barrier i] else []) st'"
proof -
  let ?d = "b_devices st ! i"
  let ?r = "\<lparr>p_device = i, p_lba = 0, p_count = 0, p_written = 0, p_queued_ms = b_clock_ms st, p_data = []\<rparr>"
  have d: "device_for_index i st = Some ?d" using disk by (simp add: device_for_index_def is_disk_def)
  have barrier: "follows st [Barrier i] st'"
    if "follows st [] st'" "flushable st i \<Longrightarrow> length (writes_of i (events st')) \<in> insert 0 (cuts i 0 (events st'))"
    using that by (auto simp: follows_def)
  have weaker: "follows st (if ok then [Barrier i] else []) st'" if "follows st [Barrier i] st'"
    using that by (auto simp: follows_def)
  have "(st' = st \<and> \<not> ok) \<or> (\<not> defers ?d \<and> st' = st) \<or> (\<not> defers ?d \<and> ops_flush D i st = (ok, st')) \<or>
    (st' = st \<and> \<not> bd_unflushed ?d \<and> \<not> queue_has_device i st) \<or>
    (st' = st \<and> b_queue st \<noteq> [] \<and> p_device (last (b_queue st)) = i \<and> p_count (last (b_queue st)) = 0) \<or>
    drain_all D st = (ok, st') \<or> st' = st\<lparr>b_queue := b_queue st @ [?r]\<rparr>"
    using f unfolding disk_level_flush_def d option.case enqueue_def by (simp split: if_split_asm)
  then show ?thesis
  proof (elim disjE conjE)
    assume "st' = st" "\<not> ok"
    then show ?thesis using se by (simp add: follows_refl)
  next
    assume "\<not> defers ?d" "st' = st"
    then show ?thesis using se barrier weaker by (simp add: follows_refl flushable_def)
  next
    assume n: "\<not> defers ?d" and o: "ops_flush D i st = (ok, st')"
    note v = ops_flush_view [OF o]
    have nf: "\<not> flushable st i" using n by (simp add: flushable_def)
    have "settled st'" using settled_flush [OF se v(3)] settled_same [OF se v(3)] v(4,6) disk by (cases ok) auto
    then have "follows st [] st'" using v(1,6) disk nf by (auto simp: follows_def events_def done_events_def split: if_splits)
    then show ?thesis using barrier weaker nf by blast
  next
    assume a: "st' = st" "\<not> bd_unflushed ?d" "\<not> queue_has_device i st"
    have "flushable st i \<Longrightarrow> flushed i st" using se a(2) by (simp add: settled_def)
    then show ?thesis using a(1) se barrier weaker cut_now [OF _ no_records_no_writes [OF a(3)]]
      by (simp add: follows_refl flushed_def)
  next
    assume a: "st' = st" "b_queue st \<noteq> []" "p_device (last (b_queue st)) = i" "p_count (last (b_queue st)) = 0"
    then obtain q r where "b_queue st = q @ [r]" "p_device r = i" "p_count r = 0" by (metis append_butlast_last_id)
    then have "length (writes_of i (events st)) \<in> cuts i 0 (events st)" by (simp add: events_def record_events_def)
    then show ?thesis using a(1) se barrier weaker by (simp add: follows_refl)
  next
    assume a: "drain_all D st = (ok, st')"
    note df = drain_all_follows [OF inv se a]
    show ?thesis
    proof (cases ok)
      case True
      then have "b_queue st' = []" using drain_all_keeps [OF inv a] by simp
      then have "length (writes_of i (events st')) \<in> insert 0 (cuts i 0 (events st'))" if "flushable st i"
        using df that True by (simp add: flushed_def events_def)
      then show ?thesis using barrier weaker df by blast
    qed (use df in simp)
  next
    assume a: "st' = st\<lparr>b_queue := b_queue st @ [?r]\<rparr>"
    have sd: "same_devices st st'" using a by (simp add: same_devices_def)
    have "settled st'" using settled_same [OF se sd] a by simp
    moreover have "events st' = events st @ [Barrier i]" using a by (simp add: events_def done_events_def record_events_def)
    ultimately have "follows st [Barrier i] st'" by (auto simp: follows_def)
    then show ?thesis by (rule weaker)
  qed
qed

end

text \<open>The events a call adds: the writes that were accepted and the ordering points.\<close>

definition sectors_at :: "(nat \<times> nat) option \<Rightarrow> nat \<Rightarrow> sector list \<Rightarrow> event list" where
  "sectors_at pl lba bs = (case pl of None \<Rightarrow> [] | Some (j, base) \<Rightarrow> sector_events j (base + lba) bs)"

definition barrier_at :: "(nat \<times> nat) option \<Rightarrow> event list" where
  "barrier_at pl = (case pl of None \<Rightarrow> [] | Some (j, base) \<Rightarrow> [Barrier j])"

fun issued :: "'d disk_driver \<Rightarrow> block_call \<Rightarrow> 'd block_state \<Rightarrow> event list" where
  "issued D (Write_cached h i lba bs) st =
     (if fst (write_cached D h i lba bs st) then sectors_at (place st i) lba bs else [])"
| "issued D (Flush h i) st = (if fst (block_flush D h i st) then barrier_at (place st i) else [])"
| "issued D (Write h1 h2 i lba bs) st =
     (case write_cached D h1 i lba bs st of
        (ok, st1) \<Rightarrow>
          if \<not> ok then []
          else sectors_at (place st i) lba bs @ (if fst (block_flush D h2 i st1) then barrier_at (place st1 i) else []))"
| "issued D (Read i lba n) st = []"
| "issued D (Sync i) st = []"
| "issued D Sync_all st = []"
| "issued D Step st = []"
| "issued D (Tick now) st = []"

fun issued_by :: "'d disk_driver \<Rightarrow> block_call list \<Rightarrow> 'd block_state \<Rightarrow> event list" where
  "issued_by D [] st = []"
| "issued_by D (c # cs) st = issued D c st @ issued_by D cs (snd (run_call D c st))"

context disk_medium
begin

lemma cached_follows:
  assumes inv: "block_inv view st" and se: "settled st" and w: "write_cached D h i lba bs st = (ok, st')"
  shows "follows st (if ok then sectors_at (place st i) lba bs else []) st'"
proof (cases "device_for_index i st")
  case None
  then show ?thesis using w se by (auto simp: write_cached_def follows_refl)
next
  case (Some d)
  from inv Some show ?thesis
  proof (cases rule: place_cases)
    case disk
    have "disk_level_write_cached D h i lba bs st = (ok, st')" using w Some disk(1) by (simp add: write_cached_def)
    from write_follows [OF inv se disk(3) this] show ?thesis using disk(2) by (simp add: sectors_at_def split: if_splits)
  next
    case (slice p s)
    have "\<not> ok \<and> st' = st \<or> disk_level_write_cached D h p (s + lba) bs st = (ok, st')"
      using w Some slice(1) by (simp add: write_cached_def split: if_splits)
    then show ?thesis using write_follows [OF inv se slice(3), of h "s + lba" bs ok st'] follows_refl [OF se] slice(2)
      by (auto simp: sectors_at_def split: if_splits)
  qed
qed

lemma block_flush_follows:
  assumes inv: "block_inv view st" and se: "settled st" and f: "block_flush D h i st = (ok, st')"
  shows "follows st (if ok then barrier_at (place st i) else []) st'"
proof (cases "device_for_index i st")
  case None
  then show ?thesis using f se by (auto simp: block_flush_def follows_refl)
next
  case (Some d)
  from inv Some show ?thesis
  proof (cases rule: place_cases)
    case disk
    have "disk_level_flush D h i st = (ok, st')" using f Some disk(1) by (simp add: block_flush_def)
    from flush_follows [OF inv se disk(3) this] show ?thesis using disk(2) by (simp add: barrier_at_def split: if_splits)
  next
    case (slice p s)
    have "\<not> ok \<and> st' = st \<or> disk_level_flush D h p st = (ok, st')"
      using f Some slice(1) by (simp add: block_flush_def split: if_splits)
    then show ?thesis using flush_follows [OF inv se slice(3), of h ok st'] follows_refl [OF se] slice(2)
      by (auto simp: barrier_at_def split: if_splits)
  qed
qed

lemma sync_follows:
  assumes "block_inv view st" and "settled st" and "block_sync D i st = (ok, st')"
  shows "follows st [] st' \<and> (ok \<longrightarrow> (\<forall>j. flushable st j \<longrightarrow> flushed j st'))"
  using assms drain_all_follows [OF assms(1,2)] follows_refl [OF assms(2)] by (auto simp: block_sync_def split: if_splits)

lemma tick_follows:
  assumes inv: "block_inv view st" and se: "settled st"
  shows "follows st [] (writeback_tick D now st)"
proof -
  let ?st1 = "st\<lparr>b_clock_ms := now\<rparr>" and ?st2 = "st\<lparr>b_clock_ms := now, b_last_forced_ms := now\<rparr>"
  have sd: "same_devices st ?st1" "same_devices st ?st2" by (simp_all add: same_devices_def)
  have f1: "follows st [] ?st1" and f2: "follows st [] ?st2" by (auto intro!: follows_same [OF se] simp: sd)
  have "block_inv view ?st2" using block_inv_same(1) [OF inv sd(2)] by simp
  then have "follows ?st2 [] (snd (step D ?st2))" using step_follows [of ?st2] f2 by (cases "step D ?st2") (simp add: follows_def)
  then have "follows st [] (snd (step D ?st2))" using follows_then [OF f2 sd(2)] by blast
  then show ?thesis using f1 by (simp add: writeback_tick_def Let_def)
qed

text \<open>The durable write is the cached write, the flush and the sync.\<close>

lemma block_write_steps:
  assumes inv: "block_inv view st" and se: "settled st" and w: "block_write D h1 h2 i lba bs st = (ok, st')"
  shows "follows st (issued D (Write h1 h2 i lba bs) st) st' \<and> (ok \<longrightarrow> (\<forall>j. flushable st j \<longrightarrow> flushed j st'))"
proof -
  obtain ok1 st1 where w1: "write_cached D h1 i lba bs st = (ok1, st1)" by fastforce
  obtain ok2 st2 where f: "block_flush D h2 i st1 = (ok2, st2)" by fastforce
  have a: "follows st (if ok1 then sectors_at (place st i) lba bs else []) st1" by (rule cached_follows [OF inv se w1])
  have inv1: "block_inv view st1" and sd1: "same_devices st st1" and se1: "settled st1"
    using write_flat [OF inv w1] a by (simp_all add: follows_def)
  have b: "follows st1 (if ok2 then barrier_at (place st1 i) else []) st2" by (rule block_flush_follows [OF inv1 se1 f])
  have sd2: "same_devices st1 st2" and inv2: "block_inv view st2" using flush_flat [OF inv1 f] by (simp_all add: keeps_def)
  have se2: "settled st2" using b by (simp add: follows_def)
  show ?thesis
  proof (cases "ok1 \<and> ok2")
    case False
    then show ?thesis using w w1 f a follows_trans [OF a b sd1] by (auto simp: block_write_def)
  next
    case True
    then have s: "block_sync D i st2 = (ok, st')" using w w1 f by (simp add: block_write_def)
    note c = sync_follows [OF inv2 se2 s]
    have "follows st (issued D (Write h1 h2 i lba bs) st) st2" using follows_trans [OF a b sd1] True w1 f by simp
    from follows_trans [OF this, of "[]" st'] have "follows st (issued D (Write h1 h2 i lba bs) st) st'"
      using c same_devices_trans [OF sd1 sd2] by (simp del: issued.simps)
    then show ?thesis using c same_devices_flushable [OF same_devices_trans [OF sd1 sd2]] by blast
  qed
qed

lemma call_follows:
  assumes inv: "block_inv view st" and se: "settled st"
  shows "follows st (issued D c st) (snd (run_call D c st))"
proof (cases c)
  case (Write_cached h i lba bs)
  then show ?thesis using cached_follows [OF inv se] by (cases "write_cached D h i lba bs st") (auto split: if_splits)
next
  case (Write h1 h2 i lba bs)
  then show ?thesis using block_write_steps [OF inv se] by (cases "block_write D h1 h2 i lba bs st") (auto simp del: issued.simps)
next
  case (Flush h i)
  then show ?thesis using block_flush_follows [OF inv se] by (cases "block_flush D h i st") (auto split: if_splits)
next
  case (Sync i)
  then show ?thesis using sync_follows [OF inv se] by (cases "block_sync D i st") auto
next
  case Sync_all
  then show ?thesis using drain_all_follows [OF inv se] by (cases "drain_all D st") (auto simp: sync_all_def)
next
  case Step
  then show ?thesis using step_follows [OF inv se] by (cases "step D st") (auto simp: writeback_step_def)
qed (use follows_refl [OF se] tick_follows [OF inv se] in auto)

lemma calls_follow:
  "block_inv view st \<Longrightarrow> settled st \<Longrightarrow> follows st (issued_by D cs st) (snd (run_calls D cs st))"
proof (induction cs arbitrary: st)
  case (Cons c cs)
  obtain a st1 where r: "run_call D c st = (a, st1)" by fastforce
  note f = call_follows [OF Cons.prems, of c] and k = call_refines [OF Cons.prems(1) r]
  have "follows st1 (issued_by D cs st1) (snd (run_calls D cs st1))"
    using Cons.IH f k r by (simp add: follows_def)
  from follows_trans [OF _ this, of st "issued D c st"] show ?case
    using f k r by (cases "run_calls D cs st1") simp
qed (simp add: follows_refl)

end

section \<open>The queue stays within its budget\<close>

abbreviation queued_bytes :: "'d block_state \<Rightarrow> nat" where
  "queued_bytes st \<equiv> ws_queued_bytes (b_stats st)"

lemma queued_bytes_eq: "block_inv view st \<Longrightarrow> queued_bytes st = queued_sectors (b_queue st) * kSectorSize"
  by (simp add: block_inv_def)

lemma step_false_queue:
  assumes "step D st = (False, st')"
  shows "b_queue st' = b_queue st"
proof (cases "b_queue st")
  case (Cons r q)
  let ?st1 = "upd_stats (ws_steps_update Suc) st"
  have flushing: "b_queue st' = b_queue st" if "step_flush D (p_device r) ?st1 = (False, st')"
    using that b_queue_ops_flush [of D "p_device r" ?st1]
    by (auto simp: step_flush_def Let_def fail_keeps split: if_splits prod.splits)
  have writing: "b_queue st' = b_queue st" if w: "step_write D r q ?st1 = (False, st')"
  proof -
    define remaining where "remaining = p_count r - p_written r"
    define n0 where "n0 = (if remaining < kStepSectors then remaining else kStepSectors)"
    obtain n extra merged where g: "(if n0 = remaining then gather (p_device r) (p_lba r + p_written r) n0 q else (n0, [], 0)) = (n, extra, merged)"
      by (metis prod_cases3)
    obtain ok st2 where o: "ops_write D (p_device r) (p_lba r + p_written r)
        (take n0 (drop (p_written r) (p_data r)) @ extra) ?st1 = (ok, st2)" by fastforce
    note eq = step_write_eq [OF remaining_def n0_def g o]
    show ?thesis using w eq b_queue_ops_write [OF o] by (auto simp: Let_def fail_keeps split: if_splits)
  qed
  show ?thesis using assms Cons flushing writing by (auto simp: step_def Let_def split: if_splits)
qed (use assms in \<open>simp add: step_def\<close>)

lemma step_queue_shrinks:
  assumes "step D st = (b, st')"
  shows "queued_sectors (b_queue st') \<le> queued_sectors (b_queue st)"
proof (cases b)
  case True
  from assms True obtain r q where q: "b_queue st = r # q" by (auto simp: step_def split: list.splits)
  let ?st1 = "upd_stats (ws_steps_update Suc) st"
  have q1: "b_queue ?st1 = r # q" using q by simp
  show ?thesis
  proof (cases "p_count r = 0")
    case z: True
    have "step_flush D (p_device r) ?st1 = (True, st')" using assms q z True by (auto simp: step_def Let_def split: if_splits)
    from step_flush_queue [OF this] q1 show ?thesis by (simp add: queued_sectors_def q)
  next
    case False
    have "step_write D r q ?st1 = (True, st')" using assms q False True by (auto simp: step_def Let_def split: if_splits)
    from step_write_queue [OF this q1] show ?thesis
      using queue_work_drop_le [of "\<lambda>r. p_count r - p_written r" _ q]
      by (auto simp: queued_sectors_def q intro: le_trans [OF _ le_add2])
  qed
qed (use step_false_queue [of D st st'] assms in auto)

context disk_medium
begin

definition shrinks :: "'d block_state \<Rightarrow> 'd block_state \<Rightarrow> bool" where
  "shrinks st st' \<longleftrightarrow> keeps st st' \<and> queued_bytes st' \<le> queued_bytes st"

lemma shrinks_same_queue: "block_inv view st \<Longrightarrow> keeps st st' \<Longrightarrow> b_queue st' = b_queue st \<Longrightarrow> shrinks st st'"
  using queued_bytes_eq [of view st] queued_bytes_eq [of view st'] by (simp add: shrinks_def keeps_def)

lemma shrinks_step: "block_inv view st \<Longrightarrow> step D st = (b, st') \<Longrightarrow> shrinks st st'"
  using step_keeps [of st b st'] step_queue_shrinks [of D st b st'] queued_bytes_eq [of view st] queued_bytes_eq [of view st']
  by (simp add: shrinks_def keeps_def)

lemma shrinks_trans: "shrinks st st1 \<Longrightarrow> shrinks st1 st2 \<Longrightarrow> shrinks st st2"
  unfolding shrinks_def using keeps_trans le_trans by blast

end

sublocale disk_medium \<subseteq> shrinking: step_relation D "block_inv view" shrinks
  by (rule step_relation.intro)
    (simp add: shrinks_def keeps_refl, erule (1) shrinks_step, simp add: shrinks_def keeps_def, erule (1) shrinks_trans)

context disk_medium
begin

lemma make_room_shrinks:
  assumes "block_inv view st" and "make_room D bytes st = (ok, st')"
  shows "queued_bytes st' \<le> queued_bytes st \<and> (ok \<longrightarrow> bytes \<le> B \<longrightarrow> kMaxQueuedBytes \<le> B \<longrightarrow> queued_bytes st' + bytes \<le> B)"
proof -
  obtain ok1 w st1 where l: "make_room_loop D bytes False st = (ok1, w, st1)" by (metis prod_cases3)
  note r = shrinking.make_room_loop_rel [OF assms(1) l]
  have "queued_bytes st1 = 0" if "b_queue st1 = []"
    using that r queued_bytes_eq [of view st1] by (simp add: shrinks_def keeps_def queued_sectors_def)
  then show ?thesis using r assms(2) l by (auto simp: make_room_def shrinks_def split: if_splits)
qed

lemma drain_all_shrinks:
  assumes "block_inv view st" and "drain_all D st = (ok, st')"
  shows "queued_bytes st' \<le> queued_bytes st"
proof -
  obtain b st1 where q: "drain_queue D st = (b, st1)" by fastforce
  have r: "shrinks st st1" using shrinking.drain_queue_rel [OF assms(1) q] by blast
  then have inv1: "block_inv view st1" by (simp add: shrinks_def keeps_def)
  show ?thesis
  proof (cases b)
    case True
    then have "flush_devices D [0..<b_device_count st1] True st1 = (ok, st')" using assms(2) q by (simp add: drain_all_def)
    then have "shrinks st1 st'" using flush_devices_keeps [OF inv1] shrinks_same_queue [OF inv1] by blast
    then show ?thesis using r by (simp add: shrinks_def)
  qed (use assms(2) q r in \<open>auto simp: drain_all_def shrinks_def\<close>)
qed

lemma write_bounded:
  assumes inv: "block_inv view st" and B: "kMaxQueuedBytes \<le> B" and disk: "is_disk st i" and len: "length bs * kSectorSize \<le> B"
    and w: "disk_level_write_cached D heap i lba bs st = (ok, st')" and b: "queued_bytes st \<le> B"
  shows "queued_bytes st' \<le> B"
proof -
  have op: "b_stats st2 = b_stats st1" if "ops_write D i lba bs st1 = (ok, st2)" for st1 st2
    using that by (auto simp: ops_write_def split: ops_target.splits prod.splits)
  from disk w show ?thesis
  proof (cases rule: write_cases)
    case (queued st1)
    then show ?thesis using make_room_shrinks [OF inv queued(4), of B] len B by simp
  next
    case (undrained st1)
    note k1 = make_room_keeps [OF inv undrained(2)]
    show ?thesis using drain_all_shrinks [OF _ undrained(3)] make_room_shrinks [OF inv undrained(2), of B] k1 b by (simp add: keeps_def)
  next
    case (through st1 st2 st3)
    note k1 = make_room_keeps [OF inv through(1)]
    show ?thesis using drain_all_shrinks [OF _ through(2)] make_room_shrinks [OF inv through(1), of B] k1 b op [OF through(3)] through(4)
      by (simp add: keeps_def)
  next
    case no_room
    then show ?thesis using make_room_shrinks [OF inv no_room(2), of B] b by simp
  qed (use b op in auto)
qed

lemma cached_bounded:
  assumes inv: "block_inv view st" and B: "kMaxQueuedBytes \<le> B" and len: "length bs * kSectorSize \<le> B"
    and w: "write_cached D h i lba bs st = (ok, st')" and b: "queued_bytes st \<le> B"
  shows "queued_bytes st' \<le> B"
proof (cases "device_for_index i st")
  case (Some d)
  from inv Some show ?thesis
  proof (cases rule: place_cases)
    case disk
    then show ?thesis using w Some write_bounded [OF inv B disk(3) len _ b] by (simp add: write_cached_def)
  next
    case (slice p s)
    have "st' = st \<or> disk_level_write_cached D h p (s + lba) bs st = (ok, st')"
      using w Some slice(1) by (simp add: write_cached_def split: if_splits)
    then show ?thesis using write_bounded [OF inv B slice(3) len _ b] b by blast
  qed
qed (use w b in \<open>simp add: write_cached_def\<close>)

lemma disk_flush_bounded:
  assumes inv: "block_inv view st" and f: "disk_level_flush D heap i st = (ok, st')"
  shows "queued_bytes st' \<le> queued_bytes st"
proof (cases "device_for_index i st")
  case (Some d)
  have op: "b_stats st2 = b_stats st" if "ops_flush D i st = (ok, st2)" for st2
    using that by (auto simp: ops_flush_def split: ops_target.splits prod.splits)
  have "st' = st \<or> ops_flush D i st = (ok, st') \<or> drain_all D st = (ok, st') \<or> b_stats st' = b_stats st"
    using f Some unfolding disk_level_flush_def enqueue_def by (auto split: if_split_asm)
  then show ?thesis using drain_all_shrinks [OF inv] op by auto
qed (use f in \<open>simp add: disk_level_flush_def\<close>)

lemma flush_bounded:
  assumes inv: "block_inv view st" and f: "block_flush D h i st = (ok, st')"
  shows "queued_bytes st' \<le> queued_bytes st"
proof (cases "device_for_index i st")
  case (Some d)
  have "st' = st \<or> (\<exists>j. disk_level_flush D h j st = (ok, st'))"
    using f Some by (auto simp: block_flush_def split: ops_target.splits if_splits)
  then show ?thesis using disk_flush_bounded [OF inv] by auto
qed (use f in \<open>simp add: block_flush_def\<close>)

end

fun call_bytes :: "block_call \<Rightarrow> nat" where
  "call_bytes (Write_cached h i lba bs) = length bs * kSectorSize"
| "call_bytes (Write h1 h2 i lba bs) = length bs * kSectorSize"
| "call_bytes c = 0"

context disk_medium
begin

lemma sync_bounded: "block_inv view st \<Longrightarrow> block_sync D i st = (ok, st') \<Longrightarrow> queued_bytes st' \<le> queued_bytes st"
  using drain_all_shrinks by (auto simp: block_sync_def split: if_splits)

lemma block_write_bounded:
  assumes inv: "block_inv view st" and B: "kMaxQueuedBytes \<le> B" and len: "length bs * kSectorSize \<le> B" and b: "queued_bytes st \<le> B"
    and w: "block_write D h1 h2 i lba bs st = (ok, st')"
  shows "queued_bytes st' \<le> B"
proof -
  obtain ok1 st1 where w1: "write_cached D h1 i lba bs st = (ok1, st1)" by fastforce
  obtain ok2 st2 where f: "block_flush D h2 i st1 = (ok2, st2)" by fastforce
  have inv1: "block_inv view st1" using write_flat [OF inv w1] by blast
  have inv2: "block_inv view st2" using flush_flat [OF inv1 f] by (simp add: keeps_def)
  note le = cached_bounded [OF inv B len w1 b] flush_bounded [OF inv1 f] sync_bounded [OF inv2]
  then have "queued_bytes st2 \<le> B" by linarith
  then show ?thesis using w w1 f le(1,3) by (auto simp: block_write_def split: bool.splits dest: le_trans)
qed

lemma call_bounded:
  assumes inv: "block_inv view st" and B: "kMaxQueuedBytes \<le> B" and b: "queued_bytes st \<le> B" and c: "call_bytes c \<le> B"
    and r: "run_call D c st = (a, st')"
  shows "queued_bytes st' \<le> B"
proof (cases c)
  case (Write_cached h i lba bs)
  then show ?thesis using r c cached_bounded [OF inv B _ _ b] by (auto split: prod.splits)
next
  case (Write h1 h2 i lba bs)
  then show ?thesis using r c block_write_bounded [OF inv B _ b] by (auto split: prod.splits)
next
  case (Flush h i)
  then show ?thesis using r b le_trans [OF flush_bounded [OF inv] b] by (auto split: prod.splits)
next
  case (Sync i)
  then show ?thesis using r b le_trans [OF sync_bounded [OF inv] b] by (auto split: prod.splits)
next
  case Sync_all
  then show ?thesis using r b le_trans [OF drain_all_shrinks [OF inv] b] by (auto simp: sync_all_def split: prod.splits)
next
  case Step
  then show ?thesis using r b shrinks_step [OF inv] by (auto simp: writeback_step_def shrinks_def split: prod.splits dest: le_trans)
next
  case (Tick now)
  let ?st2 = "st\<lparr>b_clock_ms := now, b_last_forced_ms := now\<rparr>"
  have "block_inv view ?st2" using block_inv_same(1) [OF inv, of ?st2] by (simp add: same_devices_def)
  then have "queued_bytes (snd (step D ?st2)) \<le> queued_bytes st"
    using shrinks_step [of ?st2] by (cases "step D ?st2") (simp add: shrinks_def)
  then show ?thesis using r b Tick by (auto simp: writeback_tick_def Let_def split: if_splits)
qed (use r b in auto)

lemma calls_bounded:
  "block_inv view st \<Longrightarrow> kMaxQueuedBytes \<le> B \<Longrightarrow> queued_bytes st \<le> B \<Longrightarrow> \<forall>c\<in>set cs. call_bytes c \<le> B \<Longrightarrow>
    queued_bytes (snd (run_calls D cs st)) \<le> B"
proof (induction cs arbitrary: st)
  case (Cons c cs)
  obtain a st1 where r: "run_call D c st = (a, st1)" by fastforce
  have "block_inv view st1" using call_refines [OF Cons.prems(1) r] by blast
  then have "queued_bytes (snd (run_calls D cs st1)) \<le> B"
    using Cons.IH call_bounded [OF Cons.prems(1-3) _ r] Cons.prems(2,4) by simp
  then show ?case using r by (cases "run_calls D cs st1") simp
qed simp

end

section \<open>A disk with a partition\<close>

definition example_ops :: device_ops where
  "example_ops = \<lparr>ops_target = Driver_at 0, ops_can_read = True, ops_can_write = True, ops_can_flush = True,
     ops_deferred = True\<rparr>"

definition block_example :: "image block_state" where
  "block_example = \<lparr>b_devices = [zero_device\<lparr>bd_present := True, bd_ops := example_ops, bd_sectors := 4, bd_writable := True\<rparr>,
       zero_device\<lparr>bd_present := True, bd_ops := example_ops\<lparr>ops_target := Slice_of 0 1, ops_deferred := False\<rparr>, bd_sectors := 2,
         bd_writable := True\<rparr>],
     b_device_count = 2, b_next_id = 0, b_generation = 0, b_ready = True, b_drivers = [], b_queue = [], b_clock_ms = 0,
     b_last_forced_ms = 0, b_stats = \<lparr>ws_queued_bytes = 0, ws_peak_queued_bytes = 0, ws_steps = 0, ws_device_writes = 0,
       ws_device_flushes = 0, ws_forced_drains = 0, ws_failures = 0\<rparr>,
     b_disks = \<lparr>im_sectors = [[0], [0], [0], [0]], im_writable = True, im_name = []\<rparr>, b_log = []\<rparr>"

definition example_calls :: "block_call list" where
  "example_calls = [Write_cached True 1 0 [[1], [2]], Flush True 1, Write_cached True 0 0 [[3], [4]], Read 0 0 4, Step, Read 1 0 2]"

lemma example_disk: "is_disk block_example i \<longleftrightarrow> i = 0"
  by (cases i rule: nat.exhaust; cases "i - 1")
    (auto simp: is_disk_def block_example_def context_of_def example_ops_def zero_device_def)

lemma example_inv: "block_inv image_view block_example"
  unfolding block_inv_def using example_disk
  by (auto simp: block_example_def head_written_def queued_sectors_def slice_ok_def example_ops_def zero_device_def
      less_Suc_eq numeral_2_eq_2 is_disk_def context_of_def)

lemma example_flushable: "flushable block_example 0"
  using example_disk [of 0] by (simp add: flushable_def defers_def) (simp add: block_example_def example_ops_def zero_device_def)

text \<open>C1. A reader never sees that writes are delayed: whatever sequence of reads, cached and durable
  writes, flushes, syncs and background steps is made, through disks and partitions, the replies
  are those of plain arrays of sectors, in which a write that succeeds replaces exactly its
  sectors, a write that fails changes at most its own sectors, and nothing else changes
  anything.\<close>

theorem block_calls_refine_store:
  assumes "disk_medium D view" and "block_inv view st" and "run_calls D cs st = (as, st')"
  shows "store_calls (place st) cs as (flat view st) (flat view st') \<and> block_inv view st'"
  using disk_medium.calls_refine [OF assms] by blast

theorem block_calls_refine_store_witness:
  "store_calls (place block_example) example_calls (fst (run_calls ramdisk_driver example_calls block_example))
     (flat image_view block_example) (flat image_view (snd (run_calls ramdisk_driver example_calls block_example))) \<and>
   fst (run_calls ramdisk_driver example_calls block_example) =
     [Done True, Done True, Done True, Data (Some [[3], [4], [2], [0]]), Done True, Data (Some [[4], [2]])]"
proof
  show "store_calls (place block_example) example_calls (fst (run_calls ramdisk_driver example_calls block_example))
     (flat image_view block_example) (flat image_view (snd (run_calls ramdisk_driver example_calls block_example)))"
    using block_calls_refine_store [OF ramdisk.disk_medium_axioms example_inv surjective_pairing] by blast
  show "fst (run_calls ramdisk_driver example_calls block_example) =
     [Done True, Done True, Done True, Data (Some [[3], [4], [2], [0]]), Done True, Data (Some [[4], [2]])]"
    by code_simp
qed

text \<open>C2. Ordering: the sectors a disk with a cache has been told to write are, at any moment, an
  initial part of the sectors its writers wrote, in the order they wrote them; and when the disk
  has been told to write a sector that was written after a flush, it was told to flush after
  exactly the sectors written before that flush.\<close>

theorem block_writes_ordered:
  assumes "disk_medium D view" and "block_inv view st" and "b_log st = []" and "b_queue st = []" and "flushable st i"
    and "run_calls D cs st = (as, st')"
  shows "prefix (writes_of i (done_events st')) (writes_of i (issued_by D cs st)) \<and>
    (\<forall>c\<in>cuts i 0 (issued_by D cs st). 0 < c \<longrightarrow> c < length (writes_of i (done_events st')) \<longrightarrow>
       c \<in> cuts i 0 (done_events st'))"
proof -
  have d: "done_events st = []" "events st = []" using assms(3,4) by (simp_all add: events_def done_events_def)
  then have "settled st" by (simp add: settled_def flushed_def)
  from disk_medium.calls_follow [OF assms(1,2) this, of cs]
  have f: "follows st (issued_by D cs st) st'" using assms(6) by simp
  have w: "writes_of i (events st') = writes_of i (issued_by D cs st)"
    and c: "cuts i 0 (issued_by D cs st) \<subseteq> insert 0 (cuts i 0 (events st'))"
    using f assms(5) d by (simp_all add: follows_def)
  have "c \<in> cuts i 0 (done_events st')"
    if "c \<in> cuts i 0 (events st')" "c < length (writes_of i (done_events st'))" for c
    using that cuts_ge by (fastforce simp: events_def)
  moreover have "prefix (writes_of i (done_events st')) (writes_of i (issued_by D cs st))"
    unfolding w [symmetric] by (simp add: events_def)
  ultimately show ?thesis using c by blast
qed

theorem block_writes_ordered_witness:
  "prefix (writes_of 0 (done_events (snd (run_calls ramdisk_driver example_calls block_example))))
     (writes_of 0 (issued_by ramdisk_driver example_calls block_example)) \<and>
   writes_of 0 (done_events (snd (run_calls ramdisk_driver (example_calls @ [Step, Step]) block_example))) =
     [(1, [1]), (2, [2]), (0, [3]), (1, [4])] \<and>
   2 \<in> cuts 0 0 (done_events (snd (run_calls ramdisk_driver (example_calls @ [Step, Step]) block_example)))"
proof (intro conjI)
  have e: "b_log block_example = []" "b_queue block_example = []" by (simp_all add: block_example_def)
  note o = block_writes_ordered [OF ramdisk.disk_medium_axioms example_inv e example_flushable surjective_pairing]
  show "prefix (writes_of 0 (done_events (snd (run_calls ramdisk_driver example_calls block_example))))
     (writes_of 0 (issued_by ramdisk_driver example_calls block_example))"
    using o by blast
  show w: "writes_of 0 (done_events (snd (run_calls ramdisk_driver (example_calls @ [Step, Step]) block_example))) =
     [(1, [1]), (2, [2]), (0, [3]), (1, [4])]"
    by code_simp
  have "2 \<in> cuts 0 0 (issued_by ramdisk_driver (example_calls @ [Step, Step]) block_example)" by code_simp
  then show "2 \<in> cuts 0 0 (done_events (snd (run_calls ramdisk_driver (example_calls @ [Step, Step]) block_example)))"
    using o [of "example_calls @ [Step, Step]"] unfolding w by simp
qed

text \<open>C11. A durable write that returns success has put its sectors on the device, with nothing
  left in the queue, and a device with a cache has been told to flush after its last write.\<close>

theorem block_write_durable:
  assumes "disk_medium D view" and "block_inv view st" and "settled st"
    and "place st i = Some (j, base)" and "is_disk st j" and "block_write D h1 h2 i lba bs st = (True, st')"
  shows "b_queue st' = [] \<and> (\<forall>k<length bs. view (b_disks st') (context_of st j) (base + lba + k) = bs ! k) \<and>
    (flushable st j \<longrightarrow> flushed j st')"
proof -
  note a = disk_medium.block_write_flat [OF assms(1,2,6)] and b = disk_medium.block_write_steps [OF assms(1,2,3,6)]
  have q: "b_queue st' = []" and sd: "same_devices st st'" using a by simp_all
  have "view (b_disks st') (context_of st j) (base + lba + k) = bs ! k" if "k < length bs" for k
    using a that assms(4,5) q
    by (auto simp: store_write_def flat_def disk_seen_def same_devices_context [OF sd] same_devices_disk [OF sd])
  then show ?thesis using q b by blast
qed

theorem block_write_durable_witness:
  "let st' = snd (block_write ramdisk_driver True True 1 0 [[7]] block_example)
   in image_view (b_disks st') 0 1 = [7] \<and> flushed 0 st' \<and> b_log st' = [Dev_write 0 1 [[7]], Dev_flush 0]"
proof -
  let ?w = "block_write ramdisk_driver True True 1 0 [[7]] block_example"
  have w: "fst ?w = True" by code_simp
  have se: "settled block_example" by (simp add: settled_def flushed_def done_events_def) (simp add: block_example_def)
  have p: "place block_example 1 = Some (0, 1)" "is_disk block_example 0" "context_of block_example 0 = 0"
    by code_simp+
  have "?w = (True, snd ?w)" using w by (metis surjective_pairing)
  from block_write_durable [OF ramdisk.disk_medium_axioms example_inv se p(1,2) this] p(3) example_flushable
  have "image_view (b_disks (snd ?w)) 0 1 = [7]" "flushed 0 (snd ?w)" by (force, blast)
  moreover have "b_log (snd ?w) = [Dev_write 0 1 [[7]], Dev_flush 0]" by code_simp
  ultimately show ?thesis by (simp add: Let_def)
qed

text \<open>The budget does not bound a single write: on a healthy deferring disk with an empty queue,
  a write of more than eight megabytes within the disk is accepted at once, without touching the disk,
  and leaves the whole of it queued.\<close>

lemma oversized_write_passes_budget:
  assumes "is_disk st i" and "defers (b_devices st ! i)" and "\<not> bd_failed (b_devices st ! i)" and "bd_writable (b_devices st ! i)"
    and "request_in_range (b_devices st ! i) lba (length bs)" and "b_queue st = []" and "queued_bytes st = 0"
    and "kMaxQueuedBytes < length bs * kSectorSize"
  shows "\<exists>st'. write_cached D True i lba bs st = (True, st') \<and> b_disks st' = b_disks st \<and>
    queued_bytes st' = length bs * kSectorSize \<and> kMaxQueuedBytes < queued_bytes st'"
proof -
  have d: "device_for_index i st = Some (b_devices st ! i)" using assms(1) by (simp add: device_for_index_def is_disk_def)
  have "make_room D (length bs * kSectorSize) st = (True, st)"
    using assms(6) by (simp add: make_room_def make_room_loop.simps)
  then show ?thesis using d assms by (auto simp: write_cached_def is_disk_def disk_level_write_cached_def enqueue_def Let_def)
qed

text \<open>C27. Whatever calls and background steps follow each other, the queue's byte count is exact
  and never passes its budget of eight megabytes or, if that is more, the size of the largest single
  write among the calls. So as long as no request is larger than the budget itself, the queue stays
  within the budget. A larger write does pass it: on a healthy deferring disk with an empty queue it is
  accepted at once, without touching the disk, and all of it is queued.\<close>

theorem block_queue_bounded:
  assumes "disk_medium D view" and "block_inv view st" and "queued_bytes st \<le> kMaxQueuedBytes"
    and "run_calls D cs st = (as, st')"
  shows "queued_bytes st' = queued_sectors (b_queue st') * kSectorSize \<and>
    queued_bytes st' \<le> Max (insert kMaxQueuedBytes (call_bytes ` set cs)) \<and>
    (is_disk st' i \<and> defers (b_devices st' ! i) \<and> \<not> bd_failed (b_devices st' ! i) \<and> bd_writable (b_devices st' ! i) \<and>
      request_in_range (b_devices st' ! i) lba (length bs) \<and> b_queue st' = [] \<and> kMaxQueuedBytes < length bs * kSectorSize \<longrightarrow>
      (\<exists>st''. write_cached D True i lba bs st' = (True, st'') \<and> b_disks st'' = b_disks st' \<and>
        queued_bytes st'' = length bs * kSectorSize \<and> kMaxQueuedBytes < queued_bytes st''))"
proof -
  let ?B = "Max (insert kMaxQueuedBytes (call_bytes ` set cs))"
  have B: "kMaxQueuedBytes \<le> ?B" "\<forall>c\<in>set cs. call_bytes c \<le> ?B" by simp_all
  have "queued_bytes st \<le> ?B" using assms(3) B(1) by linarith
  from disk_medium.calls_bounded [OF assms(1,2) B(1) this B(2)] have le: "queued_bytes st' \<le> ?B" using assms(4) by simp
  have eq: "queued_bytes st' = queued_sectors (b_queue st') * kSectorSize"
    using disk_medium.calls_refine [OF assms(1,2,4)] queued_bytes_eq [of view st'] by simp
  then have "queued_bytes st' = 0" if "b_queue st' = []" using that by (simp add: queued_sectors_def)
  then show ?thesis using le eq oversized_write_passes_budget [of st' i lba bs D] by blast
qed

text \<open>The same disk with room for more than the budget.\<close>

definition large_example :: "image block_state" where
  "large_example = upd_device 0 (\<lambda>d. d\<lparr>bd_sectors := 20000\<rparr>) block_example"

lemma large_example_inv: "block_inv image_view large_example"
proof -
  have "is_disk large_example i \<longleftrightarrow> i = 0" for i
    by (cases i rule: nat.exhaust; cases "i - 1")
      (auto simp: is_disk_def large_example_def block_example_def context_of_def example_ops_def zero_device_def)
  then show ?thesis unfolding block_inv_def
    by (auto simp: large_example_def block_example_def head_written_def queued_sectors_def slice_ok_def example_ops_def zero_device_def
      less_Suc_eq numeral_2_eq_2 is_disk_def context_of_def)
qed

theorem block_queue_bounded_witness:
  "queued_bytes (snd (run_calls ramdisk_driver (take 3 example_calls) block_example)) \<le> kMaxQueuedBytes \<and>
   queued_bytes (snd (run_calls ramdisk_driver (take 3 example_calls) block_example)) = 2048 \<and>
   queued_bytes (snd (write_cached ramdisk_driver True 0 0 (replicate 16385 [7]) large_example)) = 8389120"
proof (intro conjI)
  have "queued_bytes block_example \<le> kMaxQueuedBytes" by (simp add: block_example_def kMaxQueuedBytes_def)
  moreover have "Max (insert kMaxQueuedBytes (call_bytes ` set (take 3 example_calls))) = kMaxQueuedBytes"
    by (simp add: kMaxQueuedBytes_def example_calls_def kSectorSize_def)
  ultimately show "queued_bytes (snd (run_calls ramdisk_driver (take 3 example_calls) block_example)) \<le> kMaxQueuedBytes"
    using block_queue_bounded [OF ramdisk.disk_medium_axioms example_inv _ surjective_pairing] by metis
  show "queued_bytes (snd (run_calls ramdisk_driver (take 3 example_calls) block_example)) = 2048" by code_simp
  have "queued_bytes large_example \<le> kMaxQueuedBytes" "run_calls ramdisk_driver [] large_example = ([], large_example)"
    by (simp_all add: large_example_def block_example_def)
  note large = block_queue_bounded [OF ramdisk.disk_medium_axioms large_example_inv this, of 0 0 "replicate 16385 [7]"]
  have "is_disk large_example 0" "defers (b_devices large_example ! 0)" "\<not> bd_failed (b_devices large_example ! 0)"
    "bd_writable (b_devices large_example ! 0)" "b_queue large_example = []"
    "request_in_range (b_devices large_example ! 0) 0 (length (replicate 16385 [7 :: u8]))"
    "kMaxQueuedBytes < length (replicate 16385 [7 :: u8]) * kSectorSize"
    by (simp_all add: large_example_def block_example_def is_disk_def context_of_def defers_def request_in_range_def example_ops_def
        zero_device_def kMaxQueuedBytes_def kSectorSize_def)
  with large have "queued_bytes (snd (write_cached ramdisk_driver True 0 0 (replicate 16385 [7]) large_example)) =
      length (replicate 16385 [7 :: u8]) * kSectorSize" by fastforce
  then show "queued_bytes (snd (write_cached ramdisk_driver True 0 0 (replicate 16385 [7]) large_example)) = 8389120"
    by (simp add: kSectorSize_def)
qed

text \<open>C37. A disk that failed in the background holds up every other disk: once its record is at the
  head of the queue, a write to a healthy disk is still accepted, but it never reaches that disk,
  because every later step, and every sync of the healthy disk, fails.\<close>

theorem failed_disk_blocks_others:
  assumes "b_queue st = r # q" and "bd_failed (b_devices st ! p_device r)" and "is_disk st j" and "j \<noteq> p_device r"
    and "defers (b_devices st ! j)" and "write_cached D True j lba bs st = (True, st')"
  shows "block_sync D j st' = (False, st') \<and> writeback_step D st' = (False, st') \<and> b_disks st' = b_disks st"
proof -
  have step: "step D s = (False, s)" if "b_queue s = r # q'" "b_devices s = b_devices st" for s q'
    using that assms(2) by (simp add: step_def)
  have d: "device_for_index j st = Some (b_devices st ! j)" using assms(3) by (simp add: device_for_index_def is_disk_def)
  then have w: "disk_level_write_cached D True j lba bs st = (True, st')"
    using assms(3,6) by (auto simp: write_cached_def is_disk_def)
  have room: "st1 = st" if "make_room D n st = (True, st1)" for n st1
    using that step [OF assms(1)] by (subst (asm) make_room_def, subst (asm) make_room_loop.simps) (auto split: if_splits)
  have "b_queue st' = r # q @ [\<lparr>p_device = j, p_lba = lba, p_count = length bs, p_written = 0,
      p_queued_ms = b_clock_ms st, p_data = bs\<rparr>] \<and> b_devices st' = b_devices st \<and> b_device_count st' = b_device_count st \<and> b_disks st' = b_disks st"
    using assms(3) w
  proof (cases rule: write_cases)
    case (queued st1)
    then show ?thesis using room assms(1) by auto
  next
    case (through st1 st2 st3)
    then show ?thesis using room [OF through(1)] step [OF assms(1)]
      by (auto simp: drain_all_def drain_queue.simps [of D st] assms(1))
  qed (use assms(5) in auto)
  then have e: "b_queue st' \<noteq> []" "step D st' = (False, st')" "device_for_index j st' \<noteq> None" "b_disks st' = b_disks st"
    using step [of st'] d by (auto simp: device_for_index_def split: if_splits)
  then show ?thesis by (simp add: block_sync_def drain_all_def drain_queue.simps [of D st'] writeback_step_def)
qed

theorem failed_disk_blocks_others_witness:
  "let st = block_example\<lparr>b_devices := b_devices block_example @ [(b_devices block_example ! 0)\<lparr>bd_failed := True\<rparr>], b_device_count := 3,
         b_queue := [\<lparr>p_device = 2, p_lba = 0, p_count = 1, p_written = 0, p_queued_ms = 0, p_data = [[9]]\<rparr>]\<rparr>;
       st' = snd (write_cached ramdisk_driver True 0 0 [[5]] st)
   in block_sync ramdisk_driver 0 st' = (False, st') \<and> im_sectors (b_disks st') = [[0], [0], [0], [0]]"
proof -
  let ?r = "\<lparr>p_device = 2, p_lba = 0, p_count = 1, p_written = 0, p_queued_ms = 0, p_data = [[9]]\<rparr>"
  let ?st = "block_example\<lparr>b_devices := b_devices block_example @ [(b_devices block_example ! 0)\<lparr>bd_failed := True\<rparr>], b_device_count := 3,
         b_queue := [?r]\<rparr>"
  let ?w = "write_cached ramdisk_driver True 0 0 [[5]] ?st"
  have "fst ?w = True" by code_simp
  then have w: "?w = (True, snd ?w)" by (metis surjective_pairing)
  have a: "b_queue ?st = ?r # []" "bd_failed (b_devices ?st ! p_device ?r)" "is_disk ?st 0" "0 \<noteq> p_device ?r" "defers (b_devices ?st ! 0)"
    by (simp, code_simp, code_simp, simp, code_simp)
  from failed_disk_blocks_others [OF a w] show ?thesis by (simp add: Let_def) (simp add: block_example_def)
qed

section \<open>The order of the drivers\<close>

definition ahead :: "int list \<Rightarrow> nat \<Rightarrow> nat \<Rightarrow> bool" where
  "ahead ps i j \<longleftrightarrow> ps ! j < ps ! i \<or> ps ! i = ps ! j \<and> i < j"

lemma best_driver_spec:
  assumes "n \<le> length ps"
    and "case best of None \<Rightarrow> \<forall>i<length ps - n. done ! i
      | Some b \<Rightarrow> b < length ps - n \<and> \<not> done ! b \<and> (\<forall>i<length ps - n. \<not> done ! i \<longrightarrow> i \<noteq> b \<longrightarrow> ahead ps b i)"
  shows "case best_driver ps done best n of None \<Rightarrow> \<forall>i<length ps. done ! i
      | Some b \<Rightarrow> b < length ps \<and> \<not> done ! b \<and> (\<forall>i<length ps. \<not> done ! i \<longrightarrow> i \<noteq> b \<longrightarrow> ahead ps b i)"
  using assms
proof (induction n arbitrary: best)
  case (Suc n)
  let ?i = "length ps - Suc n"
  let ?b = "if done ! ?i then best else case best of None \<Rightarrow> Some ?i | Some b \<Rightarrow> if ps ! b < ps ! ?i then Some ?i else best"
  have lt: "j < length ps - n \<longleftrightarrow> j < ?i \<or> j = ?i" for j using Suc.prems(1) by linarith
  have "case ?b of None \<Rightarrow> \<forall>i<length ps - n. done ! i
      | Some b \<Rightarrow> b < length ps - n \<and> \<not> done ! b \<and> (\<forall>i<length ps - n. \<not> done ! i \<longrightarrow> i \<noteq> b \<longrightarrow> ahead ps b i)"
    using Suc.prems(2) unfolding lt by (cases best) (fastforce simp: ahead_def)+
  from Suc.IH [OF _ this] Suc.prems(1) show ?case by (simp add: Let_def)
qed (simp split: option.splits)

lemma probe_order_spec:
  assumes "length done = length ps" and "card {i. i < length ps \<and> \<not> done ! i} = n"
  shows "set (probe_order ps done n) = {i. i < length ps \<and> \<not> done ! i} \<and> sorted_wrt (ahead ps) (probe_order ps done n)"
  using assms
proof (induction n arbitrary: "done")
  case (Suc n)
  let ?todo = "{i. i < length ps \<and> \<not> done ! i}"
  have sp: "case best_driver ps done None (length ps) of None \<Rightarrow> \<forall>i<length ps. done ! i
      | Some b \<Rightarrow> b < length ps \<and> \<not> done ! b \<and> (\<forall>i<length ps. \<not> done ! i \<longrightarrow> i \<noteq> b \<longrightarrow> ahead ps b i)"
    by (rule best_driver_spec) simp_all
  show ?case
  proof (cases "best_driver ps done None (length ps)")
    case None
    then have "?todo = {}" using sp by auto
    then have False using Suc.prems(2) by (metis card.empty nat.distinct(1))
    then show ?thesis ..
  next
    case (Some b)
    then have b: "b < length ps" "\<not> done ! b" "\<And>i. i < length ps \<Longrightarrow> \<not> done ! i \<Longrightarrow> i \<noteq> b \<Longrightarrow> ahead ps b i" using sp by auto
    have todo': "{i. i < length ps \<and> \<not> done[b := True] ! i} = ?todo - {b}"
      using b Suc.prems(1) by (auto simp: nth_list_update)
    have "card (?todo - {b}) = n" using Suc.prems(2) b by simp
    from Suc.IH [of "done[b := True]", unfolded todo', OF _ this] Suc.prems(1)
    show ?thesis using Some b by auto
  qed
qed simp

text \<open>\<^verbatim>\<open>probe_all\<close> runs every registered driver exactly once, by falling priority, and drivers of the
  same priority in the order they were registered.\<close>

theorem probe_order_by_priority:
  "let order = probe_order ps (replicate (length ps) False) (length ps)
   in distinct order \<and> set order = {..<length ps} \<and> sorted_wrt (\<lambda>i j. ps ! j < ps ! i \<or> ps ! i = ps ! j \<and> i < j) order"
proof -
  have all: "{i. i < length ps \<and> \<not> replicate (length ps) False ! i} = {..<length ps}" by auto
  have c: "card {i. i < length ps \<and> \<not> replicate (length ps) False ! i} = length ps" unfolding all by simp
  note s = probe_order_spec [OF length_replicate c, unfolded all]
  have "sorted_wrt (\<noteq>) (probe_order ps (replicate (length ps) False) (length ps))"
    by (rule sorted_wrt_mono_rel [OF _ conjunct2 [OF s]]) (auto simp: ahead_def)
  moreover have "sorted_wrt (\<noteq>) is \<Longrightarrow> distinct is" for "is" :: "nat list" by (induction "is") auto
  ultimately have "distinct (probe_order ps (replicate (length ps) False) (length ps))" by blast
  then show ?thesis using s [unfolded ahead_def [abs_def]] by (simp add: Let_def)
qed

end
