(* ===== verification/Sx_Bytes.thy ===== *)
theory Sx_Bytes
  imports Sx_Prelude "HOL-Library.Code_Target_Nat"
begin

text \<open>
  Bytes on disk: the little-endian loads of \<^verbatim>\<open>kernel/partition.cpp\<close> and the CRC-32 of
  \<^verbatim>\<open>include/shared/crc32.h\<close>, which the partition reader and the disk tools share. A buffer is a
  list of bytes; a byte past its end reads as zero, as in the zero-initialised sector buffers
  the code reads into.
\<close>

unbundle bit_operations_syntax

section \<open>Little-endian fields\<close>

definition byte_at :: "u8 list \<Rightarrow> nat \<Rightarrow> u8" where
  "byte_at bs k = (if k < length bs then bs ! k else 0)"

definition load_le16 :: "u8 list \<Rightarrow> nat \<Rightarrow> u16" where
  "load_le16 bs k = ucast (byte_at bs k) OR push_bit 8 (ucast (byte_at bs (k + 1)))"

definition load_le32 :: "u8 list \<Rightarrow> nat \<Rightarrow> u32" where
  "load_le32 bs k = ucast (byte_at bs k) OR push_bit 8 (ucast (byte_at bs (k + 1))) OR
     push_bit 16 (ucast (byte_at bs (k + 2))) OR push_bit 24 (ucast (byte_at bs (k + 3)))"

definition load_le64 :: "u8 list \<Rightarrow> nat \<Rightarrow> u64" where
  "load_le64 bs k = ucast (load_le32 bs k) OR push_bit 32 (ucast (load_le32 bs (k + 4)))"

section \<open>CRC-32\<close>

definition crc_bit :: "u32 \<Rightarrow> u32" where
  "crc_bit crc = drop_bit 1 crc XOR (0xEDB88320 AND (0 - (crc AND 1)))"

definition crc_byte :: "u32 \<Rightarrow> u8 \<Rightarrow> u32" where
  "crc_byte crc b = (crc_bit ^^ 8) (crc XOR ucast b)"

definition sx_crc32_update :: "u32 \<Rightarrow> u8 list \<Rightarrow> u32" where
  "sx_crc32_update crc bytes = NOT (foldl crc_byte (NOT crc) bytes)"

definition sx_crc32 :: "u8 list \<Rightarrow> u32" where
  "sx_crc32 bytes = sx_crc32_update 0 bytes"

text \<open>The shift by one bit of the reflected polynomial, read bit by bit: the top bit of the
  result is the bit that was shifted out, so nothing is lost.\<close>

lemma crc_mask: "(0 - (crc AND 1) :: u32) = (if bit crc 0 then NOT 0 else 0)"
proof -
  have "crc AND 1 = (if bit crc 0 then 1 else 0)"
    by (simp add: and_one_eq mod2_eq_if bit_0)
  then show ?thesis by simp
qed

lemma crc_bit_eq: "crc_bit crc = drop_bit 1 crc XOR (if bit crc 0 then 0xEDB88320 else 0)"
  unfolding crc_bit_def crc_mask by simp

lemma crc_bit_top: "bit (crc_bit crc) 31 \<longleftrightarrow> bit crc 0"
proof -
  have "bit (0xEDB88320 :: u32) 31" by simp
  moreover have "\<not> bit (drop_bit 1 crc) 31" by (simp add: bit_drop_bit_eq impossible_bit)
  ultimately show ?thesis unfolding crc_bit_eq by (auto simp: bit_xor_iff)
qed

lemma xor_cancel: "c XOR u = c XOR v \<longleftrightarrow> u = v" "u XOR c = v XOR c \<longleftrightarrow> u = v" for c u v :: "'a::len word"
  by (metis xor.left_neutral xor.left_commute xor_self_eq xor.commute)+

lemma inj_crc_bit: "inj crc_bit"
proof
  fix a b :: u32
  assume e: "crc_bit a = crc_bit b"
  then have low: "bit a 0 = bit b 0" using crc_bit_top by metis
  then have "drop_bit 1 a = drop_bit 1 b"
    using e unfolding crc_bit_eq by (simp add: xor_cancel split: if_splits)
  then have "bit a (Suc n) = bit b (Suc n)" for n
    using bit_drop_bit_eq [of 1 a] bit_drop_bit_eq [of 1 b] by (metis comp_apply plus_1_eq_Suc)
  then show "a = b" using low by (metis bit_eqI not0_implies_Suc)
qed

lemma crc_byte_inj:
  shows "crc_byte a x = crc_byte b x \<longleftrightarrow> a = b" and "crc_byte a x = crc_byte a y \<longleftrightarrow> x = y"
proof -
  have i: "inj (crc_bit ^^ 8)" by (rule inj_fn [OF inj_crc_bit])
  show "crc_byte a x = crc_byte b x \<longleftrightarrow> a = b"
    using inj_eq [OF i] by (simp add: crc_byte_def xor_cancel)
  have "unat (ucast z :: u32) = unat z" for z :: u8
    using unsigned_less [of z, where 'a = nat] by (simp add: unsigned_ucast_eq take_bit_nat_eq_self)
  then have "ucast x = (ucast y :: u32) \<longleftrightarrow> x = y" by (metis word_unat_eq_iff)
  then show "crc_byte a x = crc_byte a y \<longleftrightarrow> x = y"
    using inj_eq [OF i] by (simp add: crc_byte_def xor_cancel)
qed

lemma foldl_crc_inj: "foldl crc_byte a bs = foldl crc_byte b bs \<longleftrightarrow> a = b"
  by (induction bs arbitrary: a b) (simp_all add: crc_byte_inj)

lemma crc_byte_unroll:
  "crc_byte crc b = crc_bit (crc_bit (crc_bit (crc_bit (crc_bit (crc_bit (crc_bit (crc_bit (crc XOR ucast b))))))))"
  by (simp add: crc_byte_def eval_nat_numeral)

lemma crc32_one_byte: "sx_crc32 (a @ x # b) = sx_crc32 (a @ y # b) \<longleftrightarrow> x = y"
  by (simp add: sx_crc32_def sx_crc32_update_def foldl_crc_inj crc_byte_inj)

text \<open>C31. No damage to a single byte goes unnoticed: two buffers that differ in exactly one byte have
  different CRCs.\<close>

theorem crc32_detects_byte:
  assumes "x \<noteq> y"
  shows "sx_crc32 (a @ x # b) \<noteq> sx_crc32 (a @ y # b)"
  using assms by (simp add: crc32_one_byte)

theorem crc32_detects_byte_witness:
  "sx_crc32 [0x31, 0x32, 0x33] \<noteq> sx_crc32 [0x31, 0x30, 0x33] \<and>
   sx_crc32 [0x31, 0x32, 0x33, 0x34, 0x35, 0x36, 0x37, 0x38, 0x39] = 0xCBF43926"
proof
  show "sx_crc32 [0x31, 0x32, 0x33] \<noteq> sx_crc32 [0x31, 0x30, 0x33]"
    using crc32_detects_byte [of "0x32" "0x30" "[0x31]" "[0x33]"] by simp
  show "sx_crc32 [0x31, 0x32, 0x33, 0x34, 0x35, 0x36, 0x37, 0x38, 0x39] = 0xCBF43926"
    by (simp add: sx_crc32_def sx_crc32_update_def crc_byte_unroll crc_bit_eq)
qed

section \<open>Stores\<close>

definition poke :: "u8 list \<Rightarrow> nat \<Rightarrow> u8 list \<Rightarrow> u8 list" where
  "poke bs k vs = take k bs @ vs @ drop (k + length vs) bs"

definition put16 :: "u16 \<Rightarrow> u8 list" where
  "put16 v = [ucast v, ucast (drop_bit 8 v)]"

definition put32 :: "u32 \<Rightarrow> u8 list" where
  "put32 v = [ucast v, ucast (drop_bit 8 v), ucast (drop_bit 16 v), ucast (drop_bit 24 v)]"

definition put64 :: "u64 \<Rightarrow> u8 list" where
  "put64 v = put32 (ucast v) @ put32 (ucast (drop_bit 32 v))"

lemma length_put [simp]: "length (put16 a) = 2" "length (put32 b) = 4" "length (put64 c) = 8"
  by (simp_all add: put16_def put32_def put64_def)

lemma length_poke [simp]: "k + length vs \<le> length bs \<Longrightarrow> length (poke bs k vs) = length bs"
  by (simp add: poke_def)

lemma byte_at_poke:
  "k + length vs \<le> length bs \<Longrightarrow> byte_at (poke bs k vs) i = (if k \<le> i \<and> i < k + length vs then vs ! (i - k) else byte_at bs i)"
  by (auto simp: byte_at_def poke_def nth_append min_def)

lemma load_le16_put: "byte_at bs k = put16 v ! 0 \<Longrightarrow> byte_at bs (k + 1) = put16 v ! 1 \<Longrightarrow> load_le16 bs k = v"
  unfolding load_le16_def put16_def
  by (rule bit_word_eqI) (auto simp: bit_simps)

lemma load_le32_put:
  assumes "byte_at bs k = put32 v ! 0" and "byte_at bs (k + 1) = put32 v ! 1" and "byte_at bs (k + 2) = put32 v ! 2"
    and "byte_at bs (k + 3) = put32 v ! 3"
  shows "load_le32 bs k = v"
proof (rule bit_word_eqI)
  fix n assume "n < LENGTH(32)"
  then consider "n < 8" | "8 \<le> n" "n < 16" | "16 \<le> n" "n < 24" | "24 \<le> n" "n < 32" by fastforce
  then show "bit (load_le32 bs k) n = bit v n"
    by cases (use assms in \<open>auto simp: load_le32_def put32_def bit_simps\<close>)
qed

lemma load_le64_halves: "load_le32 bs k = ucast v \<Longrightarrow> load_le32 bs (k + 4) = ucast (drop_bit 32 v) \<Longrightarrow> load_le64 bs k = v"
  by (rule bit_word_eqI) (auto simp: load_le64_def bit_simps)

text \<open>A field that was stored reads back, wherever it is.\<close>

definition holds :: "u8 list \<Rightarrow> nat \<Rightarrow> u8 list \<Rightarrow> bool" where
  "holds bs k vs \<longleftrightarrow> (\<forall>j<length vs. byte_at bs (k + j) = vs ! j)"

lemma all_less_add: "(\<forall>j<m + n. P j) \<longleftrightarrow> (\<forall>j<m. P j) \<and> (\<forall>j<(n::nat). P (m + j))"
proof
  assume "(\<forall>j<m. P j) \<and> (\<forall>j<n. P (m + j))"
  then have "P j" if "j < m + n" for j using that by (cases "j < m") (auto dest: spec [of _ "j - m"])
  then show "\<forall>j<m + n. P j" by blast
qed auto

lemma holds_append: "holds bs k (u @ v) \<longleftrightarrow> holds bs k u \<and> holds bs (k + length u) v"
  unfolding holds_def length_append all_less_add by (simp add: nth_append add.assoc)

lemma holds_poke_same: "k + length vs \<le> length bs \<Longrightarrow> holds (poke bs k vs) k vs"
  by (simp add: holds_def byte_at_poke)

lemma holds_poke_other:
  assumes "k + length vs \<le> length bs" and "i + length us \<le> k \<or> k + length vs \<le> i"
  shows "holds (poke bs k vs) i us = holds bs i us"
proof -
  have "byte_at (poke bs k vs) (i + j) = byte_at bs (i + j)" if "j < length us" for j
  proof -
    have "\<not> (k \<le> i + j \<and> i + j < k + length vs)" using assms(2) that by linarith
    then show ?thesis using byte_at_poke [OF assms(1), of "i + j"] by auto
  qed
  then show ?thesis by (simp add: holds_def)
qed

lemma load_holds:
  shows "holds bs k (put16 u) \<Longrightarrow> load_le16 bs k = u" and "holds bs k (put32 v) \<Longrightarrow> load_le32 bs k = v"
    and "holds bs k (put64 w) \<Longrightarrow> load_le64 bs k = w"
proof -
  have h32: "load_le32 bs k = v" if "holds bs k (put32 v)" for k v
  proof (rule load_le32_put)
    have j: "byte_at bs (k + j) = put32 v ! j" if "j < 4" for j using \<open>holds bs k (put32 v)\<close> that by (simp add: holds_def)
    show "byte_at bs k = put32 v ! 0" "byte_at bs (k + 1) = put32 v ! 1" "byte_at bs (k + 2) = put32 v ! 2" "byte_at bs (k + 3) = put32 v ! 3"
      using j [of 0] j [of 1] j [of 2] j [of 3] by simp_all
  qed
  show "load_le16 bs k = u" if "holds bs k (put16 u)"
  proof (rule load_le16_put)
    have j: "byte_at bs (k + j) = put16 u ! j" if "j < 2" for j using \<open>holds bs k (put16 u)\<close> that by (simp add: holds_def)
    show "byte_at bs k = put16 u ! 0" "byte_at bs (k + 1) = put16 u ! 1" using j [of 0] j [of 1] by simp_all
  qed
  show "holds bs k (put32 v) \<Longrightarrow> load_le32 bs k = v" by (rule h32)
  show "load_le64 bs k = w" if "holds bs k (put64 w)"
    using that h32 by (intro load_le64_halves) (simp_all add: put64_def holds_append)
qed

end
