(* ===== verification/Partition_Table.thy ===== *)
theory Partition_Table
  imports Block_Layer Sx_Bytes
begin

text \<open>
  \<^verbatim>\<open>kernel/partition.cpp\<close>: the reader of partition tables. It looks at every disk the block layer
  has, checks a GUID partition table (primary, then backup) or reads the four entries of an MBR,
  clips each partition to the disk and registers it as one more block device. The state is the
  table of slices, the record per disk and the block layer itself; \<^verbatim>\<open>g_names\<close> is the name each
  device carries.
\<close>

unbundle bit_operations_syntax

section \<open>Data\<close>

datatype scheme = Scheme_none | Scheme_mbr | Scheme_gpt | Scheme_damaged

record partition_info =
  pt_parent :: nat
  pt_start :: nat
  pt_count :: nat
  pt_scheme :: scheme
  pt_number :: nat
  pt_mbr_type :: u8
  pt_esp :: bool
  pt_type_guid :: "u8 list"
  pt_unique_guid :: "u8 list"
  pt_name :: string

record slice =
  sl_present :: bool
  sl_device :: nat
  sl_parent :: nat
  sl_info :: partition_info

record disk_info =
  di_scheme :: scheme
  di_from_backup :: bool
  di_guid :: "u8 list"

definition kMaxSlices :: nat where "kMaxSlices = 16"
definition kMaxDisks :: nat where "kMaxDisks = 32"
definition kMbrTableOffset :: nat where "kMbrTableOffset = 446"
definition kMbrEntrySize :: nat where "kMbrEntrySize = 16"
definition kMbrEntryCount :: nat where "kMbrEntryCount = 4"
definition kGptMinHeaderSize :: nat where "kGptMinHeaderSize = 92"
definition kGptMaxEntries :: nat where "kGptMaxEntries = 128"
definition kGptMaxArrayBytes :: nat where "kGptMaxArrayBytes = 32 * 1024"
definition kNameCapacity :: nat where "kNameCapacity = 37"

definition kEspTypeGuid :: "u8 list" where
  "kEspTypeGuid = [0x28, 0x73, 0x2a, 0xc1, 0x1f, 0xf8, 0xd2, 0x11, 0xba, 0x4b, 0x00, 0xa0, 0xc9, 0x3e, 0xc9, 0x3b]"

definition zero_guid :: "u8 list" where "zero_guid = replicate 16 0"

definition zero_info :: partition_info where
  "zero_info = \<lparr>pt_parent = 0, pt_start = 0, pt_count = 0, pt_scheme = Scheme_none, pt_number = 0, pt_mbr_type = 0,
     pt_esp = False, pt_type_guid = zero_guid, pt_unique_guid = zero_guid, pt_name = []\<rparr>"

definition zero_slice :: slice where
  "zero_slice = \<lparr>sl_present = False, sl_device = 0, sl_parent = 0, sl_info = zero_info\<rparr>"

definition zero_disk :: disk_info where
  "zero_disk = \<lparr>di_scheme = Scheme_none, di_from_backup = False, di_guid = zero_guid\<rparr>"

record 'd part_state =
  ps_slices :: "slice list"
  ps_disks :: "disk_info list"
  ps_block :: "'d block_state"

section \<open>Names\<close>

definition digit :: "nat \<Rightarrow> char" where "digit n = char_of (48 + n mod 10)"

definition build_name :: "nat \<Rightarrow> string \<Rightarrow> nat \<Rightarrow> string" where
  "build_name capacity parent ordinal =
     take (capacity - 5) parent @ ''p'' @
     (if 100 \<le> ordinal then [digit (ordinal div 100)] else []) @
     (if 10 \<le> ordinal then [digit (ordinal div 10)] else []) @ [digit ordinal]"

fun gpt_name_chars :: "u8 list \<Rightarrow> nat \<Rightarrow> nat \<Rightarrow> string" where
  "gpt_name_chars source index 0 = []"
| "gpt_name_chars source index (Suc left) =
     (let unit = load_le16 source (index * 2) in
      if unit = 0 then []
      else (if 0x20 \<le> unit \<and> unit < 0x7f then char_of (unat unit) else CHR ''?'') #
           gpt_name_chars source (Suc index) left)"

definition copy_gpt_name :: "u8 list \<Rightarrow> string" where
  "copy_gpt_name source = gpt_name_chars source 0 (kNameCapacity - 1)"

section \<open>Registering a slice\<close>

definition slice_ops :: "nat \<Rightarrow> nat \<Rightarrow> device_ops" where
  "slice_ops parent start = \<lparr>ops_target = Slice_of parent start, ops_can_read = True, ops_can_write = True,
     ops_can_flush = True, ops_deferred = False\<rparr>"

definition add_slice :: "nat \<Rightarrow> string \<Rightarrow> bool \<Rightarrow> nat \<Rightarrow> partition_info \<Rightarrow> 'd part_state \<Rightarrow> bool \<times> 'd part_state" where
  "add_slice parent parent_name parent_writable parent_sectors info ps =
     (if pt_count info = 0 \<or> parent_sectors \<le> pt_start info then (False, ps)
      else case find_slot (\<lambda>s. \<not> sl_present s) (ps_slices ps) of
        None \<Rightarrow> (False, ps)
      | Some slot \<Rightarrow>
          let available = parent_sectors - pt_start info;
              count = (if available < pt_count info then available else pt_count info);
              info1 = info\<lparr>pt_parent := parent, pt_count := count\<rparr>;
              (device, b) = register_device (slice_ops parent (pt_start info1)) (pt_count info1) parent_writable
                (build_name 24 parent_name (pt_number info)) (ps_block ps)
          in case device of
               None \<Rightarrow> (False, ps\<lparr>ps_slices := (ps_slices ps)[slot := zero_slice], ps_block := b\<rparr>)
             | Some d \<Rightarrow> (True, ps\<lparr>ps_slices := (ps_slices ps)[slot := \<lparr>sl_present = True, sl_device = d,
                   sl_parent = parent, sl_info = info1\<rparr>], ps_block := b\<rparr>))"

section \<open>GUID partition tables\<close>

record gpt_header =
  gh_alternate :: u64
  gh_entry_lba :: u64
  gh_entry_count :: u32
  gh_entry_size :: u32
  gh_disk_guid :: "u8 list"

definition efi_part :: "u8 list" where
  "efi_part = [0x45, 0x46, 0x49, 0x20, 0x50, 0x41, 0x52, 0x54]"

definition field :: "u8 list \<Rightarrow> nat \<Rightarrow> nat \<Rightarrow> u8 list" where
  "field bs k n = map (byte_at bs) [k..<k + n]"

text \<open>A valid header and the bytes of its entry array.\<close>

definition load_gpt :: "'d disk_driver \<Rightarrow> nat \<Rightarrow> nat \<Rightarrow> nat \<Rightarrow> 'd block_state \<Rightarrow> (gpt_header \<times> u8 list) option" where
  "load_gpt D parent parent_sectors lba b =
     (if parent_sectors \<le> lba then None
      else case block_read D parent lba 1 b of
        None \<Rightarrow> None
      | Some sectors \<Rightarrow>
          let sector = concat sectors;
              header_size = unat (load_le32 sector 12);
              stored_crc = load_le32 sector 16;
              cleared = field sector 0 16 @ replicate 4 0 @ field sector 20 (kSectorSize - 20)
          in if field sector 0 8 \<noteq> efi_part then None
             else if header_size < kGptMinHeaderSize \<or> kSectorSize < header_size then None
             else if sx_crc32 (take header_size cleared) \<noteq> stored_crc then None
             else if load_le64 cleared 24 \<noteq> of_nat lba then None
             else
               let h = \<lparr>gh_alternate = load_le64 cleared 32, gh_entry_lba = load_le64 cleared 72,
                     gh_entry_count = load_le32 cleared 80, gh_entry_size = load_le32 cleared 84,
                     gh_disk_guid = field cleared 56 16\<rparr>;
                   entries_crc = load_le32 cleared 88;
                   esize = unat (gh_entry_size h);
                   array_bytes = unat (gh_entry_count h) * esize;
                   array_sectors = (array_bytes + kSectorSize - 1) div kSectorSize;
                   entry_lba = unat (gh_entry_lba h)
               in if esize < 128 \<or> kSectorSize < esize \<or> kSectorSize mod esize \<noteq> 0 \<or> gh_entry_count h = 0 then None
                  else if kGptMaxArrayBytes < array_bytes then None
                  else if entry_lba = 0 \<or> parent_sectors \<le> entry_lba \<or> parent_sectors - entry_lba < array_sectors then None
                  else case block_read D parent entry_lba array_sectors b of
                    None \<Rightarrow> None
                  | Some sectors \<Rightarrow>
                      let entries = concat sectors
                      in if sx_crc32 (field entries 0 array_bytes) = entries_crc then Some (h, entries) else None)"

definition gpt_entry_info :: "nat \<Rightarrow> u8 list \<Rightarrow> partition_info option" where
  "gpt_entry_info index entry =
     (let first = load_le64 entry 32; last = load_le64 entry 40 in
      if field entry 0 16 = zero_guid then None
      else if last < first \<or> 0xffffffff < first \<or> 0xffffffff < last then None
      else Some (zero_info\<lparr>pt_start := unat (ucast first :: u32), pt_count := unat (ucast (last - first + 1) :: u32),
        pt_scheme := Scheme_gpt, pt_number := index + 1, pt_esp := (field entry 0 16 = kEspTypeGuid),
        pt_type_guid := field entry 0 16, pt_unique_guid := field entry 16 16,
        pt_name := copy_gpt_name (drop 56 entry)\<rparr>))"

fun add_gpt_entries :: "nat \<Rightarrow> string \<Rightarrow> bool \<Rightarrow> nat \<Rightarrow> u8 list \<Rightarrow> nat \<Rightarrow> nat list \<Rightarrow> 'd part_state \<Rightarrow> 'd part_state" where
  "add_gpt_entries parent name writable sectors entries esize [] ps = ps"
| "add_gpt_entries parent name writable sectors entries esize (index # rest) ps =
     add_gpt_entries parent name writable sectors entries esize rest
       (case gpt_entry_info index (drop (index * esize) entries) of
          None \<Rightarrow> ps
        | Some info \<Rightarrow> snd (add_slice parent name writable sectors info ps))"

definition scan_gpt :: "'d disk_driver \<Rightarrow> nat \<Rightarrow> string \<Rightarrow> bool \<Rightarrow> nat \<Rightarrow> 'd part_state \<Rightarrow> scheme \<times> 'd part_state" where
  "scan_gpt D parent name writable sectors ps =
     (case block_read D parent 1 1 (ps_block ps) of
        None \<Rightarrow> (Scheme_none, ps)
      | Some s \<Rightarrow>
          if field (concat s) 0 8 \<noteq> efi_part then (Scheme_none, ps)
          else
            (case (case load_gpt D parent sectors 1 (ps_block ps) of
                     Some h \<Rightarrow> Some (False, h)
                   | None \<Rightarrow> map_option (Pair True) (load_gpt D parent sectors (sectors - 1) (ps_block ps))) of
               None \<Rightarrow> (Scheme_damaged, ps)
             | Some (backup, h, entries) \<Rightarrow>
                 let disk = ps_disks ps ! parent;
                     ps1 = ps\<lparr>ps_disks := (ps_disks ps)[parent := disk\<lparr>di_from_backup := (backup \<or> di_from_backup disk),
                       di_guid := gh_disk_guid h\<rparr>]\<rparr>;
                     total = (if unat (gh_entry_count h) < kGptMaxEntries then unat (gh_entry_count h) else kGptMaxEntries)
                 in (Scheme_gpt, add_gpt_entries parent name writable sectors entries (unat (gh_entry_size h)) [0..<total] ps1)))"

section \<open>Master boot records\<close>

definition is_extended :: "u8 \<Rightarrow> bool" where
  "is_extended type = (type = 0x05 \<or> type = 0x0f \<or> type = 0x85)"

definition mbr_entry_info :: "nat \<Rightarrow> u8 list \<Rightarrow> partition_info option" where
  "mbr_entry_info index boot_sector =
     (let at = kMbrTableOffset + index * kMbrEntrySize; type = byte_at boot_sector (at + 4) in
      if type = 0 \<or> is_extended type then None
      else Some (zero_info\<lparr>pt_start := unat (load_le32 boot_sector (at + 8)), pt_count := unat (load_le32 boot_sector (at + 12)),
        pt_scheme := Scheme_mbr, pt_number := index + 1, pt_mbr_type := type, pt_esp := (type = 0xef)\<rparr>))"

fun scan_mbr :: "nat \<Rightarrow> string \<Rightarrow> bool \<Rightarrow> nat \<Rightarrow> u8 list \<Rightarrow> nat list \<Rightarrow> 'd part_state \<Rightarrow> 'd part_state" where
  "scan_mbr parent name writable sectors boot_sector [] ps = ps"
| "scan_mbr parent name writable sectors boot_sector (index # rest) ps =
     scan_mbr parent name writable sectors boot_sector rest
       (case mbr_entry_info index boot_sector of
          None \<Rightarrow> ps
        | Some info \<Rightarrow> snd (add_slice parent name writable sectors info ps))"

definition has_protective_mbr :: "u8 list \<Rightarrow> bool" where
  "has_protective_mbr boot_sector =
     list_ex (\<lambda>entry. byte_at boot_sector (kMbrTableOffset + entry * kMbrEntrySize + 4) = 0xee) [0..<kMbrEntryCount]"

definition is_boot_sector :: "u8 list \<Rightarrow> bool" where
  "is_boot_sector s =
     (let jump = (byte_at s 0 = 0xeb \<or> byte_at s 0 = 0xe9);
          signature = (byte_at s 510 = 0x55 \<and> byte_at s 511 = 0xaa);
          fat16 = (byte_at s 54 = 0x46 \<and> byte_at s 55 = 0x41 \<and> byte_at s 56 = 0x54);
          fat32 = (byte_at s 82 = 0x46 \<and> byte_at s 83 = 0x41 \<and> byte_at s 84 = 0x54 \<and> byte_at s 85 = 0x33 \<and> byte_at s 86 = 0x32)
      in jump \<and> signature \<and> (fat16 \<or> fat32))"

section \<open>Disks\<close>

definition is_slice :: "nat \<Rightarrow> 'd part_state \<Rightarrow> bool" where
  "is_slice device ps = list_ex (\<lambda>s. sl_present s \<and> sl_device s = device) (ps_slices ps)"

definition device_info :: "nat \<Rightarrow> 'd block_state \<Rightarrow> block_device option" where
  "device_info i b = device_for_index i b"

abbreviation set_scheme :: "nat \<Rightarrow> scheme \<Rightarrow> 'd part_state \<Rightarrow> 'd part_state" where
  "set_scheme i sc ps \<equiv> ps\<lparr>ps_disks := (ps_disks ps)[i := (ps_disks ps ! i)\<lparr>di_scheme := sc\<rparr>]\<rparr>"

definition scan_disk :: "'d disk_driver \<Rightarrow> nat \<Rightarrow> 'd part_state \<Rightarrow> 'd part_state" where
  "scan_disk D i ps0 =
     (let ps = ps0\<lparr>ps_disks := (ps_disks ps0)[i := zero_disk]\<rparr> in
      case device_info i (ps_block ps) of
        None \<Rightarrow> ps
      | Some d \<Rightarrow>
          if bd_sectors d < 2 then ps
          else case block_read D i 0 1 (ps_block ps) of
            None \<Rightarrow> ps
          | Some s \<Rightarrow>
              let boot_sector = concat s in
              if load_le16 boot_sector 510 \<noteq> 0xaa55 \<or> is_boot_sector boot_sector then ps
              else
                let (gpt, ps1) = scan_gpt D i (bd_name d) (bd_writable d) (bd_sectors d) ps in
                if gpt \<noteq> Scheme_none then set_scheme i gpt ps1
                else if has_protective_mbr boot_sector then set_scheme i Scheme_damaged ps1
                else scan_mbr i (bd_name d) (bd_writable d) (bd_sectors d) boot_sector [0..<kMbrEntryCount]
                       (set_scheme i Scheme_mbr ps1))"

definition enumerate_partitions :: "'d disk_driver \<Rightarrow> 'd part_state \<Rightarrow> 'd part_state" where
  "enumerate_partitions D ps =
     foldl (\<lambda>s i. scan_disk D i s)
       (ps\<lparr>ps_slices := replicate kMaxSlices zero_slice, ps_disks := replicate kMaxDisks zero_disk\<rparr>)
       [0..<min (b_device_count (ps_block ps)) kMaxDisks]"

definition partition_info_of :: "nat \<Rightarrow> 'd part_state \<Rightarrow> partition_info option" where
  "partition_info_of device ps =
     map_option (\<lambda>slot. sl_info (ps_slices ps ! slot)) (find_slot (\<lambda>s. sl_present s \<and> sl_device s = device) (ps_slices ps))"

fun drop_slices :: "nat \<Rightarrow> nat list \<Rightarrow> 'd part_state \<Rightarrow> bool \<times> 'd part_state" where
  "drop_slices disk [] ps = (True, ps)"
| "drop_slices disk (slot # rest) ps =
     (let s = ps_slices ps ! slot in
      if \<not> sl_present s \<or> sl_parent s \<noteq> disk then drop_slices disk rest ps
      else case unregister_device (sl_device s) (ps_block ps) of
        (False, b) \<Rightarrow> (False, ps\<lparr>ps_block := b\<rparr>)
      | (True, b) \<Rightarrow> drop_slices disk rest (ps\<lparr>ps_slices := (ps_slices ps)[slot := zero_slice], ps_block := b\<rparr>))"

definition partition_drop :: "nat \<Rightarrow> 'd part_state \<Rightarrow> bool \<times> 'd part_state" where
  "partition_drop disk ps =
     (if kMaxDisks \<le> disk \<or> is_slice disk ps then (False, ps)
      else case drop_slices disk [0..<kMaxSlices] ps of
        (False, ps1) \<Rightarrow> (False, ps1)
      | (True, ps1) \<Rightarrow> (True, ps1\<lparr>ps_disks := (ps_disks ps1)[disk := zero_disk]\<rparr>))"

definition partition_rescan :: "'d disk_driver \<Rightarrow> nat \<Rightarrow> 'd part_state \<Rightarrow> bool \<times> 'd part_state" where
  "partition_rescan D disk ps =
     (if kMaxDisks \<le> disk \<or> is_slice disk ps then (False, ps)
      else if device_info disk (ps_block ps) = None then (False, ps)
      else case partition_drop disk ps of
        (False, ps1) \<Rightarrow> (False, ps1)
      | (True, ps1) \<Rightarrow> (True, scan_disk D disk ps1))"

definition partition_disk_info :: "nat \<Rightarrow> 'd part_state \<Rightarrow> disk_info" where
  "partition_disk_info device ps = (if kMaxDisks \<le> device then zero_disk else ps_disks ps ! device)"

section \<open>Registering and removing slices keeps the block layer's invariant\<close>

definition no_stale :: "'d block_state \<Rightarrow> bool" where
  "no_stale b \<longleftrightarrow> (\<forall>i<length (b_devices b). b_device_count b \<le> i \<longrightarrow> \<not> bd_present (b_devices b ! i))"

text \<open>Two block states with the same disks; slices may differ.\<close>

definition same_disks :: "'d block_state \<Rightarrow> 'd block_state \<Rightarrow> bool" where
  "same_disks b b' \<longleftrightarrow> length (b_devices b') = length (b_devices b) \<and> b_queue b' = b_queue b \<and> b_disks b' = b_disks b \<and>
     b_stats b' = b_stats b \<and> (\<forall>i. is_disk b i \<longrightarrow> b_devices b' ! i = b_devices b ! i) \<and> (\<forall>i. is_disk b' i = is_disk b i)"

lemma same_disks_refl [simp]: "same_disks b b"
  by (simp add: same_disks_def)

lemma same_disks_trans: "same_disks a b \<Longrightarrow> same_disks b c \<Longrightarrow> same_disks a c"
  by (auto simp: same_disks_def)

lemma same_disks_inv:
  assumes inv: "block_inv view b" and sd: "same_disks b b'" and count: "b_device_count b' \<le> length (b_devices b')"
    and slices: "\<And>i. i < b_device_count b' \<Longrightarrow> bd_present (b_devices b' ! i) \<Longrightarrow> slice_ok b' i"
  shows "block_inv view b'"
proof -
  have ctx: "context_of b' i = context_of b i" if "is_disk b i" for i
    using sd that by (simp add: same_disks_def context_of_def)
  have "record_ok b' r = record_ok b r" if "r \<in> set (b_queue b)" for r
    using sd inv that by (auto simp: record_ok_def same_disks_def block_inv_def)
  moreover have "head_written view b'"
    using inv sd ctx by (auto simp: block_inv_def head_written_def same_disks_def record_ok_def split: list.splits)
  ultimately show ?thesis
    using inv sd ctx count slices by (auto simp: block_inv_def same_disks_def)
qed

lemma trim_count_spec:
  "trim_count ds n \<le> n \<and> (\<forall>i<n. bd_present (ds ! i) \<longrightarrow> i < trim_count ds n)"
  by (induction n) (auto simp: less_Suc_eq)

lemma register_slice:
  assumes inv: "block_inv view b" and ns: "no_stale b" and disk: "is_disk b p"
    and fit: "s + n \<le> bd_sectors (b_devices b ! p)"
    and r: "register_device (slice_ops p s) n w name b = (res, b')"
  shows "block_inv view b'" and "no_stale b'" and "same_disks b b'"
    and "res = Some d \<Longrightarrow> d < b_device_count b' \<and> \<not> bd_present (b_devices b ! d) \<and> bd_present (b_devices b' ! d) \<and>
      ops_target (bd_ops (b_devices b' ! d)) = Slice_of p s \<and> bd_sectors (b_devices b' ! d) = n \<and>
      (\<forall>i. i \<noteq> d \<longrightarrow> b_devices b' ! i = b_devices b ! i) \<and> b_device_count b' = max (b_device_count b) (Suc d)"
    and "res = None \<Longrightarrow> b' = b"
proof -
  have live: "i < b_device_count b" if "i < length (b_devices b)" "bd_present (b_devices b ! i)" for i
    using ns that by (meson no_stale_def not_less)
  show none: "b' = b" if "res = None"
    using r that by (auto simp: register_device_def split: if_splits option.splits)
  have some: "d < length (b_devices b) \<and> \<not> bd_present (b_devices b ! d) \<and>
      b_devices b' = (b_devices b)[d := zero_device\<lparr>bd_present := True, bd_id := b_next_id b, bd_ops := slice_ops p s, bd_sectors := n,
        bd_writable := (w \<and> ops_can_write (slice_ops p s)), bd_name := name\<rparr>] \<and>
      b_device_count b' = max (b_device_count b) (Suc d) \<and> b_queue b' = b_queue b \<and> b_disks b' = b_disks b \<and> b_stats b' = b_stats b"
    if "res = Some d" for d
    using r that find_slot_less [of "\<lambda>d. \<not> bd_present d" "b_devices b" d] find_slot_holds [of "\<lambda>d. \<not> bd_present d" "b_devices b" d]
    by (auto simp: register_device_def slice_ops_def max_def split: if_splits option.splits)
  show "d < b_device_count b' \<and> \<not> bd_present (b_devices b ! d) \<and> bd_present (b_devices b' ! d) \<and>
      ops_target (bd_ops (b_devices b' ! d)) = Slice_of p s \<and> bd_sectors (b_devices b' ! d) = n \<and>
      (\<forall>i. i \<noteq> d \<longrightarrow> b_devices b' ! i = b_devices b ! i) \<and> b_device_count b' = max (b_device_count b) (Suc d)" if "res = Some d" for d
    using some [OF that] by (simp add: slice_ops_def)
  show sd: "same_disks b b'"
  proof (cases res)
    case (Some d)
    note d = some [OF Some]
    have nd: "\<not> is_disk b d" using d by (simp add: is_disk_def)
    have "is_disk b' i = is_disk b i" for i
    proof (cases "i = d")
      case True
      then show ?thesis using d nd by (simp add: is_disk_def slice_ops_def)
    next
      case False
      have "i < b_device_count b' \<and> bd_present (b_devices b ! i) \<longleftrightarrow> i < b_device_count b \<and> bd_present (b_devices b ! i)"
        using d live [of i] by (auto simp: max_def split: if_splits)
      then show ?thesis using d False by (auto simp: is_disk_def context_of_def)
    qed
    then show ?thesis using d nd by (auto simp: same_disks_def nth_list_update)
  qed (use none in simp)
  show "no_stale b'"
    using ns none some by (cases res) (auto simp: no_stale_def nth_list_update max_def split: if_splits)
  show "block_inv view b'"
  proof (cases res)
    case (Some d)
    note d = some [OF Some]
    have count: "b_device_count b' \<le> length (b_devices b')" using d inv by (auto simp: block_inv_def)
    have "slice_ok b' i" if "i < b_device_count b'" "bd_present (b_devices b' ! i)" for i
    proof (cases "i = d")
      case True
      have "p \<noteq> d" using disk d by (auto simp: is_disk_def)
      then show ?thesis using True d disk fit sd by (simp add: slice_ok_def slice_ops_def same_disks_def)
    next
      case False
      then have "i < b_device_count b" "bd_present (b_devices b ! i)" using d that live [of i]
        by (auto simp: max_def split: if_splits)
      then have "slice_ok b i" using inv by (simp add: block_inv_def)
      then show ?thesis using False d sd by (auto simp: slice_ok_def same_disks_def split: ops_target.splits)
    qed
    then show ?thesis using same_disks_inv [OF inv sd count] by blast
  qed (use none inv in simp)
qed

lemma unregister_slice:
  assumes inv: "block_inv view b" and ns: "no_stale b" and d: "d < b_device_count b" "bd_present (b_devices b ! d)"
    and sl: "ops_target (bd_ops (b_devices b ! d)) = Slice_of p s" and r: "unregister_device d b = (ok, b')"
  shows "ok" and "block_inv view b'" and "no_stale b'" and "same_disks b b'" and "b_devices b' = (b_devices b)[d := zero_device]"
    and "\<And>i. i < b_device_count b \<Longrightarrow> bd_present (b_devices b ! i) \<Longrightarrow> i \<noteq> d \<Longrightarrow> i < b_device_count b'"
    and "b_device_count b' \<le> b_device_count b"
proof -
  have nq: "\<not> queue_has_device d b"
    using inv sl by (auto simp: queue_has_device_def list_ex_iff block_inv_def record_ok_def is_disk_def)
  let ?ds = "(b_devices b)[d := zero_device]"
  have len: "d < length (b_devices b)" using d inv by (simp add: block_inv_def)
  have ok: "ok" and b': "b' = b\<lparr>b_devices := ?ds, b_device_count := trim_count ?ds (b_device_count b), b_generation := b_generation b + 1\<rparr>"
    using r d nq by (auto simp: unregister_device_def device_for_index_def Let_def)
  note tc = trim_count_spec [of ?ds "b_device_count b"]
  show "ok" by (rule ok)
  show ds: "b_devices b' = ?ds" using b' by simp
  show cnt: "i < b_device_count b'" if "i < b_device_count b" "bd_present (b_devices b ! i)" "i \<noteq> d" for i
    using tc that b' by (simp add: nth_list_update)
  show le: "b_device_count b' \<le> b_device_count b" using tc b' by simp
  have nd: "\<not> is_disk b d" using sl by (simp add: is_disk_def)
  have dk: "is_disk b' i = is_disk b i" for i
  proof (cases "i = d")
    case True
    then show ?thesis using nd ds len by (simp add: is_disk_def zero_device_def)
  next
    case False
    then show ?thesis using ds cnt [of i] le by (auto simp: is_disk_def context_of_def)
  qed
  then show sd: "same_disks b b'" using b' nd by (auto simp: same_disks_def intro!: nth_list_update_neq)
  show "no_stale b'"
  proof -
    have "\<not> bd_present (b_devices b' ! i)" if "i < length (b_devices b')" "b_device_count b' \<le> i" for i
      using that ns cnt [of i] ds len by (cases "i = d") (auto simp: no_stale_def zero_device_def not_less)
    then show ?thesis by (simp add: no_stale_def)
  qed
  have count: "b_device_count b' \<le> length (b_devices b')" using le inv ds by (simp add: block_inv_def)
  have "slice_ok b' i" if "i < b_device_count b'" "bd_present (b_devices b' ! i)" for i
  proof -
    have "i \<noteq> d" using that ds len by (auto simp: zero_device_def)
    then have "slice_ok b i" "b_devices b' ! i = b_devices b ! i" using that ds le inv by (simp_all add: block_inv_def)
    then show ?thesis using sd by (auto simp: slice_ok_def same_disks_def split: ops_target.splits)
  qed
  then show "block_inv view b'" using same_disks_inv [OF inv sd count] by blast
qed

section \<open>The slice table and the block devices agree\<close>

definition slice_live :: "'d block_state \<Rightarrow> slice \<Rightarrow> bool" where
  "slice_live b s \<longleftrightarrow> sl_device s < b_device_count b \<and> bd_present (b_devices b ! sl_device s) \<and>
     ops_target (bd_ops (b_devices b ! sl_device s)) = Slice_of (sl_parent s) (pt_start (sl_info s)) \<and>
     bd_sectors (b_devices b ! sl_device s) = pt_count (sl_info s)"

definition part_inv :: "('d \<Rightarrow> nat \<Rightarrow> nat \<Rightarrow> sector) \<Rightarrow> 'd part_state \<Rightarrow> bool" where
  "part_inv view ps \<longleftrightarrow> block_inv view (ps_block ps) \<and> no_stale (ps_block ps) \<and>
     length (ps_slices ps) = kMaxSlices \<and> length (ps_disks ps) = kMaxDisks \<and>
     (\<forall>k<kMaxSlices. sl_present (ps_slices ps ! k) \<longrightarrow> slice_live (ps_block ps) (ps_slices ps ! k)) \<and>
     (\<forall>k<kMaxSlices. \<forall>l<kMaxSlices. sl_present (ps_slices ps ! k) \<longrightarrow> sl_present (ps_slices ps ! l) \<longrightarrow>
        sl_device (ps_slices ps ! k) = sl_device (ps_slices ps ! l) \<longrightarrow> k = l) \<and>
     (\<forall>i<b_device_count (ps_block ps). bd_present (b_devices (ps_block ps) ! i) \<longrightarrow> \<not> is_disk (ps_block ps) i \<longrightarrow>
        (\<exists>k<kMaxSlices. sl_present (ps_slices ps ! k) \<and> sl_device (ps_slices ps ! k) = i))"

lemma part_inv_disks: "part_inv view ps \<Longrightarrow> length ds = kMaxDisks \<Longrightarrow> part_inv view (ps\<lparr>ps_disks := ds\<rparr>)"
  by (simp add: part_inv_def)

lemma part_inv_length:
  assumes "part_inv view ps"
  shows "length (ps_disks ps) = kMaxDisks" and "length (ps_slices ps) = kMaxSlices"
  using assms unfolding part_inv_def by blast+

lemma part_inv_live: "part_inv view ps \<Longrightarrow> k < kMaxSlices \<Longrightarrow> sl_present (ps_slices ps ! k) \<Longrightarrow> slice_live (ps_block ps) (ps_slices ps ! k)"
  unfolding part_inv_def by blast

lemma is_slice_iff: "length (ps_slices ps) = kMaxSlices \<Longrightarrow>
    is_slice i ps \<longleftrightarrow> (\<exists>k<kMaxSlices. sl_present (ps_slices ps ! k) \<and> sl_device (ps_slices ps ! k) = i)"
  by (fastforce simp: is_slice_def list_ex_iff in_set_conv_nth)

lemma disk_not_slice:
  assumes "part_inv view ps" and "is_disk (ps_block ps) i"
  shows "\<not> is_slice i ps"
proof
  assume "is_slice i ps"
  then obtain k where k: "k < kMaxSlices" "sl_present (ps_slices ps ! k)" "sl_device (ps_slices ps ! k) = i"
    using is_slice_iff [OF part_inv_length(2) [OF assms(1)]] by blast
  from part_inv_live [OF assms(1) k(1,2)] k(3) assms(2) show False by (simp add: slice_live_def is_disk_def)
qed

lemma add_slice_inv:
  assumes inv: "part_inv view ps" and disk: "is_disk (ps_block ps) parent"
    and a: "add_slice parent name w (bd_sectors (b_devices (ps_block ps) ! parent)) info ps = (ok, ps')"
  shows "part_inv view ps' \<and> same_disks (ps_block ps) (ps_block ps') \<and> ps_disks ps' = ps_disks ps"
proof -
  let ?b = "ps_block ps" and ?n = "bd_sectors (b_devices (ps_block ps) ! parent)"
  define count where "count = (if ?n - pt_start info < pt_count info then ?n - pt_start info else pt_count info)"
  show ?thesis
  proof (cases "pt_count info = 0 \<or> ?n \<le> pt_start info \<or> find_slot (\<lambda>s. \<not> sl_present s) (ps_slices ps) = None")
    case True
    then have "ps' = ps" using a by (auto simp: add_slice_def split: if_splits)
    then show ?thesis using inv by simp
  next
    case False
    then obtain slot where slot: "find_slot (\<lambda>s. \<not> sl_present s) (ps_slices ps) = Some slot" by blast
    have sl: "slot < kMaxSlices" "\<not> sl_present (ps_slices ps ! slot)" "length (ps_slices ps) = kMaxSlices"
      using find_slot_less [OF slot] find_slot_holds [OF slot] inv by (simp_all add: part_inv_def)
    obtain res b' where r: "register_device (slice_ops parent (pt_start info)) count w (build_name 24 name (pt_number info)) ?b = (res, b')"
      by fastforce
    have fit: "pt_start info + count \<le> ?n" using False by (auto simp: count_def)
    note reg = register_slice [OF _ _ disk fit r, of view]
    have bi: "block_inv view ?b" and ns: "no_stale ?b" using inv by (simp_all add: part_inv_def)
    show ?thesis
    proof (cases res)
      case None
      then have "b' = ?b" using reg(5) [OF bi ns] by simp
      then have ps': "ps' = ps\<lparr>ps_slices := (ps_slices ps)[slot := zero_slice]\<rparr>"
        using a False slot r None by (auto simp: add_slice_def Let_def count_def [symmetric])
      have "part_inv view ps'" using inv sl ps' unfolding part_inv_def
        by (auto simp: nth_list_update zero_slice_def)
      then show ?thesis using ps' by simp
    next
      case (Some d)
      note rd = reg(4) [OF bi ns Some] and r3 = reg(1-3) [OF bi ns]
      let ?s = "\<lparr>sl_present = True, sl_device = d, sl_parent = parent, sl_info = info\<lparr>pt_parent := parent, pt_count := count\<rparr>\<rparr>"
      have ps': "ps' = ps\<lparr>ps_slices := (ps_slices ps)[slot := ?s], ps_block := b'\<rparr>"
        using a False slot r Some by (auto simp: add_slice_def Let_def count_def [symmetric])
      have old: "slice_live b' s" "sl_device s \<noteq> d" if "slice_live ?b s" for s
        using that rd by (auto simp: slice_live_def)
      have live: "slice_live b' ?s" using rd by (simp add: slice_live_def)
      have "part_inv view ps'" unfolding part_inv_def
      proof (intro conjI allI impI)
        show "block_inv view (ps_block ps')" "no_stale (ps_block ps')" using r3 ps' by simp_all
        show "length (ps_slices ps') = kMaxSlices" "length (ps_disks ps') = kMaxDisks" using ps' inv by (simp_all add: part_inv_def)
        fix k assume k: "k < kMaxSlices"
        show "slice_live (ps_block ps') (ps_slices ps' ! k)" if "sl_present (ps_slices ps' ! k)"
          using k that ps' sl live old(1) inv by (cases "k = slot") (auto simp: part_inv_def)
        fix l assume l: "l < kMaxSlices"
        assume p: "sl_present (ps_slices ps' ! k)" "sl_present (ps_slices ps' ! l)"
          "sl_device (ps_slices ps' ! k) = sl_device (ps_slices ps' ! l)"
        show "k = l"
        proof (cases "k = slot \<or> l = slot")
          case True
          then show ?thesis using k l p ps' sl old(2) inv by (auto simp: part_inv_def nth_list_update split: if_splits)
        next
          case False
          then show ?thesis using k l p ps' inv by (auto simp: part_inv_def)
        qed
      next
        fix i assume i: "i < b_device_count (ps_block ps')" "bd_present (b_devices (ps_block ps') ! i)" "\<not> is_disk (ps_block ps') i"
        show "\<exists>k<kMaxSlices. sl_present (ps_slices ps' ! k) \<and> sl_device (ps_slices ps' ! k) = i"
        proof (cases "i = d")
          case True
          then show ?thesis using ps' sl by (intro exI [of _ slot]) simp
        next
          case False
          have "bd_present (b_devices ?b ! i)" using i False rd ps' by simp
          moreover have "i < length (b_devices ?b)" using i r3(1,3) ps' by (auto simp: block_inv_def same_disks_def)
          ultimately have "i < b_device_count ?b" using ns by (meson no_stale_def not_less)
          moreover have "\<not> is_disk ?b i" using i r3(3) ps' by (simp add: same_disks_def)
          ultimately obtain k where "k < kMaxSlices" "sl_present (ps_slices ps ! k)" "sl_device (ps_slices ps ! k) = i"
            using inv \<open>bd_present (b_devices ?b ! i)\<close> unfolding part_inv_def by blast
          moreover then have "k \<noteq> slot" using sl by auto
          ultimately show ?thesis using ps' by (intro exI [of _ k]) simp
        qed
      qed
      then show ?thesis using ps' r3(3) by simp
    qed
  qed
qed

text \<open>The scans add slices one by one.\<close>

definition scanned :: "('d \<Rightarrow> nat \<Rightarrow> nat \<Rightarrow> sector) \<Rightarrow> 'd part_state \<Rightarrow> 'd part_state \<Rightarrow> bool" where
  "scanned view ps ps' \<longleftrightarrow> part_inv view ps' \<and> same_disks (ps_block ps) (ps_block ps')"

lemma scanned_trans: "scanned view a b \<Longrightarrow> scanned view b c \<Longrightarrow> scanned view a c"
  using same_disks_trans by (auto simp: scanned_def)

lemma same_disks_sectors: "same_disks b b' \<Longrightarrow> is_disk b i \<Longrightarrow> is_disk b' i \<and> b_devices b' ! i = b_devices b ! i"
  by (simp add: same_disks_def)

lemma add_slice_scanned:
  assumes "part_inv view ps" and "is_disk (ps_block ps) p" and "n = bd_sectors (b_devices (ps_block ps) ! p)"
  shows "scanned view ps (snd (add_slice p name w n info ps))"
  using add_slice_inv [of view ps p name w info] assms by (cases "add_slice p name w n info ps") (simp add: scanned_def)

lemma add_gpt_entries_scanned:
  "part_inv view ps \<Longrightarrow> is_disk (ps_block ps) p \<Longrightarrow> n = bd_sectors (b_devices (ps_block ps) ! p) \<Longrightarrow>
    scanned view ps (add_gpt_entries p name w n entries esize ks ps)"
proof (induction ks arbitrary: ps)
  case (Cons k ks)
  let ?ps1 = "case gpt_entry_info k (drop (k * esize) entries) of None \<Rightarrow> ps | Some info \<Rightarrow> snd (add_slice p name w n info ps)"
  have s1: "scanned view ps ?ps1"
    using add_slice_scanned [OF Cons.prems] Cons.prems(1) by (auto simp: scanned_def split: option.split)
  have "scanned view ?ps1 (add_gpt_entries p name w n entries esize ks ?ps1)"
    using s1 same_disks_sectors [of "ps_block ps" "ps_block ?ps1" p] Cons.prems by (intro Cons.IH) (auto simp: scanned_def)
  then show ?case using scanned_trans [OF s1] by simp
qed (simp add: scanned_def)

lemma scan_mbr_scanned:
  "part_inv view ps \<Longrightarrow> is_disk (ps_block ps) p \<Longrightarrow> n = bd_sectors (b_devices (ps_block ps) ! p) \<Longrightarrow>
    scanned view ps (scan_mbr p name w n boot ks ps)"
proof (induction ks arbitrary: ps)
  case (Cons k ks)
  let ?ps1 = "case mbr_entry_info k boot of None \<Rightarrow> ps | Some info \<Rightarrow> snd (add_slice p name w n info ps)"
  have s1: "scanned view ps ?ps1"
    using add_slice_scanned [OF Cons.prems] Cons.prems(1) by (auto simp: scanned_def split: option.split)
  have "scanned view ?ps1 (scan_mbr p name w n boot ks ?ps1)"
    using s1 same_disks_sectors [of "ps_block ps" "ps_block ?ps1" p] Cons.prems by (intro Cons.IH) (auto simp: scanned_def)
  then show ?case using scanned_trans [OF s1] by simp
qed (simp add: scanned_def)

lemma scanned_disks: "scanned view ps ps' \<Longrightarrow> scanned view ps (ps'\<lparr>ps_disks := (ps_disks ps')[i := d]\<rparr>)"
  by (auto simp: scanned_def part_inv_def)

lemma scan_gpt_scanned:
  assumes "part_inv view ps" and "is_disk (ps_block ps) p" and "n = bd_sectors (b_devices (ps_block ps) ! p)"
    and "scan_gpt D p name w n ps = (sc, ps')"
  shows "scanned view ps ps'"
proof -
  have "scanned view ps (add_gpt_entries p name w n entries esize ks (ps\<lparr>ps_disks := (ps_disks ps)[p := d]\<rparr>))" for d entries esize ks
    using add_gpt_entries_scanned [of view "ps\<lparr>ps_disks := (ps_disks ps)[p := d]\<rparr>" p n name w entries esize ks] assms(1-3)
      part_inv_disks [OF assms(1), of "(ps_disks ps)[p := d]"]
    by (simp add: scanned_def part_inv_length)
  moreover have "scanned view ps ps" using assms(1) by (simp add: scanned_def)
  ultimately show ?thesis using assms(4) by (auto simp: scan_gpt_def Let_def split: option.splits if_splits)
qed

lemma not_slice_disk:
  assumes "part_inv view ps" and "\<not> is_slice i ps" and "device_for_index i (ps_block ps) = Some d"
  shows "is_disk (ps_block ps) i" and "d = b_devices (ps_block ps) ! i"
proof -
  show "d = b_devices (ps_block ps) ! i" using assms(3) by (auto simp: device_for_index_def split: if_splits)
  have "i < b_device_count (ps_block ps)" "bd_present (b_devices (ps_block ps) ! i)"
    using assms(3) by (auto simp: device_for_index_def split: if_splits)
  then show "is_disk (ps_block ps) i"
    using assms(1,2) is_slice_iff [of ps i] unfolding part_inv_def by blast
qed

lemma scan_disk_scanned:
  assumes inv: "part_inv view ps" and ns: "\<not> is_slice i ps"
  shows "scanned view ps (scan_disk D i ps)"
proof -
  define ps0 where "ps0 = ps\<lparr>ps_disks := (ps_disks ps)[i := zero_disk]\<rparr>"
  have s0: "scanned view ps ps0" using inv by (simp add: scanned_def ps0_def part_inv_def)
  have inv0: "part_inv view ps0" using s0 by (simp add: scanned_def)
  show ?thesis
  proof (cases "device_for_index i (ps_block ps0)")
    case None
    then show ?thesis using s0 by (simp add: scan_disk_def Let_def device_info_def ps0_def [symmetric])
  next
    case (Some d)
    have disk: "is_disk (ps_block ps0) i" "d = b_devices (ps_block ps0) ! i"
      using not_slice_disk [OF inv0 _ Some] ns by (auto simp: ps0_def is_slice_def)
    obtain sc ps1 where g: "scan_gpt D i (bd_name d) (bd_writable d) (bd_sectors d) ps0 = (sc, ps1)" by fastforce
    have s1: "scanned view ps0 ps1" using scan_gpt_scanned [OF inv0 disk(1) _ g] disk(2) by simp
    have s1': "scanned view ps ps1" using scanned_trans [OF s0 s1] .
    have "scanned view ps1 (scan_mbr i (bd_name d) (bd_writable d) (bd_sectors d) boot [0..<kMbrEntryCount] (set_scheme i Scheme_mbr ps1))" for boot
    proof -
      let ?ps2 = "set_scheme i Scheme_mbr ps1"
      have "scanned view ps1 ?ps2" using s1 by (auto simp: scanned_def part_inv_def)
      moreover have "scanned view ?ps2 (scan_mbr i (bd_name d) (bd_writable d) (bd_sectors d) boot [0..<kMbrEntryCount] ?ps2)"
        using s1 same_disks_sectors [of "ps_block ps0" "ps_block ps1" i] disk
        by (intro scan_mbr_scanned) (auto simp: scanned_def part_inv_def)
      ultimately show ?thesis by (rule scanned_trans)
    qed
    then show ?thesis
      using Some g s0 s1' scanned_trans [OF s1']
      by (auto simp: scan_disk_def Let_def device_info_def ps0_def [symmetric] intro: scanned_disks split: option.split)
  qed
qed

section \<open>Dropping and rescanning\<close>

lemma drop_one:
  assumes inv: "part_inv view ps" and k: "k < kMaxSlices" "sl_present (ps_slices ps ! k)"
    and u: "unregister_device (sl_device (ps_slices ps ! k)) (ps_block ps) = (ok, b)"
  shows "ok" and "scanned view ps (ps\<lparr>ps_slices := (ps_slices ps)[k := zero_slice], ps_block := b\<rparr>)"
proof -
  let ?b = "ps_block ps" and ?s = "ps_slices ps ! k"
  have live: "slice_live ?b ?s" and bi: "block_inv view ?b" and ns: "no_stale ?b" and len: "length (ps_slices ps) = kMaxSlices"
    using inv k by (simp_all add: part_inv_def)
  have d: "sl_device ?s < b_device_count ?b" "bd_present (b_devices ?b ! sl_device ?s)"
    "ops_target (bd_ops (b_devices ?b ! sl_device ?s)) = Slice_of (sl_parent ?s) (pt_start (sl_info ?s))"
    using live by (simp_all add: slice_live_def)
  note un = unregister_slice [OF bi ns d u]
  show "ok" by (rule un(1))
  let ?ps' = "ps\<lparr>ps_slices := (ps_slices ps)[k := zero_slice], ps_block := b\<rparr>"
  have other: "slice_live b s" if "slice_live ?b s" "sl_device s \<noteq> sl_device ?s" for s
    using that un(5) un(6) by (auto simp: slice_live_def)
  have diff: "sl_device (ps_slices ps ! l) \<noteq> sl_device ?s" if "l < kMaxSlices" "sl_present (ps_slices ps ! l)" "l \<noteq> k" for l
    using inv that k unfolding part_inv_def by blast
  have "part_inv view ?ps'" unfolding part_inv_def
  proof (intro conjI allI impI)
    show "block_inv view (ps_block ?ps')" "no_stale (ps_block ?ps')" using un(2,3) by simp_all
    show "length (ps_slices ?ps') = kMaxSlices" "length (ps_disks ?ps') = kMaxDisks" using inv by (simp_all add: part_inv_def)
    fix l assume l: "l < kMaxSlices"
    show "slice_live (ps_block ?ps') (ps_slices ?ps' ! l)" if "sl_present (ps_slices ?ps' ! l)"
      using that l k len other diff inv by (cases "l = k") (auto simp: zero_slice_def part_inv_def)
    fix m assume m: "m < kMaxSlices"
    assume "sl_present (ps_slices ?ps' ! l)" "sl_present (ps_slices ?ps' ! m)"
      "sl_device (ps_slices ?ps' ! l) = sl_device (ps_slices ?ps' ! m)"
    moreover then have "l \<noteq> k" "m \<noteq> k" using k len by (auto simp: zero_slice_def)
    ultimately show "l = m" using l m inv unfolding part_inv_def by auto
  next
    fix i assume i: "i < b_device_count (ps_block ?ps')" "bd_present (b_devices (ps_block ?ps') ! i)" "\<not> is_disk (ps_block ?ps') i"
    have len: "sl_device ?s < length (b_devices ?b)" using d bi by (simp add: block_inv_def)
    have ne: "i \<noteq> sl_device ?s" using i un(5) len by (auto simp: zero_device_def)
    then have "i < b_device_count ?b" "bd_present (b_devices ?b ! i)" "\<not> is_disk ?b i"
      using i un(4,5,7) by (auto simp: same_disks_def)
    then obtain l where "l < kMaxSlices" "sl_present (ps_slices ps ! l)" "sl_device (ps_slices ps ! l) = i"
      using inv unfolding part_inv_def by blast
    moreover then have "l \<noteq> k" using ne by auto
    ultimately show "\<exists>l<kMaxSlices. sl_present (ps_slices ?ps' ! l) \<and> sl_device (ps_slices ?ps' ! l) = i"
      by (intro exI [of _ l]) simp
  qed
  then show "scanned view ps ?ps'" using un(4) by (simp add: scanned_def)
qed

text \<open>Dropping a disk's slices always succeeds and touches no other slice.\<close>

lemma drop_slices_spec:
  "part_inv view ps \<Longrightarrow> \<forall>k\<in>set ks. k < kMaxSlices \<Longrightarrow> drop_slices disk ks ps = (ok, ps') \<Longrightarrow>
    ok \<and> scanned view ps ps' \<and> ps_disks ps' = ps_disks ps \<and>
    (\<forall>k<kMaxSlices. ps_slices ps' ! k =
       (if k \<in> set ks \<and> sl_present (ps_slices ps ! k) \<and> sl_parent (ps_slices ps ! k) = disk then zero_slice else ps_slices ps ! k))"
proof (induction ks arbitrary: ps)
  case Nil
  then show ?case by (simp add: scanned_def)
next
  case (Cons k ks)
  let ?s = "ps_slices ps ! k"
  have k: "k < kMaxSlices" using Cons.prems(2) by simp
  show ?case
  proof (cases "sl_present ?s \<and> sl_parent ?s = disk")
    case False
    then have "drop_slices disk ks ps = (ok, ps')" using Cons.prems(3) by (simp add: Let_def)
    from Cons.IH [OF Cons.prems(1) _ this] Cons.prems(2) False show ?thesis by auto
  next
    case True
    obtain ok1 b where u: "unregister_device (sl_device ?s) (ps_block ps) = (ok1, b)" by fastforce
    note o = drop_one [OF Cons.prems(1) k _ u]
    define ps1 where "ps1 = ps\<lparr>ps_slices := (ps_slices ps)[k := zero_slice], ps_block := b\<rparr>"
    have ok1: "ok1" and s1: "scanned view ps ps1" using o True by (simp_all add: ps1_def)
    have "drop_slices disk ks ps1 = (ok, ps')" using Cons.prems(3) True u ok1 by (simp add: Let_def ps1_def)
    from Cons.IH [OF _ _ this] s1 Cons.prems(2)
    have ih: "ok \<and> scanned view ps1 ps' \<and> ps_disks ps' = ps_disks ps1 \<and>
      (\<forall>k<kMaxSlices. ps_slices ps' ! k = (if k \<in> set ks \<and> sl_present (ps_slices ps1 ! k) \<and> sl_parent (ps_slices ps1 ! k) = disk
         then zero_slice else ps_slices ps1 ! k))" by (simp add: scanned_def)
    have "length (ps_slices ps) = kMaxSlices" using Cons.prems(1) by (simp add: part_inv_def)
    then have "ps_slices ps1 ! l = (if l = k then zero_slice else ps_slices ps ! l)" for l
      using k by (auto simp: ps1_def nth_list_update)
    then show ?thesis using ih True scanned_trans [OF s1] by (auto simp: ps1_def zero_slice_def)
  qed
qed

lemma partition_drop_spec:
  assumes inv: "part_inv view ps" and d: "partition_drop disk ps = (ok, ps')"
  shows "scanned view ps ps'" and "ok \<longleftrightarrow> disk < kMaxDisks \<and> \<not> is_slice disk ps"
    and "ok \<Longrightarrow> k < kMaxSlices \<Longrightarrow> ps_slices ps' ! k =
      (if sl_present (ps_slices ps ! k) \<and> sl_parent (ps_slices ps ! k) = disk then zero_slice else ps_slices ps ! k)"
proof -
  obtain ok1 ps1 where e: "drop_slices disk [0..<kMaxSlices] ps = (ok1, ps1)" by fastforce
  have s: "ok1 \<and> scanned view ps ps1 \<and> ps_disks ps1 = ps_disks ps \<and>
      (\<forall>k<kMaxSlices. ps_slices ps1 ! k = (if k \<in> set [0..<kMaxSlices] \<and> sl_present (ps_slices ps ! k) \<and> sl_parent (ps_slices ps ! k) = disk
         then zero_slice else ps_slices ps ! k))"
    by (rule drop_slices_spec [OF inv _ e]) simp
  have self: "scanned view ps ps" using inv by (simp add: scanned_def)
  show "scanned view ps ps'"
    using d e s self scanned_disks [of view ps ps1 disk zero_disk] by (auto simp: partition_drop_def split: if_splits)
  show "ok \<longleftrightarrow> disk < kMaxDisks \<and> \<not> is_slice disk ps" using d e s by (auto simp: partition_drop_def split: if_splits)
  show "ps_slices ps' ! k = (if sl_present (ps_slices ps ! k) \<and> sl_parent (ps_slices ps ! k) = disk then zero_slice else ps_slices ps ! k)"
    if "ok" "k < kMaxSlices"
    using d e s that by (auto simp: partition_drop_def split: if_splits)
qed

lemma rescan_scanned:
  assumes inv: "part_inv view ps" and r: "partition_rescan D disk ps = (ok, ps')"
  shows "scanned view ps ps'"
proof -
  have self: "scanned view ps ps" using inv by (simp add: scanned_def)
  obtain ok1 ps1 where d: "partition_drop disk ps = (ok1, ps1)" by fastforce
  note s = partition_drop_spec [OF inv d]
  show ?thesis
  proof (cases "kMaxDisks \<le> disk \<or> is_slice disk ps \<or> device_info disk (ps_block ps) = None")
    case True
    then show ?thesis using r self by (auto simp: partition_rescan_def split: if_splits)
  next
    case False
    then have "ok1" using s(2) by simp
    have l: "length (ps_slices ps1) = kMaxSlices" "length (ps_slices ps) = kMaxSlices"
      using s(1) inv by (simp_all add: scanned_def part_inv_def)
    have "\<not> is_slice disk ps1"
      using False s(3) [OF \<open>ok1\<close>] is_slice_iff [OF l(1)] is_slice_iff [OF l(2)] by (auto simp: zero_slice_def split: if_splits)
    then have "scanned view ps1 (scan_disk D disk ps1)" using scan_disk_scanned s(1) unfolding scanned_def by blast
    then show ?thesis using r False d \<open>ok1\<close> scanned_trans [OF s(1)] by (auto simp: partition_rescan_def)
  qed
qed

lemma enumerate_scanned:
  assumes bi: "block_inv view (ps_block ps)" and ns: "no_stale (ps_block ps)"
    and disks: "\<forall>i<b_device_count (ps_block ps). is_disk (ps_block ps) i"
  shows "part_inv view (enumerate_partitions D ps) \<and> same_disks (ps_block ps) (ps_block (enumerate_partitions D ps))"
proof -
  let ?ps0 = "ps\<lparr>ps_slices := replicate kMaxSlices zero_slice, ps_disks := replicate kMaxDisks zero_disk\<rparr>"
  let ?n = "b_device_count (ps_block ps)"
  have inv0: "part_inv view ?ps0" using bi ns disks by (simp add: part_inv_def zero_slice_def)
  have "scanned view ?ps0 (foldl (\<lambda>s i. scan_disk D i s) ?ps0 is)" if "set is \<subseteq> {..<?n}" for "is"
    using that
  proof (induction "is" rule: rev_induct)
    case Nil
    then show ?case using inv0 by (simp add: scanned_def)
  next
    case (snoc i "is")
    let ?ps1 = "foldl (\<lambda>s i. scan_disk D i s) ?ps0 is"
    have s: "scanned view ?ps0 ?ps1" using snoc by simp
    have "is_disk (ps_block ?ps1) i" using s snoc.prems disks by (simp add: scanned_def same_disks_def)
    then have "\<not> is_slice i ?ps1" using disk_not_slice s unfolding scanned_def by blast
    then have "scanned view ?ps1 (scan_disk D i ?ps1)" using s scan_disk_scanned unfolding scanned_def by blast
    then show ?case using scanned_trans [OF s] by simp
  qed
  moreover have "set [0..<min ?n kMaxDisks] \<subseteq> {..<?n}" by auto
  ultimately have "scanned view ?ps0 (enumerate_partitions D ps)" unfolding enumerate_partitions_def by blast
  then show ?thesis by (simp add: scanned_def)
qed

datatype part_call = Rescan nat | Drop nat

fun part_call_run :: "'d disk_driver \<Rightarrow> 'd part_state \<Rightarrow> part_call \<Rightarrow> 'd part_state" where
  "part_call_run D ps (Rescan i) = snd (partition_rescan D i ps)"
| "part_call_run D ps (Drop i) = snd (partition_drop i ps)"

lemma part_calls_scanned:
  assumes "part_inv view ps"
  shows "scanned view ps (foldl (part_call_run D) ps cs)"
proof (induction cs rule: rev_induct)
  case Nil
  then show ?case using assms by (simp add: scanned_def)
next
  case (snoc c cs)
  let ?ps1 = "foldl (part_call_run D) ps cs"
  have inv1: "part_inv view ?ps1" using snoc by (simp add: scanned_def)
  have "scanned view ?ps1 (part_call_run D ?ps1 c)"
    using rescan_scanned [OF inv1 surjective_pairing] partition_drop_spec(1) [OF inv1 surjective_pairing] by (cases c) simp_all
  then show ?case using scanned_trans [OF snoc] by simp
qed

text \<open>C14. Whatever the tables on the disks say, and however often disks are rescanned and dropped, every
  partition the block layer has lies inside its disk, its slice record and its block device
  agree, no two slices share a device, the disks themselves are untouched, and the block
  layer's invariant holds, so what it promises of reads and writes holds for partitions.\<close>

theorem partitions_stay_inside:
  assumes "block_inv view (ps_block ps)" and "no_stale (ps_block ps)"
    and "\<forall>i<b_device_count (ps_block ps). is_disk (ps_block ps) i"
  shows "let ps' = foldl (part_call_run D) (enumerate_partitions D ps) cs; b' = ps_block ps'
    in block_inv view b' \<and> same_disks (ps_block ps) b' \<and>
       (\<forall>s\<in>set (ps_slices ps'). sl_present s \<longrightarrow>
          place b' (sl_device s) = Some (sl_parent s, pt_start (sl_info s)) \<and> is_disk b' (sl_parent s) \<and>
          bd_sectors (b_devices b' ! sl_device s) = pt_count (sl_info s) \<and>
          pt_start (sl_info s) + pt_count (sl_info s) \<le> bd_sectors (b_devices b' ! sl_parent s))"
proof -
  define ps' where "ps' = foldl (part_call_run D) (enumerate_partitions D ps) cs"
  note e = enumerate_scanned [OF assms, of D]
  have s: "scanned view (enumerate_partitions D ps) ps'" unfolding ps'_def using part_calls_scanned e by blast
  then have inv: "part_inv view ps'" and sd: "same_disks (ps_block ps) (ps_block ps')"
    using e same_disks_trans unfolding scanned_def by blast+
  have bi: "block_inv view (ps_block ps')" using inv by (simp add: part_inv_def)
  have "place (ps_block ps') (sl_device s) = Some (sl_parent s, pt_start (sl_info s)) \<and> is_disk (ps_block ps') (sl_parent s) \<and>
      bd_sectors (b_devices (ps_block ps') ! sl_device s) = pt_count (sl_info s) \<and>
      pt_start (sl_info s) + pt_count (sl_info s) \<le> bd_sectors (b_devices (ps_block ps') ! sl_parent s)"
    if p: "s \<in> set (ps_slices ps')" "sl_present s" for s
  proof -
    obtain k where "k < length (ps_slices ps')" "s = ps_slices ps' ! k" using p(1) by (metis in_set_conv_nth)
    then have live: "slice_live (ps_block ps') s" using p(2) part_inv_live [OF inv, of k] by (simp add: part_inv_length [OF inv])
    then have "slice_ok (ps_block ps') (sl_device s)" using bi by (simp add: block_inv_def slice_live_def)
    with live show ?thesis by (simp add: slice_live_def slice_ok_def place_def device_for_index_def)
  qed
  then show ?thesis using sd bi unfolding Let_def ps'_def by blast
qed

text \<open>A four-sector disk with an MBR: one partition that claims far more sectors than the disk has,
  and one past its end.\<close>

definition mbr_sector :: sector where
  "mbr_sector = replicate 446 0 @ [0, 0, 0, 0, 0x83, 0, 0, 0, 1, 0, 0, 0, 0xff, 0xff, 0, 0] @
     [0, 0, 0, 0, 0x83, 0, 0, 0, 9, 0, 0, 0, 1, 0, 0, 0] @ replicate 32 0 @ [0x55, 0xaa]"

definition part_example :: "image part_state" where
  "part_example = \<lparr>ps_slices = [], ps_disks = [], ps_block = block_example\<lparr>
     b_devices := [b_devices block_example ! 0, zero_device], b_device_count := 1,
     b_disks := \<lparr>im_sectors = [mbr_sector, [], [], []], im_writable = True, im_name = []\<rparr>\<rparr>\<rparr>"

lemma part_example_disk: "is_disk (ps_block part_example) i \<longleftrightarrow> i = 0"
  by (auto simp: is_disk_def part_example_def context_of_def block_example_def example_ops_def zero_device_def)

lemma part_example_block: "block_inv image_view (ps_block part_example)"
  unfolding block_inv_def using part_example_disk
  by (auto simp: part_example_def block_example_def head_written_def queued_sectors_def slice_ok_def example_ops_def zero_device_def)

lemma part_example_clean: "no_stale (ps_block part_example)" "\<forall>i<b_device_count (ps_block part_example). is_disk (ps_block part_example) i"
  using part_example_disk by (auto simp: no_stale_def part_example_def zero_device_def nth_Cons')

lemma mbr_bytes [simp]:
  "byte_at mbr_sector 0 = 0" "byte_at mbr_sector 510 = 0x55" "byte_at mbr_sector 511 = 0xaa" "byte_at mbr_sector 450 = 0x83"
  "byte_at mbr_sector 466 = 0x83" "byte_at mbr_sector 482 = 0" "byte_at mbr_sector 498 = 0" "load_le32 mbr_sector 454 = 1"
  "load_le32 mbr_sector 458 = 0xffff" "load_le32 mbr_sector 470 = 9" "load_le32 mbr_sector 474 = 1"
  by (simp_all add: mbr_sector_def byte_at_def load_le32_def nth_append)

lemma mbr_infos:
  "mbr_entry_info 0 mbr_sector =
     Some (zero_info\<lparr>pt_start := 1, pt_count := 0xffff, pt_scheme := Scheme_mbr, pt_number := 1, pt_mbr_type := 0x83\<rparr>)"
  "mbr_entry_info 1 mbr_sector =
     Some (zero_info\<lparr>pt_start := 9, pt_count := 1, pt_scheme := Scheme_mbr, pt_number := 2, pt_mbr_type := 0x83\<rparr>)"
  "mbr_entry_info 2 mbr_sector = None" "mbr_entry_info 3 mbr_sector = None"
  by (simp_all add: mbr_entry_info_def Let_def kMbrTableOffset_def kMbrEntrySize_def is_extended_def zero_info_def)

lemma part_example_reads:
  "block_read ramdisk_driver 0 0 1 (ps_block part_example) = Some [mbr_sector]"
  "block_read ramdisk_driver 0 1 1 (ps_block part_example) = Some [[]]"
  by (simp_all add: part_example_def block_example_def block_read_def disk_level_read_def device_for_index_def request_in_range_def
      zero_device_def example_ops_def ramdisk_driver_def ramdisk_read_op_def defers_def overlay_queued_def)

lemma part_example_scan:
  defines "ps' \<equiv> enumerate_partitions ramdisk_driver part_example"
  shows "length (ps_slices ps') = kMaxSlices" and "ps_slices ps' ! 0 = \<lparr>sl_present = True, sl_device = 1, sl_parent = 0,
      sl_info = zero_info\<lparr>pt_start := 1, pt_count := 3, pt_scheme := Scheme_mbr, pt_number := 1, pt_mbr_type := 0x83\<rparr>\<rparr>"
proof -
  define ps0 where "ps0 = part_example\<lparr>ps_slices := replicate kMaxSlices zero_slice, ps_disks := replicate kMaxDisks zero_disk\<rparr>"
  have b: "ps_block ps0 = ps_block part_example" "b_device_count (ps_block part_example) = 1" by (simp_all add: ps0_def part_example_def)
  have slots: "ps_slices ps0 = replicate 16 zero_slice" by (simp add: ps0_def kMaxSlices_def)
  have d: "device_info 0 (ps_block part_example) = Some (b_devices (ps_block part_example) ! 0)"
    "bd_sectors (b_devices (ps_block part_example) ! 0) = 4" "bd_writable (b_devices (ps_block part_example) ! 0)"
    by (simp_all add: device_info_def device_for_index_def part_example_def block_example_def zero_device_def)
  have boot: "load_le16 mbr_sector 510 = 0xaa55" "\<not> is_boot_sector mbr_sector" "\<not> has_protective_mbr mbr_sector"
    by (simp_all add: load_le16_def is_boot_sector_def has_protective_mbr_def kMbrTableOffset_def kMbrEntrySize_def kMbrEntryCount_def upt_rec)
  have gpt: "scan_gpt ramdisk_driver 0 nm w n ps = (Scheme_none, ps)" if "ps_block ps = ps_block part_example" for nm w n ps
    using that by (simp add: scan_gpt_def part_example_reads field_def efi_part_def byte_at_def upt_rec del: One_nat_def)
  have reg: "fst (register_device (slice_ops 0 1) 3 True nm (ps_block part_example)) = Some 1" for nm
    by (simp add: register_device_def slice_ops_def part_example_def block_example_def zero_device_def)
  have add1: "ps_slices (snd (add_slice 0 nm True 4
      (zero_info\<lparr>pt_start := 1, pt_count := 0xffff, pt_scheme := Scheme_mbr, pt_number := 1, pt_mbr_type := 0x83\<rparr>) ps)) =
      (replicate 16 zero_slice)[0 := \<lparr>sl_present = True, sl_device = 1, sl_parent = 0,
        sl_info = zero_info\<lparr>pt_start := 1, pt_count := 3, pt_scheme := Scheme_mbr, pt_number := 1, pt_mbr_type := 0x83\<rparr>\<rparr>]"
    if "ps_block ps = ps_block part_example" "ps_slices ps = replicate 16 zero_slice" for nm and ps :: "image part_state"
  proof -
    obtain b' where "register_device (slice_ops 0 1) 3 True (build_name 24 nm 1) (ps_block part_example) = (Some 1, b')"
      using reg by (metis prod.collapse)
    moreover have "find_slot (\<lambda>s. \<not> sl_present s) (replicate 16 zero_slice) = Some 0" by (simp add: zero_slice_def numeral_eq_Suc)
    ultimately show ?thesis using that by (simp add: add_slice_def zero_info_def)
  qed
  have add2: "add_slice 0 nm True 4 (zero_info\<lparr>pt_start := 9, pt_count := 1, pt_scheme := Scheme_mbr, pt_number := 2, pt_mbr_type := 0x83\<rparr>) ps = (False, ps)"
    for nm and ps :: "image part_state" by (simp add: add_slice_def zero_info_def)
  have ps': "ps_slices ps' = (replicate 16 zero_slice)[0 := \<lparr>sl_present = True, sl_device = 1, sl_parent = 0,
      sl_info = zero_info\<lparr>pt_start := 1, pt_count := 3, pt_scheme := Scheme_mbr, pt_number := 1, pt_mbr_type := 0x83\<rparr>\<rparr>]"
  proof -
    have "enumerate_partitions ramdisk_driver part_example = scan_disk ramdisk_driver 0 ps0"
      by (simp add: enumerate_partitions_def b(2) kMaxDisks_def ps0_def)
    moreover define ps1 where "ps1 = ps0\<lparr>ps_disks := (ps_disks ps0)[0 := zero_disk]\<rparr>"
    moreover have "ps_block ps1 = ps_block part_example" "ps_slices ps1 = replicate 16 zero_slice" using b(1) slots by (simp_all add: ps1_def)
    moreover have "[0..<kMbrEntryCount] = [0, 1, 2, 3]" by (simp add: kMbrEntryCount_def upt_rec)
    ultimately show ?thesis using d boot part_example_reads(1) gpt [of ps1] add1 [of "set_scheme 0 Scheme_mbr ps1"] add2
      by (simp add: ps'_def scan_disk_def Let_def mbr_infos del: One_nat_def)
  qed
  show "length (ps_slices ps') = kMaxSlices" using ps' by (simp add: kMaxSlices_def)
  show "ps_slices ps' ! 0 = \<lparr>sl_present = True, sl_device = 1, sl_parent = 0,
      sl_info = zero_info\<lparr>pt_start := 1, pt_count := 3, pt_scheme := Scheme_mbr, pt_number := 1, pt_mbr_type := 0x83\<rparr>\<rparr>"
    using ps' by simp
qed


theorem partitions_stay_inside_witness:
  "let ps' = enumerate_partitions ramdisk_driver part_example
   in block_inv image_view (ps_block ps') \<and> place (ps_block ps') 1 = Some (0, 1) \<and> bd_sectors (b_devices (ps_block ps') ! 1) = 3"
proof -
  define ps' where "ps' = enumerate_partitions ramdisk_driver part_example"
  note e = part_example_scan [folded ps'_def]
  have "ps_slices ps' ! 0 \<in> set (ps_slices ps')" using e(1) by (simp add: kMaxSlices_def)
  then show ?thesis
    using partitions_stay_inside [OF part_example_block part_example_clean, of ramdisk_driver "[]", unfolded Let_def foldl.simps, folded ps'_def] e(2)
    unfolding Let_def ps'_def [symmetric] by fastforce
qed

text \<open>Dropping a disk that is going away always succeeds: its slices are gone from the table and from
  the block layer, and every other slice stays as it was.\<close>

theorem drop_removes_exactly:
  assumes "part_inv view ps" and "disk < kMaxDisks" and "\<not> is_slice disk ps"
  shows "\<exists>ps'. partition_drop disk ps = (True, ps') \<and> part_inv view ps' \<and>
    filter sl_present (ps_slices ps') = filter (\<lambda>s. sl_present s \<and> sl_parent s \<noteq> disk) (ps_slices ps)"
proof -
  obtain ok ps' where d: "partition_drop disk ps = (ok, ps')" by fastforce
  note s = partition_drop_spec [OF assms(1) d]
  have ok: "ok" using s(2) assms by simp
  have len: "length (ps_slices ps') = length (ps_slices ps)" "length (ps_slices ps) = kMaxSlices"
    using s(1) assms(1) by (auto simp: scanned_def part_inv_def)
  have "ps_slices ps' = map (\<lambda>x. if sl_present x \<and> sl_parent x = disk then zero_slice else x) (ps_slices ps)"
    using len s(3) [OF ok] by (intro nth_equalityI) simp_all
  moreover have "filter sl_present (map (\<lambda>x. if sl_present x \<and> sl_parent x = disk then zero_slice else x) xs) =
      filter (\<lambda>x. sl_present x \<and> sl_parent x \<noteq> disk) xs" for xs
    by (induction xs) (auto simp: zero_slice_def)
  ultimately show ?thesis using d ok s(1) by (auto simp: scanned_def)
qed

theorem drop_removes_exactly_witness:
  "\<exists>ps'. partition_drop 0 (enumerate_partitions ramdisk_driver part_example) = (True, ps') \<and>
     filter sl_present (ps_slices ps') = filter (\<lambda>s. sl_present s \<and> sl_parent s \<noteq> 0) (ps_slices (enumerate_partitions ramdisk_driver part_example))"
proof -
  let ?ps = "enumerate_partitions ramdisk_driver part_example"
  have inv: "part_inv image_view ?ps" and sd: "same_disks (ps_block part_example) (ps_block ?ps)"
    using enumerate_scanned [OF part_example_block part_example_clean] by blast+
  have "is_disk (ps_block ?ps) 0" using sd part_example_disk by (simp add: same_disks_def)
  then have "\<not> is_slice 0 ?ps" by (rule disk_not_slice [OF inv])
  from drop_removes_exactly [OF inv _ this] show ?thesis by (auto simp: kMaxDisks_def)
qed

end
