(* ===== verification/Sx_Disk.thy ===== *)
theory Sx_Disk
  imports Partition_Table
begin

text \<open>
  \<^verbatim>\<open>libsxdisk/sxdisk.c\<close>: the library Disk Management and setup use to read, edit and write GUID
  partition tables through I/O callbacks. The callbacks, which the caller supplies, are the
  fields of \<open>sxdisk_io\<close>; the state they act on is the type \<open>'d\<close>. A table is a record with its 128
  entries; in memory an entry has the bytes it has on disk, which \<open>entry_bytes\<close> and \<open>entry_of\<close>
  write down. A null table pointer, which the functions refuse, is not a value of the record.
\<close>

unbundle bit_operations_syntax

section \<open>Tables\<close>

definition ENTRY_COUNT :: nat where "ENTRY_COUNT = 128"
definition ENTRY_SIZE :: nat where "ENTRY_SIZE = 128"
definition ARRAY_SECTORS :: nat where "ARRAY_SECTORS = ENTRY_COUNT * ENTRY_SIZE div kSectorSize"
definition ALIGN_SECTORS :: u64 where "ALIGN_SECTORS = 2048"
definition NAME_UNITS :: nat where "NAME_UNITS = 36"
definition MIN_DISK_SECTORS :: u64 where
  "MIN_DISK_SECTORS = 2 * ALIGN_SECTORS + 2 * (1 + of_nat ARRAY_SECTORS) + 1"
definition GPT_HEADER_SIZE :: nat where "GPT_HEADER_SIZE = 92"

datatype sxdisk_error = ERR_IO | ERR_INVALID | ERR_NO_SPACE | ERR_FULL | ERR_NOT_FOUND

record 'd sxdisk_io =
  io_read :: "(u64 \<Rightarrow> nat \<Rightarrow> 'd \<Rightarrow> sector list option) option"
  io_write :: "(u64 \<Rightarrow> sector list \<Rightarrow> 'd \<Rightarrow> bool \<times> 'd) option"
  io_random :: "('d \<Rightarrow> u8 list \<times> 'd) option"

record gpt_entry =
  ge_type_guid :: "u8 list"
  ge_unique_guid :: "u8 list"
  ge_first :: u64
  ge_last :: u64
  ge_attributes :: u64
  ge_name :: "u16 list"

record gpt =
  g_disk_sectors :: u64
  g_first_usable :: u64
  g_last_usable :: u64
  g_disk_guid :: "u8 list"
  g_from_backup :: bool
  g_entries :: "gpt_entry list"

definition zero_entry :: gpt_entry where
  "zero_entry = \<lparr>ge_type_guid = zero_guid, ge_unique_guid = zero_guid, ge_first = 0, ge_last = 0, ge_attributes = 0,
     ge_name = replicate NAME_UNITS 0\<rparr>"

definition zero_gpt :: gpt where
  "zero_gpt = \<lparr>g_disk_sectors = 0, g_first_usable = 0, g_last_usable = 0, g_disk_guid = zero_guid, g_from_backup = False,
     g_entries = replicate ENTRY_COUNT zero_entry\<rparr>"

definition entry_bytes :: "gpt_entry \<Rightarrow> u8 list" where
  "entry_bytes e = ge_type_guid e @ ge_unique_guid e @ put64 (ge_first e) @ put64 (ge_last e) @ put64 (ge_attributes e) @
     concat (map put16 (ge_name e))"

definition entry_of :: "u8 list \<Rightarrow> nat \<Rightarrow> gpt_entry" where
  "entry_of bs k = \<lparr>ge_type_guid = field bs k 16, ge_unique_guid = field bs (k + 16) 16, ge_first = load_le64 bs (k + 32),
     ge_last = load_le64 bs (k + 40), ge_attributes = load_le64 bs (k + 48),
     ge_name = map (\<lambda>u. load_le16 bs (k + 56 + 2 * u)) [0..<NAME_UNITS]\<rparr>"

definition array_bytes :: "gpt_entry list \<Rightarrow> u8 list" where
  "array_bytes es = concat (map entry_bytes es)"

definition array_of :: "u8 list \<Rightarrow> gpt_entry list" where
  "array_of bs = map (\<lambda>i. entry_of bs (i * ENTRY_SIZE)) [0..<ENTRY_COUNT]"

definition sectors_of :: "u8 list \<Rightarrow> sector list" where
  "sectors_of bs = map (\<lambda>k. take kSectorSize (drop (k * kSectorSize) bs)) [0..<length bs div kSectorSize]"

section \<open>Operations\<close>

definition get32 :: "u8 list \<Rightarrow> nat \<Rightarrow> u32" where
  "get32 bs k = ucast (byte_at bs k) OR push_bit 8 (ucast (byte_at bs (k + 1))) OR
     push_bit 16 (ucast (byte_at bs (k + 2))) OR push_bit 24 (ucast (byte_at bs (k + 3)))"

definition get64 :: "u8 list \<Rightarrow> nat \<Rightarrow> u64" where
  "get64 bs k = ucast (get32 bs k) OR push_bit 32 (ucast (get32 bs (k + 4)))"

definition sxdisk_guid_is_zero :: "u8 list \<Rightarrow> bool" where
  "sxdisk_guid_is_zero guid = list_all (\<lambda>b. b = 0) guid"

definition new_guid :: "'d sxdisk_io \<Rightarrow> 'd \<Rightarrow> u8 list \<times> 'd" where
  "new_guid io d =
     (let (out, d1) = (case io_random io of None \<Rightarrow> (zero_guid, d) | Some random \<Rightarrow> random d)
      in (out[7 := (out ! 7 AND 0x0f) OR 0x40, 8 := (out ! 8 AND 0x3f) OR 0x80], d1))"

definition array_sectors_end :: "u64 \<Rightarrow> u64" where
  "array_sectors_end entries_lba = entries_lba + of_nat ARRAY_SECTORS"

definition sxdisk_gpt_init :: "u64 \<Rightarrow> 'd sxdisk_io \<Rightarrow> 'd \<Rightarrow> (sxdisk_error + gpt) \<times> 'd" where
  "sxdisk_gpt_init disk_sectors io d =
     (if disk_sectors < MIN_DISK_SECTORS then (Inl ERR_INVALID, d)
      else
        let (guid, d1) = new_guid io d
        in (Inr (zero_gpt\<lparr>g_disk_sectors := disk_sectors, g_first_usable := array_sectors_end 2,
              g_last_usable := disk_sectors - 2 - of_nat ARRAY_SECTORS, g_disk_guid := guid\<rparr>), d1))"

definition load_copy :: "(u64 \<Rightarrow> nat \<Rightarrow> 'd \<Rightarrow> sector list option) \<Rightarrow> u64 \<Rightarrow> u64 \<Rightarrow> 'd \<Rightarrow> sxdisk_error + gpt" where
  "load_copy read disk_sectors lba d =
     (case read lba 1 d of
        None \<Rightarrow> Inl ERR_IO
      | Some s \<Rightarrow>
          let sector = concat s;
              header_size = unat (get32 sector 12);
              stored = get32 sector 16;
              cleared = poke sector 16 (put32 0);
              first_usable = get64 cleared 40;
              last_usable = get64 cleared 48;
              entries_lba = get64 cleared 72;
              entries_crc = get32 cleared 88
          in if take 8 sector \<noteq> efi_part then Inl ERR_INVALID
             else if header_size < GPT_HEADER_SIZE \<or> kSectorSize < header_size then Inl ERR_INVALID
             else if sx_crc32 (take header_size cleared) \<noteq> stored \<or> get64 cleared 24 \<noteq> lba then Inl ERR_INVALID
             else if get32 cleared 80 \<noteq> of_nat ENTRY_COUNT \<or> get32 cleared 84 \<noteq> of_nat ENTRY_SIZE \<or> entries_lba < 2 \<or>
               disk_sectors < array_sectors_end entries_lba \<or> last_usable < first_usable \<or> disk_sectors \<le> last_usable
             then Inl ERR_INVALID
             else case read entries_lba ARRAY_SECTORS d of
               None \<Rightarrow> Inl ERR_IO
             | Some es \<Rightarrow>
                 if sx_crc32 (concat es) \<noteq> entries_crc then Inl ERR_INVALID
                 else Inr (zero_gpt\<lparr>g_disk_sectors := disk_sectors, g_first_usable := first_usable,
                        g_last_usable := last_usable, g_disk_guid := field cleared 56 16, g_entries := array_of (concat es)\<rparr>))"

definition sxdisk_gpt_read :: "u64 \<Rightarrow> 'd sxdisk_io \<Rightarrow> 'd \<Rightarrow> sxdisk_error + gpt" where
  "sxdisk_gpt_read disk_sectors io d =
     (case io_read io of
        None \<Rightarrow> Inl ERR_INVALID
      | Some read \<Rightarrow>
          if disk_sectors < MIN_DISK_SECTORS then Inl ERR_INVALID
          else case load_copy read disk_sectors 1 d of
            Inr g \<Rightarrow> Inr g
          | Inl ERR_IO \<Rightarrow> Inl ERR_IO
          | Inl _ \<Rightarrow>
              (case load_copy read disk_sectors (disk_sectors - 1) d of
                 Inl e \<Rightarrow> Inl e
               | Inr g \<Rightarrow> Inr (g\<lparr>g_from_backup := True\<rparr>)))"

definition build_header :: "gpt \<Rightarrow> u64 \<Rightarrow> u64 \<Rightarrow> u64 \<Rightarrow> u32 \<Rightarrow> sector" where
  "build_header g lba alternate entries_lba entries_crc =
     (let s = replicate kSectorSize 0;
          s = poke s 0 efi_part;
          s = poke s 8 (put32 0x00010000);
          s = poke s 12 (put32 (of_nat GPT_HEADER_SIZE));
          s = poke s 24 (put64 lba);
          s = poke s 32 (put64 alternate);
          s = poke s 40 (put64 (g_first_usable g));
          s = poke s 48 (put64 (g_last_usable g));
          s = poke s 56 (g_disk_guid g);
          s = poke s 72 (put64 entries_lba);
          s = poke s 80 (put32 (of_nat ENTRY_COUNT));
          s = poke s 84 (put32 (of_nat ENTRY_SIZE));
          s = poke s 88 (put32 entries_crc)
      in poke s 16 (put32 (sx_crc32 (take GPT_HEADER_SIZE s))))"

definition protective_mbr :: "sector \<Rightarrow> u64 \<Rightarrow> sector" where
  "protective_mbr old final =
     (let s = take 440 old @ replicate (kSectorSize - 440) 0;
          s = poke s 447 [0x00, 0x02, 0x00, 0xee, 0xff, 0xff, 0xff];
          s = poke s 454 (put32 1);
          s = poke s 458 (put32 (if 0xffffffff < final then 0xffffffff else ucast final))
      in poke s 510 (put16 0xaa55))"

text \<open>The writes of \<^verbatim>\<open>sxdisk_gpt_write\<close> in their order; the first that fails ends it.\<close>

definition gpt_plan :: "gpt \<Rightarrow> sector \<Rightarrow> (u64 \<times> sector list) list" where
  "gpt_plan g old =
     (let final = g_disk_sectors g - 1;
          backup_entries = final - of_nat ARRAY_SECTORS;
          bytes = array_bytes (g_entries g);
          crc = sx_crc32 bytes
      in [(0, [protective_mbr old final]),
          (backup_entries, sectors_of bytes),
          (final, [build_header g final 1 backup_entries crc]),
          (2, sectors_of bytes),
          (1, [build_header g 1 final 2 crc])])"

fun write_all :: "(u64 \<Rightarrow> sector list \<Rightarrow> 'd \<Rightarrow> bool \<times> 'd) \<Rightarrow> (u64 \<times> sector list) list \<Rightarrow> 'd \<Rightarrow> bool \<times> 'd" where
  "write_all write [] d = (True, d)"
| "write_all write ((lba, bs) # rest) d =
     (case write lba bs d of (ok, d1) \<Rightarrow> if ok then write_all write rest d1 else (False, d1))"

definition sxdisk_gpt_write :: "gpt \<Rightarrow> 'd sxdisk_io \<Rightarrow> 'd \<Rightarrow> sxdisk_error option \<times> 'd" where
  "sxdisk_gpt_write g io d =
     (case (io_read io, io_write io) of
        (Some read, Some write) \<Rightarrow>
          if g_disk_sectors g < MIN_DISK_SECTORS then (Some ERR_INVALID, d)
          else (case read 0 1 d of
              None \<Rightarrow> (Some ERR_IO, d)
            | Some s \<Rightarrow>
                (case write_all write (gpt_plan g (concat s)) d of
                   (ok, d1) \<Rightarrow> (if ok then None else Some ERR_IO, d1)))
      | _ \<Rightarrow> (Some ERR_INVALID, d))"

definition sxdisk_entry_in_use :: "gpt_entry \<Rightarrow> bool" where
  "sxdisk_entry_in_use e = (\<not> sxdisk_guid_is_zero (ge_type_guid e))"

definition sxdisk_gpt_entry_at :: "gpt \<Rightarrow> nat \<Rightarrow> gpt_entry option" where
  "sxdisk_gpt_entry_at g number =
     (if number = 0 \<or> ENTRY_COUNT < number then None
      else if sxdisk_entry_in_use (g_entries g ! (number - 1)) then Some (g_entries g ! (number - 1)) else None)"

definition sxdisk_align_up :: "u64 \<Rightarrow> u64" where
  "sxdisk_align_up v = (v + ALIGN_SECTORS - 1) div ALIGN_SECTORS * ALIGN_SECTORS"

text \<open>Insertion from the end, past the entries that start later.\<close>

definition insert_entry :: "gpt_entry \<Rightarrow> gpt_entry list \<Rightarrow> gpt_entry list" where
  "insert_entry e out =
     (let at = length (dropWhile (\<lambda>x. ge_first e < ge_first x) (rev out)) in take at out @ e # drop at out)"

definition sorted_entries :: "gpt \<Rightarrow> gpt_entry list" where
  "sorted_entries g = foldl (\<lambda>out e. if sxdisk_entry_in_use e then insert_entry e out else out) [] (g_entries g)"

fun extents_from :: "u64 \<Rightarrow> u64 \<Rightarrow> gpt_entry list \<Rightarrow> (u64 \<times> u64) list" where
  "extents_from last_usable cursor used =
     (let limit = (case used of [] \<Rightarrow> last_usable + 1 | e # _ \<Rightarrow> ge_first e);
          start = sxdisk_align_up cursor;
          found = (if start < limit \<and> ALIGN_SECTORS \<le> limit - start then [(start, limit - start)] else [])
      in case used of
           [] \<Rightarrow> found
         | e # rest \<Rightarrow> found @ extents_from last_usable (if cursor < ge_last e + 1 then ge_last e + 1 else cursor) rest)"

definition sxdisk_gpt_free_extents :: "gpt \<Rightarrow> nat \<Rightarrow> nat \<times> (u64 \<times> u64) list" where
  "sxdisk_gpt_free_extents g capacity =
     (let found = extents_from (g_last_usable g) (g_first_usable g) (sorted_entries g) in (length found, take capacity found))"

definition sxdisk_entry_set_name :: "gpt_entry \<Rightarrow> u8 list option \<Rightarrow> gpt_entry" where
  "sxdisk_entry_set_name e name =
     (case name of
        None \<Rightarrow> e\<lparr>ge_name := replicate NAME_UNITS 0\<rparr>
      | Some chars \<Rightarrow>
          let units = map (\<lambda>c. if c < 0x80 then ucast c else 0x3f) (take NAME_UNITS (takeWhile (\<lambda>c. c \<noteq> 0) chars))
          in e\<lparr>ge_name := units @ replicate (NAME_UNITS - length units) 0\<rparr>)"

definition sxdisk_entry_get_name :: "gpt_entry \<Rightarrow> nat \<Rightarrow> u8 list option" where
  "sxdisk_entry_get_name e capacity =
     (if capacity = 0 then None
      else Some (map (\<lambda>u. if 0x20 \<le> u \<and> u < 0x7f then ucast u else 0x3f)
             (takeWhile (\<lambda>u. u \<noteq> 0) (take (min NAME_UNITS (capacity - 1)) (ge_name e)))))"

fun add_scan :: "u64 \<Rightarrow> u64 \<Rightarrow> gpt_entry list \<Rightarrow> nat \<Rightarrow> nat \<Rightarrow> sxdisk_error + nat" where
  "add_scan first final [] index slot = Inr slot"
| "add_scan first final (e # es) index slot =
     (if \<not> sxdisk_entry_in_use e then add_scan first final es (Suc index) (if slot = ENTRY_COUNT then index else slot)
      else if first \<le> ge_last e \<and> ge_first e \<le> final then Inl ERR_NO_SPACE
      else add_scan first final es (Suc index) slot)"

definition sxdisk_gpt_add ::
  "gpt \<Rightarrow> u64 \<Rightarrow> u64 \<Rightarrow> u8 list \<Rightarrow> u8 list option \<Rightarrow> 'd sxdisk_io \<Rightarrow> 'd \<Rightarrow> (sxdisk_error + gpt \<times> nat) \<times> 'd" where
  "sxdisk_gpt_add g first count type_guid name io d =
     (let final = first + count - 1 in
      if sxdisk_guid_is_zero type_guid \<or> count = 0 then (Inl ERR_INVALID, d)
      else if final < first \<or> first < g_first_usable g \<or> g_last_usable g < final then (Inl ERR_NO_SPACE, d)
      else case add_scan first final (g_entries g) 0 ENTRY_COUNT of
        Inl e \<Rightarrow> (Inl e, d)
      | Inr slot \<Rightarrow>
          if slot = ENTRY_COUNT then (Inl ERR_FULL, d)
          else
            let (guid, d1) = new_guid io d;
                e = sxdisk_entry_set_name (zero_entry\<lparr>ge_type_guid := type_guid, ge_unique_guid := guid, ge_first := first,
                  ge_last := final\<rparr>) name
            in (Inr (g\<lparr>g_entries := (g_entries g)[slot := e]\<rparr>, slot + 1), d1))"

definition sxdisk_gpt_remove :: "gpt \<Rightarrow> nat \<Rightarrow> sxdisk_error + gpt" where
  "sxdisk_gpt_remove g number =
     (case sxdisk_gpt_entry_at g number of
        None \<Rightarrow> Inl ERR_NOT_FOUND
      | Some _ \<Rightarrow> Inr (g\<lparr>g_entries := (g_entries g)[number - 1 := zero_entry]\<rparr>))"

definition sxdisk_type_esp :: "u8 list" where
  "sxdisk_type_esp = [0x28, 0x73, 0x2a, 0xc1, 0x1f, 0xf8, 0xd2, 0x11, 0xba, 0x4b, 0x00, 0xa0, 0xc9, 0x3e, 0xc9, 0x3b]"

definition sxdisk_type_sxfs :: "u8 list" where
  "sxdisk_type_sxfs = [0x79, 0x80, 0x7c, 0x27, 0x0e, 0x90, 0x7e, 0x47, 0x99, 0xd8, 0x4f, 0xee, 0x14, 0x96, 0xd3, 0x70]"

definition sxdisk_type_basic_data :: "u8 list" where
  "sxdisk_type_basic_data = [0xa2, 0xa0, 0xd0, 0xeb, 0xe5, 0xb9, 0x33, 0x44, 0x87, 0xc0, 0x68, 0xb6, 0xb7, 0x26, 0x99, 0xc7]"

definition sxdisk_type_linux :: "u8 list" where
  "sxdisk_type_linux = [0xaf, 0x3d, 0xc6, 0x0f, 0x83, 0x84, 0x72, 0x47, 0x8e, 0x79, 0x3d, 0x69, 0xd8, 0x47, 0x7d, 0xe4]"

definition sxdisk_type_name :: "u8 list \<Rightarrow> string option" where
  "sxdisk_type_name guid =
     (if guid = sxdisk_type_esp then Some ''EFI System''
      else if guid = sxdisk_type_sxfs then Some ''SavanXP SxFS''
      else if guid = sxdisk_type_basic_data then Some ''Basic data''
      else if guid = sxdisk_type_linux then Some ''Linux filesystem'' else None)"

definition sxdisk_mbr_type_name :: "u8 \<Rightarrow> string option" where
  "sxdisk_mbr_type_name type =
     (if type = 0x01 then Some ''FAT12''
      else if type = 0x04 \<or> type = 0x06 \<or> type = 0x0e then Some ''FAT16''
      else if type = 0x0b \<or> type = 0x0c then Some ''FAT32''
      else if type = 0x07 then Some ''NTFS/exFAT''
      else if type = 0x82 then Some ''Linux swap''
      else if type = 0x83 then Some ''Linux''
      else if type = 0xee then Some ''GPT protective''
      else if type = 0xef then Some ''EFI System'' else None)"

definition hex_digit :: "u8 \<Rightarrow> char" where
  "hex_digit v = ''0123456789ABCDEF'' ! unat v"

definition guid_order :: "nat list" where
  "guid_order = [3, 2, 1, 0, 5, 4, 7, 6, 8, 9, 10, 11, 12, 13, 14, 15]"

definition sxdisk_guid_format :: "u8 list \<Rightarrow> string" where
  "sxdisk_guid_format guid =
     concat (map (\<lambda>index. (if index \<in> {4, 6, 8, 10} then ''-'' else []) @
       (let v = guid ! (guid_order ! index) in [hex_digit (drop_bit 4 v), hex_digit (v AND 0x0f)])) [0..<16])"

section \<open>Entries and arrays on disk\<close>

lemma get_eq [simp]: "get32 = load_le32" "get64 = load_le64"
  by (simp_all add: fun_eq_iff get32_def load_le32_def get64_def load_le64_def)

lemma holds_self: "holds bs 0 bs"
  by (simp add: holds_def byte_at_def)

lemma field_holds: "holds bs k vs \<Longrightarrow> field bs k (length vs) = vs"
  by (auto simp: holds_def field_def intro!: nth_equalityI)

definition entry_wf :: "gpt_entry \<Rightarrow> bool" where
  "entry_wf e \<longleftrightarrow> length (ge_type_guid e) = 16 \<and> length (ge_unique_guid e) = 16 \<and> length (ge_name e) = NAME_UNITS"

lemma length_put16s [simp]: "length (concat (map put16 us)) = 2 * length us"
  by (induction us) simp_all

lemma length_entry_bytes [simp]: "entry_wf e \<Longrightarrow> length (entry_bytes e) = ENTRY_SIZE"
  by (simp add: entry_wf_def entry_bytes_def ENTRY_SIZE_def NAME_UNITS_def)

lemma load_units: "holds bs k (concat (map put16 us)) \<Longrightarrow> u < length us \<Longrightarrow> load_le16 bs (k + 2 * u) = us ! u"
proof (induction us arbitrary: k u)
  case (Cons v us)
  then show ?case using Cons.IH [of "k + 2" "u - 1"] by (cases u) (auto simp: holds_append load_holds)
qed simp

lemma entry_of_bytes: "holds bs k (entry_bytes e) \<Longrightarrow> entry_wf e \<Longrightarrow> entry_of bs k = e"
proof -
  assume h: "holds bs k (entry_bytes e)" and wf: "entry_wf e"
  have l: "length (ge_type_guid e) = 16" "length (ge_unique_guid e) = 16" "length (ge_name e) = NAME_UNITS" using wf by (simp_all add: entry_wf_def)
  from h l have h: "holds bs k (ge_type_guid e)" "holds bs (k + 16) (ge_unique_guid e)" "holds bs (k + 32) (put64 (ge_first e))"
    "holds bs (k + 40) (put64 (ge_last e))" "holds bs (k + 48) (put64 (ge_attributes e))" "holds bs (k + 56) (concat (map put16 (ge_name e)))"
    by (simp_all add: entry_bytes_def holds_append ac_simps)
  have "map (\<lambda>u. load_le16 bs (k + 56 + 2 * u)) [0..<NAME_UNITS] = ge_name e"
    using load_units [OF h(6)] l(3) by (intro nth_equalityI) simp_all
  then show ?thesis using field_holds [OF h(1)] field_holds [OF h(2)] load_holds(3) [OF h(3)] load_holds(3) [OF h(4)] load_holds(3) [OF h(5)] l
    by (simp add: entry_of_def)
qed

lemma length_array_bytes: "\<forall>e\<in>set es. entry_wf e \<Longrightarrow> length (array_bytes es) = length es * ENTRY_SIZE"
  by (induction es) (simp_all add: array_bytes_def)

lemma array_holds:
  "holds bs k (array_bytes es) \<Longrightarrow> \<forall>e\<in>set es. entry_wf e \<Longrightarrow> i < length es \<Longrightarrow> holds bs (k + i * ENTRY_SIZE) (entry_bytes (es ! i))"
proof (induction es arbitrary: k i)
  case (Cons e es)
  show ?case
  proof (cases i)
    case 0
    then show ?thesis using Cons.prems by (simp add: array_bytes_def holds_append)
  next
    case (Suc j)
    have "holds bs (k + ENTRY_SIZE) (array_bytes es)" using Cons.prems by (simp add: array_bytes_def holds_append)
    from Cons.IH [OF this, of j] Cons.prems Suc show ?thesis by (simp add: ac_simps)
  qed
qed simp

definition entries_wf :: "gpt_entry list \<Rightarrow> bool" where
  "entries_wf es \<longleftrightarrow> length es = ENTRY_COUNT \<and> (\<forall>e\<in>set es. entry_wf e)"

lemma array_of_bytes: "entries_wf es \<Longrightarrow> array_of (array_bytes es) = es"
proof -
  assume wf: "entries_wf es"
  then have "entry_of (array_bytes es) (i * ENTRY_SIZE) = es ! i" if "i < length es" for i
    using array_holds [OF holds_self, of es i] entry_of_bytes that by (simp add: entries_wf_def)
  then show ?thesis using wf by (intro nth_equalityI) (simp_all add: array_of_def entries_wf_def)
qed

lemma length_entries: "entries_wf es \<Longrightarrow> length (array_bytes es) = ARRAY_SECTORS * kSectorSize"
  by (simp add: entries_wf_def length_array_bytes ARRAY_SECTORS_def ENTRY_COUNT_def ENTRY_SIZE_def kSectorSize_def)

lemma concat_chunks: "concat (map (\<lambda>k. take n (drop (k * n) bs)) [0..<m]) = take (m * n) bs"
proof (induction m)
  case (Suc m)
  have "take (m * n) bs @ take n (drop (m * n) bs) = take (m * n + n) bs" by (simp add: take_add)
  then show ?case using Suc by (simp add: add.commute)
qed simp

lemma sectors_of_concat: "length bs = m * kSectorSize \<Longrightarrow> concat (sectors_of bs) = bs \<and> length (sectors_of bs) = m"
  by (simp add: sectors_of_def concat_chunks kSectorSize_def)

section \<open>Headers\<close>

definition header_body :: "gpt \<Rightarrow> u64 \<Rightarrow> u64 \<Rightarrow> u64 \<Rightarrow> u32 \<Rightarrow> u8 list" where
  "header_body g lba alternate entries_lba crc =
     efi_part @ put32 0x00010000 @ put32 (of_nat GPT_HEADER_SIZE) @ replicate 8 0 @ put64 lba @ put64 alternate @
     put64 (g_first_usable g) @ put64 (g_last_usable g) @ g_disk_guid g @ put64 entries_lba @
     put32 (of_nat ENTRY_COUNT) @ put32 (of_nat ENTRY_SIZE) @ put32 crc @ replicate 420 0"

lemma poke_skip: "length a \<le> k \<Longrightarrow> poke (a @ b) k vs = a @ poke b (k - length a) vs"
  by (simp add: poke_def Suc_diff_le)

lemma poke_here: "length c = length vs \<Longrightarrow> poke (c @ b) 0 vs = vs @ b"
  by (simp add: poke_def)

lemma length_efi_part [simp]: "length efi_part = 8"
  by (simp add: efi_part_def)

lemma build_header_eq:
  assumes "length (g_disk_guid g) = 16"
  shows "build_header g lba alternate entries_lba crc =
    (let s = header_body g lba alternate entries_lba crc in poke s 16 (put32 (sx_crc32 (take GPT_HEADER_SIZE s))))"
proof -
  define z where "z = (\<lambda>n. replicate n (0::u8))"
  have z: "z (m + n) = z m @ z n" "length (z n) = n" for m n by (simp_all add: z_def replicate_add)
  have split: "replicate kSectorSize 0 = z 8 @ z 4 @ z 4 @ z 8 @ z 8 @ z 8 @ z 8 @ z 8 @ z 16 @ z 8 @ z 4 @ z 4 @ z 4 @ z 420"
    unfolding z(1) [symmetric] by (simp add: z_def kSectorSize_def)
  have p: "poke (z n @ b) 0 vs = vs @ b" if "length vs = n" for n b vs using that by (simp add: poke_here z)
  have "header_body g lba alternate entries_lba crc =
     efi_part @ put32 0x00010000 @ put32 (of_nat GPT_HEADER_SIZE) @ z 8 @ put64 lba @ put64 alternate @
     put64 (g_first_usable g) @ put64 (g_last_usable g) @ g_disk_guid g @ put64 entries_lba @
     put32 (of_nat ENTRY_COUNT) @ put32 (of_nat ENTRY_SIZE) @ put32 crc @ z 420" by (simp add: header_body_def z_def)
  then show ?thesis unfolding build_header_def Let_def split by (simp add: p poke_skip z(2) assms)
qed

lemma length_header_body: "length (g_disk_guid g) = 16 \<Longrightarrow> length (header_body g lba alternate entries_lba crc) = kSectorSize"
  by (simp add: header_body_def kSectorSize_def)

text \<open>What a header holds once its CRC field is cleared, as both readers clear it.\<close>

lemma header_fields:
  fixes lba alternate entries_lba :: u64 and crc :: u32
  assumes "length (g_disk_guid g) = 16"
  defines "s \<equiv> header_body g lba alternate entries_lba crc"
  shows "take 8 s = efi_part" "load_le32 s 12 = of_nat GPT_HEADER_SIZE" "load_le64 s 24 = lba" "load_le64 s 32 = alternate"
    "load_le64 s 40 = g_first_usable g" "load_le64 s 48 = g_last_usable g" "field s 56 16 = g_disk_guid g"
    "load_le64 s 72 = entries_lba" "load_le32 s 80 = of_nat ENTRY_COUNT" "load_le32 s 84 = of_nat ENTRY_SIZE" "load_le32 s 88 = crc"
proof -
  have h: "holds s 0 (header_body g lba alternate entries_lba crc)" unfolding s_def by (rule holds_self)
  show "take 8 s = efi_part" by (simp add: s_def header_body_def)
  note h = h [unfolded header_body_def holds_append, simplified assms(1) length_put length_efi_part length_replicate, simplified]
  show "field s 56 16 = g_disk_guid g" using h field_holds [of s 56 "g_disk_guid g"] assms(1) by simp
  show "load_le32 s 12 = of_nat GPT_HEADER_SIZE" "load_le64 s 24 = lba" "load_le64 s 32 = alternate"
    "load_le64 s 40 = g_first_usable g" "load_le64 s 48 = g_last_usable g" 
    "load_le64 s 72 = entries_lba" "load_le32 s 80 = of_nat ENTRY_COUNT" "load_le32 s 84 = of_nat ENTRY_SIZE" "load_le32 s 88 = crc"
    using h by (simp_all add: load_holds)
qed

lemma poke_poke: "k + length u \<le> length s \<Longrightarrow> length v = length u \<Longrightarrow> poke (poke s k u) k v = poke s k v"
  by (simp add: poke_def)

lemma header_read:
  fixes lba alternate entries_lba :: u64 and crc :: u32
  assumes "length (g_disk_guid g) = 16"
  defines "s \<equiv> header_body g lba alternate entries_lba crc" and "b \<equiv> build_header g lba alternate entries_lba crc"
  shows "length b = kSectorSize" "take 8 b = efi_part" "load_le32 b 12 = of_nat GPT_HEADER_SIZE"
    "load_le32 b 16 = sx_crc32 (take GPT_HEADER_SIZE s)" "poke b 16 (put32 0) = s"
proof -
  have l: "length s = 512" using length_header_body [OF assms(1)] by (simp add: s_def kSectorSize_def)
  have b: "b = poke s 16 (put32 (sx_crc32 (take GPT_HEADER_SIZE s)))"
    unfolding b_def s_def build_header_eq [OF assms(1)] by (simp add: Let_def)
  show "length b = kSectorSize" using l by (simp add: b kSectorSize_def)
  show "take 8 b = efi_part" using l header_fields(1) [OF assms(1), of lba alternate entries_lba crc, folded s_def] by (simp add: b poke_def)
  have p: "put32 0 = replicate 4 0" by (simp add: put32_def eval_nat_numeral)
  have r: "replicate 8 0 = replicate 4 0 @ replicate 4 (0::u8)" by (simp flip: replicate_add)
  show "poke b 16 (put32 0) = s"
    unfolding b by (simp add: poke_poke l) (simp add: p s_def header_body_def r poke_skip poke_here)
  show "load_le32 b 16 = sx_crc32 (take GPT_HEADER_SIZE s)"
    unfolding b by (rule load_holds(2) [OF holds_poke_same]) (simp add: l)
  have "holds s 12 (put32 (of_nat GPT_HEADER_SIZE))" unfolding s_def
    using holds_self [of "header_body g lba alternate entries_lba crc"] assms(1) by (simp add: header_body_def holds_append)
  then show "load_le32 b 12 = of_nat GPT_HEADER_SIZE"
    unfolding b by (intro load_holds(2)) (simp add: holds_poke_other l)
qed

section \<open>Reading a copy\<close>

lemma header_size [simp]: "unat (of_nat GPT_HEADER_SIZE :: u32) = GPT_HEADER_SIZE"
  by (simp add: GPT_HEADER_SIZE_def)

lemma header_fits: "\<not> kSectorSize < GPT_HEADER_SIZE"
  by (simp add: GPT_HEADER_SIZE_def kSectorSize_def)

lemma load_copy_header:
  assumes "length (g_disk_guid g) = 16" and "read lba 1 d = Some [build_header g lba alternate entries_lba crc]"
    and "2 \<le> entries_lba" and "array_sectors_end entries_lba \<le> n" and "g_first_usable g \<le> g_last_usable g" and "g_last_usable g < n"
  shows "load_copy read n lba d =
    (case read entries_lba ARRAY_SECTORS d of
       None \<Rightarrow> Inl ERR_IO
     | Some es \<Rightarrow>
         if sx_crc32 (concat es) \<noteq> crc then Inl ERR_INVALID
         else Inr (g\<lparr>g_disk_sectors := n, g_from_backup := False, g_entries := array_of (concat es)\<rparr>))"
  using header_read [OF assms(1), of lba alternate entries_lba crc] header_fields [OF assms(1), of lba alternate entries_lba crc] assms
  by (simp add: load_copy_def header_fits leD not_le zero_gpt_def Let_def split: option.split)

definition gpt_wf :: "gpt \<Rightarrow> bool" where
  "gpt_wf g \<longleftrightarrow> length (g_disk_guid g) = 16 \<and> entries_wf (g_entries g) \<and> MIN_DISK_SECTORS \<le> g_disk_sectors g \<and>
     g_first_usable g \<le> g_last_usable g \<and> g_last_usable g < g_disk_sectors g"

text \<open>A copy of a table as \<^verbatim>\<open>sxdisk_gpt_write\<close> leaves it: the header in one sector, the entries in 32.\<close>

definition copy_at :: "(nat \<Rightarrow> sector) \<Rightarrow> gpt \<Rightarrow> u64 \<Rightarrow> u64 \<Rightarrow> u64 \<Rightarrow> bool" where
  "copy_at f g lba alternate entries_lba \<longleftrightarrow>
     f (unat lba) = build_header g lba alternate entries_lba (sx_crc32 (array_bytes (g_entries g))) \<and>
     map f [unat entries_lba..<unat entries_lba + ARRAY_SECTORS] = sectors_of (array_bytes (g_entries g))"

definition splice :: "(nat \<Rightarrow> sector) \<Rightarrow> nat \<Rightarrow> sector list \<Rightarrow> nat \<Rightarrow> sector" where
  "splice f lba bs x = (if lba \<le> x \<and> x < lba + length bs then bs ! (x - lba) else f x)"

text \<open>What the library relies on from its callbacks: a read that succeeds returns what the medium
  holds, a write that succeeds replaces exactly its sectors, one that fails touches no other.\<close>

locale sxdisk_medium =
  fixes rd :: "u64 \<Rightarrow> nat \<Rightarrow> 'd \<Rightarrow> sector list option" and wr :: "u64 \<Rightarrow> sector list \<Rightarrow> 'd \<Rightarrow> bool \<times> 'd"
    and inv :: "'d \<Rightarrow> bool" and view :: "'d \<Rightarrow> nat \<Rightarrow> sector"
  assumes read_view: "inv d \<Longrightarrow> rd lba n d = Some bs \<Longrightarrow> bs = map (view d) [unat lba..<unat lba + n]"
    and write_inv: "inv d \<Longrightarrow> wr lba bs d = (ok, d') \<Longrightarrow> inv d'"
    and write_view: "inv d \<Longrightarrow> wr lba bs d = (True, d') \<Longrightarrow> view d' = splice (view d) (unat lba) bs"
    and write_failed: "inv d \<Longrightarrow> wr lba bs d = (False, d') \<Longrightarrow> x < unat lba \<or> unat lba + length bs \<le> x \<Longrightarrow> view d' x = view d x"
begin

lemma load_copy_at:
  assumes "inv d" and "gpt_wf g" and "copy_at (view d) g lba alternate entries_lba"
    and "2 \<le> entries_lba" and "array_sectors_end entries_lba \<le> g_disk_sectors g"
  shows "load_copy rd (g_disk_sectors g) lba d \<in> {Inl ERR_IO, Inr (g\<lparr>g_from_backup := False\<rparr>)}"
proof (cases "rd lba 1 d")
  case None
  then show ?thesis by (simp add: load_copy_def)
next
  case (Some s)
  have h: "rd lba 1 d = Some [build_header g lba alternate entries_lba (sx_crc32 (array_bytes (g_entries g)))]"
    using read_view [OF assms(1) Some] assms(3) Some by (simp add: copy_at_def)
  have wf: "entries_wf (g_entries g)" "length (g_disk_guid g) = 16" "g_first_usable g \<le> g_last_usable g" "g_last_usable g < g_disk_sectors g"
    using assms(2) by (simp_all add: gpt_wf_def)
  have "concat es = array_bytes (g_entries g)" if "rd entries_lba ARRAY_SECTORS d = Some es" for es
    using read_view [OF assms(1) that] assms(3) sectors_of_concat [OF length_entries [OF wf(1)]] by (simp add: copy_at_def)
  then show ?thesis using load_copy_header [where read = rd, OF wf(2) h assms(4,5) wf(3,4)] array_of_bytes [OF wf(1)]
    by (simp split: option.split)
qed

lemma write_all_view:
  "inv d \<Longrightarrow> write_all wr plan d = (True, d') \<Longrightarrow>
    inv d' \<and> view d' = foldl (\<lambda>f (lba, bs). splice f (unat lba) bs) (view d) plan"
proof (induction plan arbitrary: d)
  case (Cons p plan)
  obtain lba bs where p: "p = (lba, bs)" by (cases p)
  obtain ok d1 where w: "wr lba bs d = (ok, d1)" by fastforce
  then have "ok" "write_all wr plan d1 = (True, d')" using Cons.prems(2) p by (auto split: if_splits)
  then show ?case using Cons.IH [of d1] write_inv [OF Cons.prems(1)] write_view [OF Cons.prems(1)] w p by auto
qed simp

end

section \<open>Where a table goes\<close>

lemma disk_bounds:
  assumes "MIN_DISK_SECTORS \<le> n"
  shows "unat (n - 1) = unat n - 1" "unat (n - 1 - of_nat ARRAY_SECTORS) = unat n - 33" "4163 \<le> unat n" "unat (array_sectors_end (n - 1 - of_nat ARRAY_SECTORS)) = unat n - 1"
    "2 \<le> n - 1 - of_nat ARRAY_SECTORS" "array_sectors_end 2 \<le> n" "array_sectors_end (n - 1 - of_nat ARRAY_SECTORS) \<le> n"
proof -
  have a: "ARRAY_SECTORS = 32" by (simp add: ARRAY_SECTORS_def ENTRY_COUNT_def ENTRY_SIZE_def kSectorSize_def)
  have n: "(4163 :: u64) \<le> n" using assms by (simp add: MIN_DISK_SECTORS_def a ALIGN_SECTORS_def)
  then show m: "4163 \<le> unat n" by (simp add: word_le_nat_alt)
  show s: "unat (n - 1) = unat n - 1" using n m by (simp add: unat_sub word_le_nat_alt)
  show t: "unat (n - 1 - of_nat ARRAY_SECTORS) = unat n - 33" using s m by (simp add: unat_sub word_le_nat_alt a)
  show u: "unat (array_sectors_end (n - 1 - of_nat ARRAY_SECTORS)) = unat n - 1" using s by (simp add: array_sectors_end_def)
  show "2 \<le> n - 1 - of_nat ARRAY_SECTORS" using t m by (simp add: word_le_nat_alt)
  show "array_sectors_end 2 \<le> n" using m by (simp add: word_le_nat_alt array_sectors_end_def a)
  show "array_sectors_end (n - 1 - of_nat ARRAY_SECTORS) \<le> n" using u m by (simp add: word_le_nat_alt)
qed

lemma splice_same: "map (splice f lba bs) [lba..<lba + length bs] = bs"
  by (rule nth_equalityI) (simp_all add: splice_def)

lemma splice_other: "b \<le> lba \<or> lba + length bs \<le> a \<Longrightarrow> map (splice f lba bs) [a..<b] = map f [a..<b]"
  by (auto simp: splice_def)

lemma map_splice_cases:
  "map (splice f lba bs) [a..<a + n] = (if a = lba \<and> n = length bs then bs else map f [a..<a + n])"
  if "a = lba \<and> n = length bs \<or> a + n \<le> lba \<or> lba + length bs \<le> a"
  using that splice_same [of f lba bs] splice_other [of "a + n" lba bs a f] by auto

lemma splice_at: "lba + length bs \<le> x \<or> x < lba \<Longrightarrow> splice f lba bs x = f x" "splice f lba [b] lba = b"
  by (auto simp: splice_def fun_eq_iff)

lemma splice_nil [simp]: "splice f lba [] = f"
  by (auto simp: splice_def fun_eq_iff)

lemma unat_small [simp]: "unat (2::u64) = 2"
  by simp

definition after_plan :: "(nat \<Rightarrow> sector) \<Rightarrow> (u64 \<times> sector list) list \<Rightarrow> nat \<Rightarrow> sector" where
  "after_plan f plan = foldl (\<lambda>f (lba, bs). splice f (unat lba) bs) f plan"

lemma length_sectors: "entries_wf es \<Longrightarrow> length (sectors_of (array_bytes es)) = ARRAY_SECTORS"
  using sectors_of_concat [OF length_entries] by blast

lemma array_sectors: "ARRAY_SECTORS = 32"
  by (simp add: ARRAY_SECTORS_def ENTRY_COUNT_def ENTRY_SIZE_def kSectorSize_def)

abbreviation backup_lba :: "gpt \<Rightarrow> u64" where
  "backup_lba g \<equiv> g_disk_sectors g - 1"

abbreviation backup_entries_lba :: "gpt \<Rightarrow> u64" where
  "backup_entries_lba g \<equiv> g_disk_sectors g - 1 - of_nat ARRAY_SECTORS"

lemma layered:
  fixes f :: "nat \<Rightarrow> sector" and m h1 h2 :: sector
  assumes "length bs = k" and "2 + k \<le> e" and "t = e + k"
  defines "f' \<equiv> splice (splice (splice (splice (splice f 0 [m]) e bs) t [h2]) 2 bs) 1 [h1]"
  shows "f' 1 = h1" "map f' [2..<2 + k] = bs" "f' t = h2" "map f' [e..<e + k] = bs"
  using assms by (simp_all add: splice_at map_splice_cases del: One_nat_def upt.simps add_2_eq_Suc add_2_eq_Suc')

lemma plan_room:
  assumes "gpt_wf g"
  shows "length (sectors_of (array_bytes (g_entries g))) = ARRAY_SECTORS" "2 + ARRAY_SECTORS \<le> unat (backup_entries_lba g)"
    "unat (backup_lba g) = unat (backup_entries_lba g) + ARRAY_SECTORS"
proof -
  have m: "MIN_DISK_SECTORS \<le> g_disk_sectors g" and e: "entries_wf (g_entries g)" using assms by (simp_all add: gpt_wf_def)
  show "length (sectors_of (array_bytes (g_entries g))) = ARRAY_SECTORS" by (rule length_sectors [OF e])
  show "2 + ARRAY_SECTORS \<le> unat (backup_entries_lba g)" "unat (backup_lba g) = unat (backup_entries_lba g) + ARRAY_SECTORS"
    using disk_bounds(1-3) [OF m] by (simp_all only: array_sectors)
qed

lemma plan_copies:
  assumes "gpt_wf g"
  shows "copy_at (after_plan f (gpt_plan g old)) g 1 (backup_lba g) 2 \<and>
    copy_at (after_plan f (gpt_plan g old)) g (backup_lba g) 1 (backup_entries_lba g)"
  unfolding after_plan_def gpt_plan_def copy_at_def Let_def
  using layered [OF plan_room [OF assms]] by (simp del: One_nat_def upt.simps add_2_eq_Suc add_2_eq_Suc')

lemma plan_backup:
  assumes "gpt_wf g"
  shows "copy_at (after_plan f (take 3 (gpt_plan g old))) g (backup_lba g) 1 (backup_entries_lba g)"
proof -
  have r: "ARRAY_SECTORS \<noteq> 0" by (simp add: array_sectors)
  note r = r plan_room [OF assms]
  show ?thesis unfolding copy_at_def
  proof
    show "map (after_plan f (take 3 (gpt_plan g old))) [unat (backup_entries_lba g)..<unat (backup_entries_lba g) + ARRAY_SECTORS] =
      sectors_of (array_bytes (g_entries g))"
      using r by (simp add: after_plan_def gpt_plan_def Let_def map_splice_cases del: One_nat_def upt.simps)
  qed (simp add: after_plan_def gpt_plan_def Let_def splice_at)
qed

context sxdisk_medium
begin

lemma read_back:
  assumes "inv d" and "gpt_wf g" and "copy_at (view d) g 1 alternate 2" and "io_read io = Some rd"
  shows "sxdisk_gpt_read (g_disk_sectors g) io d \<in> {Inl ERR_IO, Inr (g\<lparr>g_from_backup := False\<rparr>)}"
proof -
  have m: "MIN_DISK_SECTORS \<le> g_disk_sectors g" using assms(2) by (simp add: gpt_wf_def)
  from load_copy_at [OF assms(1,2,3) order_refl] disk_bounds(6) [OF m] m assms(4)
  show ?thesis by (auto simp: sxdisk_gpt_read_def)
qed

lemma write_copies:
  assumes "inv d" and "gpt_wf g" and "sxdisk_gpt_write g io d = (None, d')"
    and "io_read io = Some rd" and "io_write io = Some wr"
  shows "inv d' \<and> copy_at (view d') g 1 (backup_lba g) 2 \<and> copy_at (view d') g (backup_lba g) 1 (backup_entries_lba g)"
proof -
  obtain old where w: "write_all wr (gpt_plan g old) d = (True, d')"
    using assms(2-5) by (auto simp: sxdisk_gpt_write_def gpt_wf_def split: option.splits prod.splits if_splits)
  show ?thesis using write_all_view [OF assms(1) w] plan_copies [OF assms(2)] by (simp add: after_plan_def)
qed

end

section \<open>Tables on the block layer\<close>

definition block_io_read :: "'d disk_driver \<Rightarrow> nat \<Rightarrow> u64 \<Rightarrow> nat \<Rightarrow> 'd block_state \<Rightarrow> sector list option" where
  "block_io_read D i lba n st = block_read D i (unat lba) n st"

definition block_io_write :: "'d disk_driver \<Rightarrow> bool \<Rightarrow> bool \<Rightarrow> nat \<Rightarrow> u64 \<Rightarrow> sector list \<Rightarrow> 'd block_state \<Rightarrow> bool \<times> 'd block_state" where
  "block_io_write D h1 h2 i lba bs st = block_write D h1 h2 i (unat lba) bs st"

definition block_io :: "'d disk_driver \<Rightarrow> bool \<Rightarrow> bool \<Rightarrow> nat \<Rightarrow> 'd block_state sxdisk_io" where
  "block_io D h1 h2 i = \<lparr>io_read = Some (block_io_read D i), io_write = Some (block_io_write D h1 h2 i), io_random = None\<rparr>"

definition device_inv :: "('d \<Rightarrow> nat \<Rightarrow> nat \<Rightarrow> sector) \<Rightarrow> nat \<Rightarrow> nat \<Rightarrow> nat \<Rightarrow> 'd block_state \<Rightarrow> bool" where
  "device_inv view i j base st \<longleftrightarrow> block_inv view st \<and> place st i = Some (j, base) \<and> is_disk st j"

definition device_view :: "('d \<Rightarrow> nat \<Rightarrow> nat \<Rightarrow> sector) \<Rightarrow> nat \<Rightarrow> nat \<Rightarrow> 'd block_state \<Rightarrow> nat \<Rightarrow> sector" where
  "device_view view j base st x = disk_seen view st j (base + x)"

context disk_medium
begin

lemma device_read:
  assumes "device_inv view i j base st" and "block_read D i lba n st = Some bs"
  shows "bs = map (device_view view j base st) [lba..<lba + n]"
proof -
  have inv: "block_inv view st" and p: "place st i = Some (j, base)" and d: "is_disk st j" using assms(1) by (simp_all add: device_inv_def)
  from read_flat [OF inv assms(2)] p have "map Some bs = map (flat view st j) [base + lba..<base + lba + n]" by auto
  also have "\<dots> = map Some (map (device_view view j base st) [lba..<lba + n])"
    using d by (intro nth_equalityI) (simp_all add: flat_def device_view_def add.assoc)
  finally show ?thesis by (metis option.inject list.inj_map_strong)
qed

lemma device_write:
  assumes "device_inv view i j base st" and "block_write D h1 h2 i lba bs st = (ok, st')"
  shows "device_inv view i j base st'"
    and "ok \<Longrightarrow> device_view view j base st' = splice (device_view view j base st) lba bs"
    and "x < lba \<or> lba + length bs \<le> x \<Longrightarrow> device_view view j base st' x = device_view view j base st x"
proof -
  have inv: "block_inv view st" and p: "place st i = Some (j, base)" and d: "is_disk st j" using assms(1) by (simp_all add: device_inv_def)
  note w = block_write_flat [OF inv assms(2)]
  have sd: "same_devices st st'" and d': "is_disk st' j" using w d same_devices_disk [of st st' j] by auto
  show "device_inv view i j base st'" using w p d' same_devices_place [OF sd] by (simp add: device_inv_def)
  have o: "flat view st' j (base + x) = flat view st j (base + x)" if "x < lba \<or> lba + length bs \<le> x" for x
    using w p that by (auto simp: store_write_def)
  show "device_view view j base st' x = device_view view j base st x" if "x < lba \<or> lba + length bs \<le> x" for x
    using o [OF that] d d' by (simp add: flat_def device_view_def)
  have i: "flat view st' j (base + x) = Some (bs ! (x - lba))" if ok "lba \<le> x" "x < lba + length bs" for x
    using w p that by (auto simp: store_write_def dest: spec [of _ "x - lba"])
  show "device_view view j base st' = splice (device_view view j base st) lba bs" if ok
    using o i [OF that] d d' by (auto simp: fun_eq_iff flat_def device_view_def splice_def not_le)
qed

end

sublocale disk_medium \<subseteq> device: sxdisk_medium "block_io_read D i" "block_io_write D h1 h2 i" "device_inv view i j base" "device_view view j base"
  for i j base h1 h2
  by unfold_locales (auto simp: block_io_read_def block_io_write_def dest: device_read device_write)

context disk_medium
begin

lemmas device_medium = device.sxdisk_medium_axioms

end

section \<open>Editing a table\<close>

definition apart :: "gpt_entry \<Rightarrow> gpt_entry \<Rightarrow> bool" where
  "apart a b \<longleftrightarrow> ge_last a < ge_first b \<or> ge_last b < ge_first a"

lemma apart_sym: "apart a b \<longleftrightarrow> apart b a"
  by (auto simp: apart_def)

definition entry_inside :: "gpt \<Rightarrow> gpt_entry \<Rightarrow> bool" where
  "entry_inside g e \<longleftrightarrow> g_first_usable g \<le> ge_first e \<and> ge_first e \<le> ge_last e \<and> ge_last e \<le> g_last_usable g"

definition gpt_ok :: "gpt \<Rightarrow> bool" where
  "gpt_ok g \<longleftrightarrow> gpt_wf g \<and> (\<forall>i<ENTRY_COUNT. sxdisk_entry_in_use (g_entries g ! i) \<longrightarrow> entry_inside g (g_entries g ! i)) \<and>
     (\<forall>i<ENTRY_COUNT. \<forall>j<ENTRY_COUNT. i \<noteq> j \<longrightarrow> sxdisk_entry_in_use (g_entries g ! i) \<longrightarrow> sxdisk_entry_in_use (g_entries g ! j) \<longrightarrow>
        apart (g_entries g ! i) (g_entries g ! j))"

lemma zero_entry_free [simp]: "\<not> sxdisk_entry_in_use zero_entry"
  by (simp add: sxdisk_entry_in_use_def sxdisk_guid_is_zero_def zero_entry_def zero_guid_def list_all_iff)

lemma zero_entry_wf [simp]: "entry_wf zero_entry"
  by (simp add: entry_wf_def zero_entry_def zero_guid_def)

lemma entries_wf_update: "entries_wf es \<Longrightarrow> entry_wf e \<Longrightarrow> entries_wf (es[i := e])"
  by (auto simp: entries_wf_def dest: set_update_subset_insert [THEN subsetD])

lemma gpt_ok_update:
  assumes ok: "gpt_ok g" and wf: "entry_wf e" and inside: "sxdisk_entry_in_use e \<Longrightarrow> entry_inside g e"
    and free: "\<And>j. j < ENTRY_COUNT \<Longrightarrow> j \<noteq> i \<Longrightarrow> sxdisk_entry_in_use e \<Longrightarrow> sxdisk_entry_in_use (g_entries g ! j) \<Longrightarrow> apart e (g_entries g ! j)"
  shows "gpt_ok (g\<lparr>g_entries := (g_entries g)[i := e]\<rparr>)" (is "gpt_ok ?g")
proof -
  have l: "length (g_entries g) = ENTRY_COUNT" using ok by (simp add: gpt_ok_def gpt_wf_def entries_wf_def)
  have n: "g_entries ?g ! k = (if k = i then e else g_entries g ! k)" if "k < ENTRY_COUNT" for k
    using that l by (simp add: nth_list_update)
  have wf: "gpt_wf ?g" using ok entries_wf_update [OF _ wf] by (simp add: gpt_ok_def gpt_wf_def)
  have inside: "entry_inside ?g (g_entries ?g ! k)" if "k < ENTRY_COUNT" "sxdisk_entry_in_use (g_entries ?g ! k)" for k
    using that n [OF that(1)] inside ok by (cases "k = i") (auto simp: gpt_ok_def entry_inside_def)
  have "apart (g_entries ?g ! k) (g_entries ?g ! j)"
    if p: "k < ENTRY_COUNT" "j < ENTRY_COUNT" "k \<noteq> j" "sxdisk_entry_in_use (g_entries ?g ! k)" "sxdisk_entry_in_use (g_entries ?g ! j)" for k j
  proof -
    consider "k = i" "j \<noteq> i" | "j = i" "k \<noteq> i" | "k \<noteq> i" "j \<noteq> i" using p(3) by blast
    then show ?thesis
    proof cases
      case 1 then show ?thesis using p n free by simp
    next
      case 2 then show ?thesis using p n free [of k] by (simp add: apart_sym)
    next
      case 3 then show ?thesis using p n ok by (simp add: gpt_ok_def)
    qed
  qed
  then show ?thesis using wf inside by (simp add: gpt_ok_def)
qed

definition random_ok :: "'d sxdisk_io \<Rightarrow> bool" where
  "random_ok io \<longleftrightarrow> (\<forall>random. io_random io = Some random \<longrightarrow> (\<forall>d. length (fst (random d)) = 16))"

lemma new_guid_length: "random_ok io \<Longrightarrow> new_guid io d = (guid, d') \<Longrightarrow> length guid = 16"
  by (auto simp: new_guid_def random_ok_def zero_guid_def Let_def split: option.splits prod.splits) (metis fst_conv)

lemma init_ok:
  assumes "random_ok io" and "sxdisk_gpt_init n io d = (Inr g, d')"
  shows "gpt_ok g \<and> g_disk_sectors g = n \<and> (\<forall>i. sxdisk_gpt_entry_at g i = None)"
proof -
  obtain guid where guid: "new_guid io d = (guid, d')" and n: "MIN_DISK_SECTORS \<le> n"
    and g: "g = zero_gpt\<lparr>g_disk_sectors := n, g_first_usable := array_sectors_end 2, g_last_usable := n - 2 - of_nat ARRAY_SECTORS, g_disk_guid := guid\<rparr>"
    using assms(2) by (auto simp: sxdisk_gpt_init_def split: if_splits prod.splits)
  have "(4163 :: u64) \<le> n" using n by (simp add: MIN_DISK_SECTORS_def array_sectors ALIGN_SECTORS_def)
  then have "array_sectors_end 2 \<le> n - 2 - of_nat ARRAY_SECTORS" "n - 2 - of_nat ARRAY_SECTORS < n"
    using disk_bounds(3) [OF n] by (simp_all add: array_sectors_end_def array_sectors word_le_nat_alt word_less_nat_alt unat_sub)
  moreover have "sxdisk_gpt_entry_at g i = None" for i
  proof (cases "i = 0 \<or> ENTRY_COUNT < i")
    case False
    then have "i - 1 < ENTRY_COUNT" by linarith
    then show ?thesis by (simp add: sxdisk_gpt_entry_at_def g zero_gpt_def)
  qed (auto simp: sxdisk_gpt_entry_at_def)
  ultimately show ?thesis using new_guid_length [OF assms(1) guid] n
    by (auto simp: g gpt_ok_def gpt_wf_def entries_wf_def zero_gpt_def)
qed

lemma set_name_wf: "entry_wf e \<Longrightarrow> entry_wf (sxdisk_entry_set_name e name)"
  by (auto simp: entry_wf_def sxdisk_entry_set_name_def Let_def split: option.split)

lemma set_name_keeps [simp]:
  "ge_type_guid (sxdisk_entry_set_name e name) = ge_type_guid e" "ge_unique_guid (sxdisk_entry_set_name e name) = ge_unique_guid e"
  "ge_first (sxdisk_entry_set_name e name) = ge_first e" "ge_last (sxdisk_entry_set_name e name) = ge_last e"
  by (simp_all add: sxdisk_entry_set_name_def Let_def split: option.split)

lemma add_scan_spec:
  "index + length es = ENTRY_COUNT \<Longrightarrow> slot \<le> ENTRY_COUNT \<Longrightarrow>
   case add_scan first final es index slot of
     Inl e \<Rightarrow> e = ERR_NO_SPACE \<and> (\<exists>x\<in>set es. sxdisk_entry_in_use x \<and> first \<le> ge_last x \<and> ge_first x \<le> final)
   | Inr s \<Rightarrow> (\<forall>x\<in>set es. sxdisk_entry_in_use x \<longrightarrow> ge_last x < first \<or> final < ge_first x) \<and>
       (if slot < ENTRY_COUNT then s = slot
        else if \<exists>x\<in>set es. \<not> sxdisk_entry_in_use x
        then index \<le> s \<and> s < ENTRY_COUNT \<and> \<not> sxdisk_entry_in_use (es ! (s - index)) \<and>
          (\<forall>i. index \<le> i \<longrightarrow> i < s \<longrightarrow> sxdisk_entry_in_use (es ! (i - index)))
        else s = ENTRY_COUNT)"
proof (induction es arbitrary: index slot)
  case (Cons x es)
  show ?case
  proof (cases "sxdisk_entry_in_use x")
    case False
    then show ?thesis using Cons.prems Cons.IH [of "Suc index" "if slot = ENTRY_COUNT then index else slot"]
      by (auto split: sum.splits if_splits)
  next
    case True
    then show ?thesis using Cons.prems Cons.IH [of "Suc index" slot]
      by (auto split: sum.splits if_splits simp: nth_Cons' not_le Suc_le_eq)
  qed
qed auto

definition fits :: "gpt \<Rightarrow> u64 \<Rightarrow> u64 \<Rightarrow> bool" where
  "fits g first final \<longleftrightarrow> first \<le> final \<and> g_first_usable g \<le> first \<and> final \<le> g_last_usable g \<and>
     (\<forall>e\<in>set (g_entries g). sxdisk_entry_in_use e \<longrightarrow> ge_last e < first \<or> final < ge_first e)"

lemma add_result:
  assumes "length (g_entries g) = ENTRY_COUNT" and "\<not> sxdisk_guid_is_zero type_guid" and "count \<noteq> 0"
  shows "fst (sxdisk_gpt_add g first count type_guid name io d) =
    (if \<not> fits g first (first + count - 1) then Inl ERR_NO_SPACE
     else if list_all sxdisk_entry_in_use (g_entries g) then Inl ERR_FULL
     else let slot = length (takeWhile sxdisk_entry_in_use (g_entries g)) in
       Inr (g\<lparr>g_entries := (g_entries g)[slot := sxdisk_entry_set_name (zero_entry\<lparr>ge_type_guid := type_guid,
         ge_unique_guid := fst (new_guid io d), ge_first := first, ge_last := first + count - 1\<rparr>) name]\<rparr>, slot + 1))"
proof -
  define final where "final = first + count - 1"
  note s = add_scan_spec [of 0 "g_entries g" ENTRY_COUNT first final, simplified, OF assms(1)]
  show ?thesis
  proof (cases "first \<le> final \<and> g_first_usable g \<le> first \<and> final \<le> g_last_usable g")
    case False
    then show ?thesis using assms(2,3) by (auto simp: sxdisk_gpt_add_def fits_def Let_def not_le simp flip: final_def)
  next
    case True
    then have c: "sxdisk_gpt_add g first count type_guid name io d =
      (case add_scan first final (g_entries g) 0 ENTRY_COUNT of
         Inl e \<Rightarrow> (Inl e, d)
       | Inr slot \<Rightarrow>
          if slot = ENTRY_COUNT then (Inl ERR_FULL, d)
          else (Inr (g\<lparr>g_entries := (g_entries g)[slot := sxdisk_entry_set_name (zero_entry\<lparr>ge_type_guid := type_guid,
            ge_unique_guid := fst (new_guid io d), ge_first := first, ge_last := final\<rparr>) name]\<rparr>, slot + 1), snd (new_guid io d)))"
      using assms(2,3) by (auto simp: sxdisk_gpt_add_def Let_def not_less case_prod_beta simp flip: final_def split: sum.split)
    show ?thesis
    proof (cases "add_scan first final (g_entries g) 0 ENTRY_COUNT")
      case (Inl e)
      then have "e = ERR_NO_SPACE" "\<not> fits g first final" using s by (auto simp: fits_def)
      then show ?thesis using Inl c by (simp flip: final_def)
    next
      case (Inr slot)
      then have f: "fits g first final" using s True by (auto simp: fits_def)
      show ?thesis
      proof (cases "list_all sxdisk_entry_in_use (g_entries g)")
        case True
        then have "slot = ENTRY_COUNT" using s Inr by (auto simp: list_all_iff)
        then show ?thesis using True Inr c f by (simp flip: final_def)
      next
        case False
        then have slot: "slot < ENTRY_COUNT" "\<not> sxdisk_entry_in_use (g_entries g ! slot)" "\<forall>i < slot. sxdisk_entry_in_use (g_entries g ! i)"
          using s Inr by (auto simp: list_all_iff)
        then have "length (takeWhile sxdisk_entry_in_use (g_entries g)) = slot"
          using assms(1) takeWhile_eq_take_P_nth [of slot "g_entries g" sxdisk_entry_in_use] by simp
        then show ?thesis using False Inr c f slot by (simp add: Let_def flip: final_def)
      qed
    qed
  qed
qed

lemma add_ok:
  assumes "gpt_ok g" and "random_ok io" and "length type_guid = 16" and "sxdisk_gpt_add g first count type_guid name io d = (Inr (g', number), d')"
  shows "gpt_ok g'"
proof -
  have l: "length (g_entries g) = ENTRY_COUNT" using assms(1) by (simp add: gpt_ok_def gpt_wf_def entries_wf_def)
  have t: "\<not> sxdisk_guid_is_zero type_guid" "count \<noteq> 0" using assms(4) by (auto simp: sxdisk_gpt_add_def split: if_splits)
  define slot where "slot = length (takeWhile sxdisk_entry_in_use (g_entries g))"
  define final where "final = first + count - 1"
  define e where "e = sxdisk_entry_set_name (zero_entry\<lparr>ge_type_guid := type_guid, ge_unique_guid := fst (new_guid io d), ge_first := first,
    ge_last := final\<rparr>) name"
  have f: "fits g first final" and g': "g' = g\<lparr>g_entries := (g_entries g)[slot := e]\<rparr>"
    using add_result [OF l t, of first name io d] assms(4) by (auto simp: final_def e_def slot_def Let_def split: if_splits)
  have "entry_wf e" unfolding e_def
    using new_guid_length [OF assms(2) surjective_pairing, of d] assms(3) by (intro set_name_wf) (auto simp: entry_wf_def zero_entry_def split: prod.splits)
  moreover have "apart e (g_entries g ! j)" if "j < ENTRY_COUNT" "sxdisk_entry_in_use (g_entries g ! j)" for j
    using f that l by (auto simp: fits_def apart_def e_def)
  ultimately show ?thesis unfolding g' using f by (intro gpt_ok_update [OF assms(1)]) (auto simp: entry_inside_def fits_def e_def)
qed

lemma remove_ok: "gpt_ok g \<Longrightarrow> sxdisk_gpt_remove g number = Inr g' \<Longrightarrow> gpt_ok g'"
  by (auto simp: sxdisk_gpt_remove_def split: option.splits intro!: gpt_ok_update)

text \<open>Tables the library makes: an empty one, edited any number of times.\<close>

inductive edited :: "'d sxdisk_io \<Rightarrow> gpt \<Rightarrow> bool" for io where
  created: "sxdisk_gpt_init n io d = (Inr g, d') \<Longrightarrow> edited io g"
| added: "edited io g \<Longrightarrow> length type_guid = 16 \<Longrightarrow> sxdisk_gpt_add g first count type_guid name io d = (Inr (g', number), d') \<Longrightarrow> edited io g'"
| removed: "edited io g \<Longrightarrow> sxdisk_gpt_remove g number = Inr g' \<Longrightarrow> edited io g'"

lemma edited_ok: "edited io g \<Longrightarrow> random_ok io \<Longrightarrow> gpt_ok g"
  by (induction rule: edited.induct) (auto dest: init_ok add_ok remove_ok)

section \<open>Free space\<close>

definition starts_sorted :: "gpt_entry list \<Rightarrow> bool" where
  "starts_sorted = sorted_wrt (\<lambda>a b. ge_first a \<le> ge_first b)"

lemma insert_split:
  obtains a b where "out = a @ b" "insert_entry e out = a @ e # b" "\<forall>x\<in>set b. ge_first e < ge_first x"
    "a \<noteq> [] \<Longrightarrow> ge_first (last a) \<le> ge_first e"
proof -
  define P where "P = (\<lambda>x :: gpt_entry. ge_first e < ge_first x)"
  define a b where "a = rev (dropWhile P (rev out))" and "b = rev (takeWhile P (rev out))"
  have s: "out = a @ b" by (simp add: a_def b_def flip: rev_append)
  have "length (dropWhile P (rev out)) = length a" by (simp add: a_def)
  then have "insert_entry e out = a @ e # b" by (simp add: insert_entry_def Let_def P_def [symmetric] s)
  moreover have "\<forall>x\<in>set b. ge_first e < ge_first x" by (auto simp: b_def P_def dest: set_takeWhileD)
  moreover have "ge_first (last a) \<le> ge_first e" if "a \<noteq> []"
    using that hd_dropWhile [of P "rev out"] by (simp add: a_def last_rev P_def not_less)
  ultimately show ?thesis using s that by blast
qed

lemma insert_sorted: "starts_sorted out \<Longrightarrow> starts_sorted (insert_entry e out)"
proof (rule insert_split [of out e])
  fix a b
  assume s: "starts_sorted out" and o: "out = a @ b" "insert_entry e out = a @ e # b" and b: "\<forall>x\<in>set b. ge_first e < ge_first x"
    and a: "a \<noteq> [] \<Longrightarrow> ge_first (last a) \<le> ge_first e"
  have "ge_first x \<le> ge_first e" if "x \<in> set a" for x
  proof -
    have n: "a \<noteq> []" using that by auto
    then have "starts_sorted (butlast a @ [last a])" using s o by (simp add: starts_sorted_def sorted_wrt_append)
    then have "ge_first x \<le> ge_first (last a)" using that n by (cases a rule: rev_cases) (auto simp: starts_sorted_def sorted_wrt_append)
    then show ?thesis using a n by (meson order_trans)
  qed
  then show ?thesis using s o b by (auto simp: starts_sorted_def sorted_wrt_append intro: less_imp_le)
qed

lemma insert_apart:
  assumes "sorted_wrt apart out" and "\<forall>x\<in>set out. apart x e"
  shows "sorted_wrt apart (insert_entry e out) \<and> set (insert_entry e out) = insert e (set out)"
  by (rule insert_split [of out e]) (use assms in \<open>auto simp: sorted_wrt_append apart_sym [of e]\<close>)

abbreviation used_apart :: "gpt_entry \<Rightarrow> gpt_entry \<Rightarrow> bool" where
  "used_apart a b \<equiv> sxdisk_entry_in_use a \<longrightarrow> sxdisk_entry_in_use b \<longrightarrow> apart a b"

lemma sorted_fold:
  "starts_sorted out \<Longrightarrow> sorted_wrt used_apart (out @ es) \<Longrightarrow> \<forall>x\<in>set out. sxdisk_entry_in_use x \<Longrightarrow>
   us = foldl (\<lambda>out e. if sxdisk_entry_in_use e then insert_entry e out else out) out es \<Longrightarrow>
   starts_sorted us \<and> sorted_wrt apart us \<and> set us = set out \<union> {e \<in> set es. sxdisk_entry_in_use e}"
proof (induction es arbitrary: out)
  case Nil
  have "sorted_wrt apart out" using Nil.prems(2,3) by (auto intro: sorted_wrt_mono_rel [rotated])
  then show ?case using Nil by simp
next
  case (Cons e es)
  show ?case
  proof (cases "sxdisk_entry_in_use e")
    case True
    have o: "sorted_wrt apart out" using Cons.prems(2,3) by (auto simp: sorted_wrt_append intro: sorted_wrt_mono_rel [rotated])
    have e: "\<forall>x\<in>set out. apart x e" using Cons.prems(2,3) True by (auto simp: sorted_wrt_append)
    note i = insert_apart [OF o e]
    have i': "sorted_wrt used_apart (insert_entry e out)"
      using i by (auto intro: sorted_wrt_mono_rel [rotated])
    have "starts_sorted us \<and> sorted_wrt apart us \<and> set us = set (insert_entry e out) \<union> {e \<in> set es. sxdisk_entry_in_use e}"
      using Cons.prems(2-4) i i' True by (intro Cons.IH [OF insert_sorted [OF Cons.prems(1), of e]]) (auto simp: sorted_wrt_append)
    then show ?thesis using i True by auto
  next
    case False
    have "starts_sorted us \<and> sorted_wrt apart us \<and> set us = set out \<union> {e \<in> set es. sxdisk_entry_in_use e}"
      using Cons.prems False by (intro Cons.IH) (auto simp: sorted_wrt_append)
    then show ?thesis using False by auto
  qed
qed

lemma sorted_entries_chain:
  assumes "gpt_ok g"
  shows "sorted_wrt (\<lambda>a b. ge_last a < ge_first b) (sorted_entries g) \<and>
    set (sorted_entries g) = {e \<in> set (g_entries g). sxdisk_entry_in_use e} \<and> (\<forall>e\<in>set (sorted_entries g). entry_inside g e)"
proof -
  have l: "length (g_entries g) = ENTRY_COUNT" using assms by (simp add: gpt_ok_def gpt_wf_def entries_wf_def)
  have "sorted_wrt used_apart (g_entries g)"
    using assms l by (auto simp: sorted_wrt_iff_nth_less gpt_ok_def)
  from sorted_fold [of "[]", simplified, OF _ this] have s: "starts_sorted (sorted_entries g)" "sorted_wrt apart (sorted_entries g)"
    "set (sorted_entries g) = {e \<in> set (g_entries g). sxdisk_entry_in_use e}" by (auto simp: sorted_entries_def starts_sorted_def)
  have i: "entry_inside g e" if "e \<in> set (sorted_entries g)" for e
    using that s(3) assms l by (auto simp: gpt_ok_def in_set_conv_nth)
  have "sorted_wrt (\<lambda>a b. ge_last a < ge_first b) (sorted_entries g)"
  proof -
    have "sorted_entries g ! m \<in> set (sorted_entries g)" if "m < length (sorted_entries g)" for m using that by simp
    then have "ge_last (sorted_entries g ! m) < ge_first (sorted_entries g ! n)" if "m < n" "n < length (sorted_entries g)" for m n
      using s(1,2) that i [of "sorted_entries g ! m"] i [of "sorted_entries g ! n"]
      unfolding starts_sorted_def sorted_wrt_iff_nth_less apart_def entry_inside_def by (meson leD le_less_trans less_trans order_trans)
    then show ?thesis by (simp add: sorted_wrt_iff_nth_less)
  qed
  then show ?thesis using s(3) i by blast
qed

text \<open>The same walk over natural numbers.\<close>

definition gap :: "nat \<Rightarrow> nat \<Rightarrow> (nat \<times> nat) list" where
  "gap c l = (let s = (c + 2047) div 2048 * 2048 in if s + 2048 \<le> l then [(s, l - s)] else [])"

fun gaps :: "nat \<Rightarrow> nat \<Rightarrow> (nat \<times> nat) list \<Rightarrow> (nat \<times> nat) list" where
  "gaps hi c [] = gap c (hi + 1)"
| "gaps hi c ((a, b) # rest) = gap c a @ gaps hi (max c (b + 1)) rest"

lemma gap_sound: "(s, n) \<in> set (gap c l) \<Longrightarrow> 2048 dvd s \<and> 2048 \<le> n \<and> c \<le> s \<and> s + n = l"
  by (auto simp: gap_def Let_def split: if_splits)

lemma gap_complete: "2048 dvd x \<Longrightarrow> c \<le> x \<Longrightarrow> x + 2048 \<le> l \<Longrightarrow> \<exists>(s, n)\<in>set (gap c l). s \<le> x \<and> x + 2048 \<le> s + n"
proof -
  assume "2048 dvd x" "c \<le> x" "x + 2048 \<le> l"
  then have "(c + 2047) div 2048 * 2048 \<le> x" by (auto simp: dvd_def)
  then show ?thesis using \<open>x + 2048 \<le> l\<close> by (auto simp: gap_def Let_def)
qed

lemma gaps_sound:
  "(s, n) \<in> set (gaps hi c us) \<Longrightarrow> sorted_wrt (\<lambda>p q. snd p < fst q) us \<Longrightarrow> \<forall>(a, b)\<in>set us. c \<le> a \<and> a \<le> b \<and> b \<le> hi \<Longrightarrow>
   2048 dvd s \<and> 2048 \<le> n \<and> c \<le> s \<and> s + n \<le> hi + 1 \<and> (\<forall>(a, b)\<in>set us. s + n \<le> a \<or> b < s)"
proof (induction us arbitrary: c)
  case (Cons u us)
  obtain a b where u: "u = (a, b)" by (cases u)
  have ab: "c \<le> a" "a \<le> b" "b \<le> hi" and r: "\<forall>(a', b')\<in>set us. b < a' \<and> a' \<le> b' \<and> b' \<le> hi" using Cons.prems(2,3) u by auto
  from Cons.prems(1) u have "(s, n) \<in> set (gap c a) \<or> (s, n) \<in> set (gaps hi (max c (b + 1)) us)" by auto
  then show ?case
  proof
    assume "(s, n) \<in> set (gap c a)"
    from gap_sound [OF this] show ?thesis using ab r u by auto
  next
    assume "(s, n) \<in> set (gaps hi (max c (b + 1)) us)"
    moreover have "\<forall>(a', b')\<in>set us. max c (b + 1) \<le> a' \<and> a' \<le> b' \<and> b' \<le> hi" using r ab by auto
    ultimately have "2048 dvd s \<and> 2048 \<le> n \<and> max c (b + 1) \<le> s \<and> s + n \<le> hi + 1 \<and> (\<forall>(a, b)\<in>set us. s + n \<le> a \<or> b < s)"
      using Cons.IH Cons.prems(2) by (simp del: max.bounded_iff)
    then show ?thesis using u by auto
  qed
qed (auto dest: gap_sound)

lemma gaps_complete:
  "2048 dvd x \<Longrightarrow> c \<le> x \<Longrightarrow> x + 2048 \<le> hi + 1 \<Longrightarrow> \<forall>(a, b)\<in>set us. x + 2048 \<le> a \<or> b < x \<Longrightarrow>
   \<exists>(s, n)\<in>set (gaps hi c us). s \<le> x \<and> x + 2048 \<le> s + n"
proof (induction us arbitrary: c)
  case (Cons u us)
  obtain a b where u: "u = (a, b)" by (cases u)
  show ?case
  proof (cases "x + 2048 \<le> a")
    case True
    then show ?thesis using gap_complete [of x c a] Cons.prems u by auto
  next
    case False
    then show ?thesis using Cons.IH [of "max c (b + 1)"] Cons.prems u by fastforce
  qed
qed (use gap_complete in auto)

lemma align_up_nat: "unat v + 2047 < 2 ^ 64 \<Longrightarrow> unat (sxdisk_align_up v) = (unat v + 2047) div 2048 * 2048"
proof -
  assume "unat v + 2047 < 2 ^ 64"
  then have "unat (v + 2047) = unat v + 2047" by (simp add: unat_plus_if')
  moreover have "(unat v + 2047) div 2048 * 2048 < 2 ^ 64" using \<open>unat v + 2047 < 2 ^ 64\<close> by (meson div_times_less_eq_dividend le_less_trans)
  ultimately show ?thesis by (simp add: sxdisk_align_up_def ALIGN_SECTORS_def unat_div unat_mult_lem [THEN iffD1] add.commute [of v] diff_add_eq [symmetric])
qed

lemma word_gap:
  assumes "unat c + 2047 < 2 ^ 64"
  shows "map (map_prod unat unat) (if sxdisk_align_up c < l \<and> ALIGN_SECTORS \<le> l - sxdisk_align_up c
    then [(sxdisk_align_up c, l - sxdisk_align_up c)] else []) = gap (unat c) (unat l)"
  using align_up_nat [OF assms]
  by (auto simp: gap_def Let_def ALIGN_SECTORS_def word_le_nat_alt word_less_nat_alt unat_sub)

declare extents_from.simps [simp del]

lemma extents_step:
  "extents_from hi c [] = (if sxdisk_align_up c < hi + 1 \<and> ALIGN_SECTORS \<le> hi + 1 - sxdisk_align_up c
     then [(sxdisk_align_up c, hi + 1 - sxdisk_align_up c)] else [])"
  "extents_from hi c (e # es) = (if sxdisk_align_up c < ge_first e \<and> ALIGN_SECTORS \<le> ge_first e - sxdisk_align_up c
     then [(sxdisk_align_up c, ge_first e - sxdisk_align_up c)] else []) @
     extents_from hi (if c < ge_last e + 1 then ge_last e + 1 else c) es"
  by (subst extents_from.simps; simp add: Let_def)+

abbreviation span :: "gpt_entry \<Rightarrow> nat \<times> nat" where
  "span e \<equiv> (unat (ge_first e), unat (ge_last e))"

lemma extents_nat:
  assumes "unat hi + 2048 < 2 ^ 64"
  shows "unat c \<le> unat hi + 1 \<Longrightarrow> \<forall>e\<in>set us. ge_last e \<le> hi \<Longrightarrow>
    map (map_prod unat unat) (extents_from hi c us) = gaps (unat hi) (unat c) (map span us)"
proof (induction us arbitrary: c)
  case Nil
  have "unat (hi + 1) = unat hi + 1" using assms by (simp add: unat_plus_if')
  then show ?case using word_gap [of c "hi + 1"] assms Nil by (simp only: extents_step gaps.simps list.map)
next
  case (Cons e es)
  have l: "unat (ge_last e) \<le> unat hi" using Cons.prems(2) by (simp add: word_le_nat_alt)
  then have n: "unat (ge_last e + 1) = unat (ge_last e) + 1" using assms by (simp add: unat_plus_if')
  define c' where "c' = (if c < ge_last e + 1 then ge_last e + 1 else c)"
  have c': "unat c' = max (unat c) (unat (ge_last e) + 1)" using n by (simp add: c'_def word_less_nat_alt max_def)
  have "map (map_prod unat unat) (extents_from hi c' es) = gaps (unat hi) (unat c') (map span es)"
    using Cons.prems l by (intro Cons.IH) (auto simp: c')
  then show ?case using word_gap [of c "ge_first e"] Cons.prems(1) assms c'
    by (simp only: extents_step map_append gaps.simps list.map c'_def [symmetric])
qed

lemma free_extents_nat:
  assumes "gpt_ok g" and "unat (g_last_usable g) + 2048 < 2 ^ 64"
  defines "found \<equiv> extents_from (g_last_usable g) (g_first_usable g) (sorted_entries g)"
  shows "map (map_prod unat unat) found = gaps (unat (g_last_usable g)) (unat (g_first_usable g)) (map span (sorted_entries g))"
  unfolding found_def using sorted_entries_chain [OF assms(1)] assms(1,2)
  by (intro extents_nat) (auto simp: entry_inside_def gpt_ok_def gpt_wf_def word_le_nat_alt)

lemma extent_free:
  assumes "gpt_ok g" and "unat (g_last_usable g) + 2048 < 2 ^ 64"
    and "(first, count) \<in> set (extents_from (g_last_usable g) (g_first_usable g) (sorted_entries g))"
  shows "2048 dvd unat first \<and> 2048 \<le> unat count \<and> fits g first (first + count - 1)"
proof -
  define us where "us = sorted_entries g"
  note c = sorted_entries_chain [OF assms(1), folded us_def]
  have "(unat first, unat count) \<in> set (map (map_prod unat unat) (extents_from (g_last_usable g) (g_first_usable g) (sorted_entries g)))"
    using assms(3) by force
  then have "(unat first, unat count) \<in> set (gaps (unat (g_last_usable g)) (unat (g_first_usable g)) (map span us))"
    unfolding free_extents_nat [OF assms(1,2)] us_def .
  from gaps_sound [OF this] c
  have g: "2048 dvd unat first" "2048 \<le> unat count" "unat (g_first_usable g) \<le> unat first" "unat first + unat count \<le> unat (g_last_usable g) + 1"
    and d: "\<forall>e\<in>set us. unat first + unat count \<le> unat (ge_first e) \<or> unat (ge_last e) < unat first"
    by (auto simp: sorted_wrt_map word_less_nat_alt entry_inside_def word_le_nat_alt)
  have f: "unat (first + count - 1) = unat first + unat count - 1"
  proof -
    have "unat (first + count) = unat first + unat count" using g(4) assms(2) by (simp add: unat_plus_if')
    moreover have "1 \<le> first + count" using g(2) calculation by (simp add: word_le_nat_alt)
    ultimately show ?thesis by (simp add: unat_sub)
  qed
  have "ge_last e < first \<or> first + count - 1 < ge_first e" if "e \<in> set (g_entries g)" "sxdisk_entry_in_use e" for e
    using that c d f g(2) by (auto simp: word_less_nat_alt)
  then show ?thesis using g f by (auto simp: fits_def word_le_nat_alt)
qed

lemma free_extent_found:
  assumes "gpt_ok g" and "unat (g_last_usable g) + 2048 < 2 ^ 64" and "2048 dvd unat x" and "fits g x (x + 2047)"
  shows "\<exists>(first, count)\<in>set (extents_from (g_last_usable g) (g_first_usable g) (sorted_entries g)).
    first \<le> x \<and> unat x + 2048 \<le> unat first + unat count"
proof -
  define us where "us = sorted_entries g"
  note c = sorted_entries_chain [OF assms(1), folded us_def]
  have x: "x \<le> x + 2047" using assms(4) by (simp add: fits_def)
  then have n: "unat (x + 2047) = unat x + 2047" by (simp add: unat_plus_if' word_le_nat_alt split: if_splits)
  have "\<exists>(s, n)\<in>set (gaps (unat (g_last_usable g)) (unat (g_first_usable g)) (map span us)). s \<le> unat x \<and> unat x + 2048 \<le> s + n"
    using assms(3,4) n c by (intro gaps_complete) (auto simp: fits_def word_le_nat_alt word_less_nat_alt)
  then show ?thesis unfolding us_def free_extents_nat [OF assms(1,2), symmetric] by (force simp: word_le_nat_alt)
qed

lemma unat_below: "unat (y :: u64) < 2 ^ 64"
  by (rule order_less_le_trans [OF unsigned_less]) simp

lemma unat_add_up: "x \<le> x + y \<Longrightarrow> unat (x + y) = unat x + unat (y :: u64)"
  using unat_below [of y] by (auto simp: unat_plus_if' word_le_nat_alt split: if_splits)

lemma fits_inside:
  assumes "fits g first (first + count - 1)" and "2048 \<le> unat count" and "first \<le> x" and "unat x + 2048 \<le> unat first + unat count"
  shows "fits g x (x + 2047)"
proof -
  have f: "first \<le> first + count - 1" using assms(1) by (simp add: fits_def)
  have c: "unat (count - 1) = unat count - 1" using assms(2) by (simp add: unat_sub word_le_nat_alt)
  have "unat (first + (count - 1)) = unat first + unat (count - 1)" by (rule unat_add_up) (use f in \<open>simp add: add_diff_eq\<close>)
  then have n: "unat (first + count - 1) = unat first + unat count - 1" using c assms(2) by (simp add: add_diff_eq)
  have "unat (x + 2047) = unat x + 2047" using n assms(4) unat_below [of "first + count - 1"] by (simp add: unat_plus_if')
  then have "x \<le> x + 2047" "x + 2047 \<le> first + count - 1" using n assms(4) by (simp_all add: word_le_nat_alt)
  then show ?thesis using assms(1,3) by (fastforce simp: fits_def)
qed

section \<open>Interrupted writes\<close>

lemma write_all_append:
  "write_all w (p @ q) d = (case write_all w p d of (ok, d1) \<Rightarrow> if ok then write_all w q d1 else (False, d1))"
  by (induction w p d rule: write_all.induct) (auto split: prod.splits)

lemma copy_at_cong:
  assumes "f (unat lba) = f' (unat lba)" and "\<And>x. unat entries_lba \<le> x \<Longrightarrow> x < unat entries_lba + ARRAY_SECTORS \<Longrightarrow> f x = f' x"
  shows "copy_at f g lba alternate entries_lba = copy_at f' g lba alternate entries_lba"
proof -
  have "map f [unat entries_lba..<unat entries_lba + ARRAY_SECTORS] = map f' [unat entries_lba..<unat entries_lba + ARRAY_SECTORS]"
    using assms(2) by simp
  then show ?thesis by (simp only: copy_at_def assms(1))
qed

context sxdisk_medium
begin

lemma write_all_inv: "inv d \<Longrightarrow> write_all wr plan d = (ok, d') \<Longrightarrow> inv d'"
  by (induction plan arbitrary: d) (auto split: prod.splits if_splits, (metis write_inv)+)

lemma write_all_untouched:
  "inv d \<Longrightarrow> write_all wr plan d = (ok, d') \<Longrightarrow> \<forall>(lba, bs)\<in>set plan. x < unat lba \<or> unat lba + length bs \<le> x \<Longrightarrow> view d' x = view d x"
proof (induction plan arbitrary: d)
  case (Cons p plan)
  obtain lba bs where p: "p = (lba, bs)" by (cases p)
  obtain ok1 d1 where w: "wr lba bs d = (ok1, d1)" by fastforce
  have x: "x < unat lba \<or> unat lba + length bs \<le> x" using Cons.prems(3) p by auto
  have "view d1 x = view d x"
    using w write_view [OF Cons.prems(1)] write_failed [OF Cons.prems(1) _ x] x by (cases ok1) (auto simp: splice_def)
  then show ?case using Cons.prems w p Cons.IH [of d1] write_inv [OF Cons.prems(1) w] by (auto split: if_splits)
qed simp

lemma read_mixed:
  assumes inv: "inv d" and g0: "gpt_wf g0" and g: "gpt_wf g" "g_disk_sectors g = g_disk_sectors g0" and io: "io_read io = Some rd"
    and head: "view d 1 = build_header g0 1 alternate 2 (sx_crc32 (array_bytes (g_entries g0)))"
    and backup: "copy_at (view d) g (backup_lba g) 1 (backup_entries_lba g)"
  defines "array \<equiv> concat (map (view d) [2..<2 + ARRAY_SECTORS])"
  shows "sxdisk_gpt_read (g_disk_sectors g) io d \<in> {Inl ERR_IO, Inr (g\<lparr>g_from_backup := True\<rparr>)} \<or>
    sx_crc32 array = sx_crc32 (array_bytes (g_entries g0)) \<and>
    sxdisk_gpt_read (g_disk_sectors g) io d = Inr (g0\<lparr>g_from_backup := False, g_entries := array_of array\<rparr>)"
proof -
  define n where "n = g_disk_sectors g"
  have m: "MIN_DISK_SECTORS \<le> g_disk_sectors g" and w0: "length (g_disk_guid g0) = 16" "g_first_usable g0 \<le> g_last_usable g0" "g_last_usable g0 < n"
    using g g0 by (simp_all add: gpt_wf_def n_def)
  note b = disk_bounds [OF m]
  have second: "load_copy rd n (n - 1) d \<in> {Inl ERR_IO, Inr (g\<lparr>g_from_backup := False\<rparr>)}"
    using load_copy_at [OF inv g(1) backup b(5,7)] by (simp add: n_def)
  show ?thesis
  proof (cases "rd 1 1 d")
    case None
    then show ?thesis using io m by (simp add: sxdisk_gpt_read_def load_copy_def)
  next
    case (Some s)
    then have h: "rd 1 1 d = Some [build_header g0 1 alternate 2 (sx_crc32 (array_bytes (g_entries g0)))]"
      using read_view [OF inv Some] head by simp
    have a: "concat es = array" if "rd 2 ARRAY_SECTORS d = Some es" for es using read_view [OF inv that] by (simp add: array_def)
    have "load_copy rd n 1 d = (case rd 2 ARRAY_SECTORS d of
       None \<Rightarrow> Inl ERR_IO
     | Some es \<Rightarrow>
         if sx_crc32 (concat es) \<noteq> sx_crc32 (array_bytes (g_entries g0)) then Inl ERR_INVALID
         else Inr (g0\<lparr>g_disk_sectors := n, g_from_backup := False, g_entries := array_of (concat es)\<rparr>))"
      using load_copy_header [where read = rd, OF w0(1) h order_refl _ w0(2,3)] b(6) by (simp add: n_def)
    then show ?thesis using second a io m g(2) by (auto simp: sxdisk_gpt_read_def n_def split: option.splits)
  qed
qed

lemma interrupted_early:
  assumes "inv d" and "copy_at (view d) g0 1 alternate 2" and "gpt_wf g" and "write_all wr (take 3 (gpt_plan g old)) d = (ok, d')"
  shows "copy_at (view d') g0 1 alternate 2"
proof -
  have m: "MIN_DISK_SECTORS \<le> g_disk_sectors g" and e: "entries_wf (g_entries g)" using assms(3) by (simp_all add: gpt_wf_def)
  note b = disk_bounds [OF m]
  have "view d' x = view d x" if "1 \<le> x" "x < 2 + ARRAY_SECTORS" for x
    using that b(1-3) by (intro write_all_untouched [OF assms(1,4)])
      (auto simp: gpt_plan_def Let_def length_sectors [OF e] array_sectors)
  then have "copy_at (view d') g0 1 alternate 2 = copy_at (view d) g0 1 alternate 2" by (intro copy_at_cong) (simp_all add: array_sectors)
  then show ?thesis using assms(2) by simp
qed

end

text \<open>A disk whose power fails after a number of sectors: sectors are written in order, each whole.\<close>

type_synonym dying = "(nat \<Rightarrow> sector) \<times> nat"

definition dying_read :: "u64 \<Rightarrow> nat \<Rightarrow> dying \<Rightarrow> sector list option" where
  "dying_read lba n d = Some (map (fst d) [unat lba..<unat lba + n])"

definition dying_write :: "u64 \<Rightarrow> sector list \<Rightarrow> dying \<Rightarrow> bool \<times> dying" where
  "dying_write lba bs d =
     (length bs \<le> snd d, (splice (fst d) (unat lba) (take (snd d) bs), snd d - length bs))"

definition dying_io :: "dying sxdisk_io" where
  "dying_io = \<lparr>io_read = Some dying_read, io_write = Some dying_write, io_random = None\<rparr>"

interpretation dying: sxdisk_medium dying_read dying_write "\<lambda>_. True" fst
  by unfold_locales (auto simp: dying_read_def dying_write_def splice_def)

lemma dying_io_sel [simp]: "io_read dying_io = Some dying_read" "io_write dying_io = Some dying_write"
  by (simp_all add: dying_io_def)

lemma dying_no_error: "load_copy dying_read n lba d \<noteq> Inl ERR_IO"
  by (simp add: load_copy_def dying_read_def Let_def)

lemma dying_no_io_error: "sxdisk_gpt_read n dying_io d \<noteq> Inl ERR_IO"
  using dying_no_error [of n 1 d] dying_no_error [of n "n - 1" d] by (auto simp: sxdisk_gpt_read_def split: sum.splits sxdisk_error.splits)

lemma write_dying:
  "gpt_wf g \<Longrightarrow> sxdisk_gpt_write g dying_io d =
     (case write_all dying_write (gpt_plan g (fst d 0)) d of (ok, d') \<Rightarrow> (if ok then None else Some ERR_IO, d'))"
  by (simp add: sxdisk_gpt_write_def gpt_wf_def leD dying_read_def)

definition old_header :: "gpt \<Rightarrow> sector" where
  "old_header g = build_header g 1 (backup_lba g) 2 (sx_crc32 (array_bytes (g_entries g)))"

text \<open>The sectors of the primary array when the write stopped after \<open>j\<close> of them.\<close>

definition mixed :: "gpt \<Rightarrow> gpt \<Rightarrow> nat \<Rightarrow> u8 list" where
  "mixed g g0 j = concat (take j (sectors_of (array_bytes (g_entries g))) @ drop j (sectors_of (array_bytes (g_entries g0))))"

lemma splice_mixed:
  assumes "map f [a..<a + k] = old" and "length bs = k" and "j \<le> k"
  shows "map (splice f a (take j bs)) [a..<a + k] = take j bs @ drop j old"
proof (rule nth_equalityI)
  have l: "length old = k" using assms(1) by auto
  then show "length (map (splice f a (take j bs)) [a..<a + k]) = length (take j bs @ drop j old)" using assms(2,3) by simp
  fix i assume "i < length (map (splice f a (take j bs)) [a..<a + k])"
  then have i: "i < k" by simp
  have "old ! i = f (a + i)" using i assms(1) by auto
  then show "map (splice f a (take j bs)) [a..<a + k] ! i = (take j bs @ drop j old) ! i"
    using i l assms(2,3) by (auto simp: splice_def nth_append)
qed

text \<open>The last two writes of a table leave one of three states of the primary copy.\<close>

lemma dying_tail:
  assumes wf: "gpt_wf g" "gpt_wf g0" and head: "f 1 = h0"
    and old: "map f [2..<2 + ARRAY_SECTORS] = sectors_of (array_bytes (g_entries g0))"
    and w: "write_all dying_write [(2, sectors_of (array_bytes (g_entries g))), (1, [h])] (f, k) = (ok, (f', k'))"
  shows "f' 1 = h \<and> ok \<or> f' 1 = h0 \<and> (\<exists>j\<le>ARRAY_SECTORS. concat (map f' [2..<2 + ARRAY_SECTORS]) = mixed g g0 j)"
proof -
  let ?bs = "sectors_of (array_bytes (g_entries g))"
  have l: "length ?bs = ARRAY_SECTORS" using wf(1) by (simp add: gpt_wf_def length_sectors)
  define j where "j = min k ARRAY_SECTORS"
  have t: "take k ?bs = take j ?bs" using l by (simp add: j_def min_def)
  have "ok \<and> f' 1 = h \<or> f' = splice f 2 (take k ?bs)"
    using w by (auto simp: dying_write_def l splice_at split: if_splits)
  moreover have "splice f 2 (take k ?bs) 1 = h0" using head by (simp add: splice_def)
  moreover have "concat (map (splice f 2 (take k ?bs)) [2..<2 + ARRAY_SECTORS]) = mixed g g0 j"
    unfolding t by (subst splice_mixed [OF old l]) (simp_all add: j_def mixed_def)
  ultimately show ?thesis using j_def by (metis min.cobounded2)
qed

lemma interrupted_write:
  assumes "gpt_wf g0" and "gpt_wf g" and "g_disk_sectors g = g_disk_sectors g0" and "copy_at f g0 1 alternate 2"
    and "sxdisk_gpt_write g dying_io (f, k) = (r, d')"
  shows "sxdisk_gpt_read (g_disk_sectors g) dying_io d' \<in>
      {Inr (g0\<lparr>g_from_backup := False\<rparr>), Inr (g\<lparr>g_from_backup := False\<rparr>), Inr (g\<lparr>g_from_backup := True\<rparr>)} \<or>
    (\<exists>j\<le>ARRAY_SECTORS. mixed g g0 j \<noteq> array_bytes (g_entries g0) \<and> sx_crc32 (mixed g g0 j) = sx_crc32 (array_bytes (g_entries g0)))"
proof -
  let ?h = "build_header g 1 (backup_lba g) 2 (sx_crc32 (array_bytes (g_entries g)))"
  define old where "old = f 0"
  have plan: "gpt_plan g old = take 3 (gpt_plan g old) @ [(2, sectors_of (array_bytes (g_entries g))), (1, [?h])]"
    by (simp add: gpt_plan_def Let_def)
  obtain ok1 f1 k1 where w1: "write_all dying_write (take 3 (gpt_plan g old)) (f, k) = (ok1, (f1, k1))" by (metis prod.collapse)
  have early: "copy_at f1 g0 1 alternate 2" using dying.interrupted_early [OF TrueI _ assms(2) w1] assms(4) by simp
  have d': "d' = snd (write_all dying_write (gpt_plan g old) (f, k))" using assms(5) by (simp add: write_dying [OF assms(2)] old_def split: prod.splits)
  show ?thesis
  proof (cases ok1)
    case False
    then have "d' = (f1, k1)" using d' w1 by (subst (asm) plan) (simp add: write_all_append)
    then show ?thesis using dying.read_back [OF TrueI assms(1), of d' alternate dying_io] assms(3) early dying_no_io_error by auto
  next
    case True
    obtain ok f' k' where w2: "write_all dying_write [(2, sectors_of (array_bytes (g_entries g))), (1, [?h])] (f1, k1) = (ok, (f', k'))"
      by (metis prod.collapse)
    have d'_eq: "d' = (f', k')" using d' w1 w2 True by (subst (asm) plan) (simp add: write_all_append)
    have "write_all dying_write (take 3 (gpt_plan g old)) (f, k) = (True, (f1, k1))" using w1 True by simp
    from dying.write_all_view [OF TrueI this] have f1: "f1 = after_plan f (take 3 (gpt_plan g old))" by (simp add: after_plan_def)
    have same: "f' x = f1 x" if "2 + ARRAY_SECTORS \<le> x" for x
      using dying.write_all_untouched [OF TrueI w2, of x] that plan_room(1) [OF assms(2)] by simp
    have "copy_at f' g (backup_lba g) 1 (backup_entries_lba g) = copy_at f1 g (backup_lba g) 1 (backup_entries_lba g)"
      using plan_room(2,3) [OF assms(2)] by (intro copy_at_cong same) simp_all
    then have backup: "copy_at f' g (backup_lba g) 1 (backup_entries_lba g)" using plan_backup [OF assms(2)] f1 by simp
    have p0: "f1 1 = build_header g0 1 alternate 2 (sx_crc32 (array_bytes (g_entries g0)))"
      "map f1 [2..<2 + ARRAY_SECTORS] = sectors_of (array_bytes (g_entries g0))" using early unfolding copy_at_def unat_1 unat_small by blast+
    consider "ok" | j where "f' 1 = f1 1" "j \<le> ARRAY_SECTORS" "concat (map f' [2..<2 + ARRAY_SECTORS]) = mixed g g0 j"
      using dying_tail [OF assms(2,1) refl p0(2) w2] by blast
    then show ?thesis
    proof cases
      case 1
      then have "write_all dying_write (gpt_plan g old) (f, k) = (True, d')" using w1 w2 True d'_eq by (subst plan) (simp add: write_all_append)
      from dying.write_all_view [OF TrueI this] have "copy_at (fst d') g 1 (backup_lba g) 2"
        using plan_copies [OF assms(2), of f old] by (simp add: after_plan_def)
      then show ?thesis using dying.read_back [OF TrueI assms(2), of d' _ dying_io] dying_no_io_error by auto
    next
      case (2 j)
      show ?thesis
        using dying.read_mixed [OF TrueI assms(1,2,3) dying_io_sel(1), of d' alternate] backup 2 p0(1) d'_eq dying_no_io_error
          array_of_bytes assms(1) 2(2) by (auto simp: gpt_wf_def)
    qed
  qed
qed

lemma mixed_take:
  assumes "gpt_wf g" and "gpt_wf g0" and "j \<le> ARRAY_SECTORS"
  shows "mixed g g0 j = take (j * kSectorSize) (array_bytes (g_entries g)) @ drop (j * kSectorSize) (array_bytes (g_entries g0))"
proof -
  have t: "concat (take j (sectors_of bs)) = take (j * kSectorSize) bs" if "length bs = ARRAY_SECTORS * kSectorSize" for bs
  proof -
    have "take j (sectors_of bs) = map (\<lambda>k. take kSectorSize (drop (k * kSectorSize) bs)) [0..<j]"
      using that assms(3) by (simp add: sectors_of_def take_map kSectorSize_def)
    then show ?thesis by (simp add: concat_chunks)
  qed
  have l: "length (array_bytes (g_entries x)) = ARRAY_SECTORS * kSectorSize" if "gpt_wf x" for x
    using that by (simp add: gpt_wf_def length_entries)
  have "concat (drop j (sectors_of bs)) = drop (j * kSectorSize) bs" if b: "length bs = ARRAY_SECTORS * kSectorSize" for bs
  proof -
    have "concat (take j (sectors_of bs)) @ concat (drop j (sectors_of bs)) = bs"
      using sectors_of_concat [OF b] by (simp flip: concat_append)
    then show ?thesis using t [OF b] by (metis append_take_drop_id same_append_eq)
  qed
  then show ?thesis using t l assms(1,2) by (simp add: mixed_def)
qed

lemma repair_interrupted:
  assumes wf: "gpt_wf g0" "gpt_wf g" "g_disk_sectors g = g_disk_sectors g0" and j: "j \<le> ARRAY_SECTORS"
    and bad: "take 8 (f 1) \<noteq> efi_part" and backup: "copy_at f g0 (backup_lba g0) 1 (backup_entries_lba g0)"
    and crc: "sx_crc32 (mixed g g0 j) \<noteq> sx_crc32 (array_bytes (g_entries g0))"
  shows "sxdisk_gpt_read (g_disk_sectors g0) dying_io (f, k) = Inr (g0\<lparr>g_from_backup := True\<rparr>)"
    and "sxdisk_gpt_read (g_disk_sectors g0) dying_io (snd (sxdisk_gpt_write g dying_io (f, 1 + j))) = Inl ERR_INVALID"
proof -
  define n where "n = g_disk_sectors g0"
  have m: "MIN_DISK_SECTORS \<le> n" using wf(1) by (simp add: gpt_wf_def n_def)
  note b = disk_bounds [OF m] and r = plan_room [OF wf(2), unfolded wf(3)]
  have w0: "length (g_disk_guid g0) = 16" "g_first_usable g0 \<le> g_last_usable g0" "g_last_usable g0 < n" using wf(1) by (simp_all add: gpt_wf_def n_def)
  have first: "load_copy dying_read n 1 (f', k') = Inl ERR_INVALID" if "f' 1 = f 1" for f' k'
    using that bad by (simp add: load_copy_def dying_read_def Let_def)
  show "sxdisk_gpt_read (g_disk_sectors g0) dying_io (f, k) = Inr (g0\<lparr>g_from_backup := True\<rparr>)"
    using dying.load_copy_at [OF TrueI wf(1) _ b(5,7) [unfolded n_def], of "(f, k)" "backup_lba g0" 1] backup first [of f k] dying_no_error [of n "n - 1" "(f, k)"] m
    by (auto simp: sxdisk_gpt_read_def n_def)
  define bs where "bs = sectors_of (array_bytes (g_entries g))"
  define e where "e = unat (backup_entries_lba g0)"
  define f' where "f' = splice (splice f 0 [protective_mbr (f 0) (backup_lba g0)]) e (take j bs)"
  have lb: "length bs = ARRAY_SECTORS" using r(1) by (simp add: bs_def)
  have "fst (snd (sxdisk_gpt_write g dying_io (f, 1 + j))) = f'"
    using j lb by (auto simp: write_dying [OF wf(2)] gpt_plan_def Let_def wf(3) bs_def [symmetric] e_def [symmetric] dying_write_def f'_def split: prod.splits)
  then obtain k' where d': "snd (sxdisk_gpt_write g dying_io (f, 1 + j)) = (f', k')" by (metis prod.collapse)
  have one: "f' 1 = f 1" using r(2) by (simp add: f'_def splice_def e_def)
  have "map (splice f 0 [protective_mbr (f 0) (backup_lba g0)]) [e..<e + ARRAY_SECTORS] = map f [e..<e + ARRAY_SECTORS]"
    using r(2) by (intro splice_other) (simp add: e_def)
  then have old: "map (splice f 0 [protective_mbr (f 0) (backup_lba g0)]) [e..<e + ARRAY_SECTORS] = sectors_of (array_bytes (g_entries g0))"
    using backup by (simp add: copy_at_def e_def del: map_eq_conv)
  have array: "concat (map f' [e..<e + ARRAY_SECTORS]) = mixed g g0 j"
    unfolding f'_def splice_mixed [OF old lb j] by (simp add: mixed_def bs_def)
  have head: "f' (unat (n - 1)) = build_header g0 (n - 1) 1 (n - 1 - of_nat ARRAY_SECTORS) (sx_crc32 (array_bytes (g_entries g0)))"
    using backup r(2,3) j lb by (simp add: f'_def splice_def e_def copy_at_def n_def)
  have "load_copy dying_read n (n - 1) (f', k') = Inl ERR_INVALID"
    using load_copy_header [where read = dying_read and d = "(f', k')", OF w0(1) _ b(5,7) w0(2,3)] head array crc
    by (simp add: dying_read_def e_def n_def)
  then show "sxdisk_gpt_read (g_disk_sectors g0) dying_io (snd (sxdisk_gpt_write g dying_io (f, 1 + j))) = Inl ERR_INVALID"
    using first [of f' k'] one m unfolding d' by (simp add: sxdisk_gpt_read_def n_def [symmetric])
qed

section \<open>The kernel reads what the library wrote\<close>

lemma field_take: "k + n \<le> length bs \<Longrightarrow> field bs k n = take n (drop k bs)"
  by (rule nth_equalityI) (simp_all add: field_def byte_at_def)

lemma kernel_cleared:
  "length s = kSectorSize \<Longrightarrow> field s 0 16 @ replicate 4 0 @ field s 20 (kSectorSize - 20) = poke s 16 (put32 0)"
  by (simp add: field_take kSectorSize_def poke_def put32_def eval_nat_numeral)

lemma load_gpt_header:
  assumes g: "length (g_disk_guid g) = 16" and head: "block_read D i 1 1 b = Some [build_header g 1 alternate 2 (sx_crc32 array)]"
    and es: "block_read D i 2 ARRAY_SECTORS b = Some es" "concat es = array" and l: "length array = ARRAY_SECTORS * kSectorSize"
    and n: "2 + ARRAY_SECTORS \<le> n"
  shows "load_gpt D i n 1 b = Some (\<lparr>gh_alternate = alternate, gh_entry_lba = 2, gh_entry_count = of_nat ENTRY_COUNT,
    gh_entry_size = of_nat ENTRY_SIZE, gh_disk_guid = g_disk_guid g\<rparr>, array)"
proof -
  define s where "s = build_header g 1 alternate 2 (sx_crc32 array)"
  note r = header_read [OF g, of 1 alternate 2 "sx_crc32 array", folded s_def] and f = header_fields [OF g, of 1 alternate 2 "sx_crc32 array"]
  have c: "field s 0 16 @ replicate 4 0 @ field s 20 (kSectorSize - 20) = header_body g 1 alternate 2 (sx_crc32 array)"
    using kernel_cleared [OF r(1)] r(5) by simp
  have e: "field s 0 8 = efi_part" using r(1,2) by (simp add: field_take kSectorSize_def)
  have a: "field array 0 16384 = array" using l by (simp add: field_take array_sectors kSectorSize_def)
  show ?thesis unfolding load_gpt_def head s_def [symmetric]
    using r f c e es n a
    by (simp add: Let_def kGptMinHeaderSize_def GPT_HEADER_SIZE_def kSectorSize_def ENTRY_COUNT_def ENTRY_SIZE_def kGptMaxArrayBytes_def array_sectors)
qed

lemma byte_at_drop: "byte_at (drop m bs) k = byte_at bs (m + k)"
  by (auto simp: byte_at_def)

lemma holds_after_drop: "holds (drop m bs) k vs = holds bs (m + k) vs"
  by (simp add: holds_def byte_at_drop add.assoc)

lemma guid_zero_iff: "length v = 16 \<Longrightarrow> sxdisk_guid_is_zero v \<longleftrightarrow> v = zero_guid"
  by (auto simp: sxdisk_guid_is_zero_def zero_guid_def list_all_length intro!: nth_equalityI)

lemma kernel_entry:
  assumes "entries_wf es" and "k < ENTRY_COUNT" and "es ! k = e"
  shows "gpt_entry_info k (drop (k * ENTRY_SIZE) (array_bytes es)) =
    (if \<not> sxdisk_entry_in_use e \<or> ge_last e < ge_first e \<or> 0xffffffff < ge_first e \<or> 0xffffffff < ge_last e then None
     else Some (zero_info\<lparr>pt_start := unat (ucast (ge_first e) :: u32), pt_count := unat (ucast (ge_last e - ge_first e + 1) :: u32),
       pt_scheme := Scheme_gpt, pt_number := k + 1, pt_esp := (ge_type_guid e = kEspTypeGuid), pt_type_guid := ge_type_guid e,
       pt_unique_guid := ge_unique_guid e, pt_name := copy_gpt_name (drop 56 (drop (k * ENTRY_SIZE) (array_bytes es)))\<rparr>))"
proof -
  define bs where "bs = drop (k * ENTRY_SIZE) (array_bytes es)"
  have k: "k < length es" and wf: "entry_wf e" using assms by (auto simp: entries_wf_def)
  have "holds bs 0 (entry_bytes e)"
    using array_holds [OF holds_self _ k] assms(1,3) by (simp add: bs_def holds_after_drop entries_wf_def)
  from entry_of_bytes [OF this wf] have "field bs 0 16 = ge_type_guid e" "field bs 16 16 = ge_unique_guid e"
    "load_le64 bs 32 = ge_first e" "load_le64 bs 40 = ge_last e" by (auto simp: entry_of_def)
  then show ?thesis using wf guid_zero_iff [of "ge_type_guid e"] unfolding bs_def [symmetric]
    by (auto simp: gpt_entry_info_def Let_def sxdisk_entry_in_use_def entry_wf_def)
qed

lemma kernel_extent:
  fixes first final :: u64
  assumes "0 < first" and "first \<le> final" and "final \<le> 0xffffffff"
  shows "unat (ucast first :: u32) = unat first" "unat (ucast (final - first + 1) :: u32) = unat final - unat first + 1"
    "\<not> final < first" "\<not> 0xffffffff < first" "\<not> 0xffffffff < final" "unat first \<le> unat final"
proof -
  have n: "0 < unat first" "unat first \<le> unat final" "unat final \<le> 0xffffffff" using assms by (simp_all add: word_le_nat_alt word_less_nat_alt)
  show "unat (ucast first :: u32) = unat first" using n by (simp add: unsigned_ucast_eq take_bit_eq_mod)
  have "unat (final - first + 1) = unat final - unat first + 1" using n assms by (simp add: unat_plus_if' unat_sub)
  then show "unat (ucast (final - first + 1) :: u32) = unat final - unat first + 1" using n by (simp add: unsigned_ucast_eq take_bit_eq_mod)
  show "\<not> final < first" "\<not> 0xffffffff < first" "\<not> 0xffffffff < final" "unat first \<le> unat final"
    using n by (simp_all add: word_less_nat_alt)
qed

section \<open>A disk image\<close>

definition image_device :: block_device where
  "image_device = zero_device\<lparr>bd_present := True, bd_ops := ramdisk_ops, bd_sectors := 4163, bd_writable := True\<rparr>"

lemma image_device_sel [simp]:
  "bd_present image_device" "bd_writable image_device" "bd_ops image_device = ramdisk_ops" "\<not> defers image_device"
  "bd_sectors image_device = 4163" "ops_target ramdisk_ops = Driver_at 0" "\<not> ops_can_flush ramdisk_ops"
  by (simp_all add: image_device_def ramdisk_ops_def defers_def)

definition image_example :: "image block_state" where
  "image_example = block_example\<lparr>b_devices := [image_device], b_device_count := 1,
     b_disks := \<lparr>im_sectors = replicate 4163 (replicate 512 0), im_writable = True, im_name = []\<rparr>\<rparr>"

definition image_state :: "image block_state \<Rightarrow> bool" where
  "image_state st \<longleftrightarrow> b_devices st = [image_device] \<and> b_device_count st = 1 \<and> b_queue st = [] \<and> length (im_sectors (b_disks st)) = 4163"

lemma image_example_state: "image_state image_example"
  by (simp add: image_state_def image_example_def block_example_def)

lemma image_write:
  assumes "image_state st" and "bs \<noteq> []" and "lba + length bs \<le> 4163"
  shows "\<exists>st'. block_write ramdisk_driver h1 h2 0 lba bs st = (True, st') \<and> image_state st'"
proof -
  define st' where "st' = st\<lparr>b_disks := snd (ramdisk_write_op lba bs (b_disks st)), b_log := b_log st @ [Dev_write 0 lba bs]\<rparr>"
  have d: "device_for_index 0 s = Some image_device" if "image_state s" for s
    using that by (simp add: device_for_index_def image_state_def)
  have "request_in_range image_device lba (length bs)" using assms(2,3) by (cases bs) (auto simp: request_in_range_def image_device_def)
  then have w: "write_cached ramdisk_driver h1 0 lba bs st = (True, st')"
    using assms d [OF assms(1)]
    by (simp add: write_cached_def disk_level_write_cached_def ops_write_def image_state_def st'_def ramdisk_driver_def
        ramdisk_write_op_def)
  have i: "image_state st'" using assms by (simp add: image_state_def st'_def ramdisk_write_op_def)
  have f: "block_flush ramdisk_driver h2 0 st' = (True, st')"
    using d [OF i] by (simp add: block_flush_def disk_level_flush_def)
  have "drain_all ramdisk_driver st' = (True, st')"
    using i by (simp add: drain_all_def drain_queue.simps image_state_def)
  then show ?thesis using w f i d [OF i] by (simp add: block_write_def block_sync_def)
qed

lemma image_read: "image_state st \<Longrightarrow> n \<noteq> 0 \<Longrightarrow> lba + n \<le> 4163 \<Longrightarrow> block_read ramdisk_driver 0 lba n st \<noteq> None"
  by (auto simp: block_read_def disk_level_read_def device_for_index_def image_state_def request_in_range_def ramdisk_driver_def ramdisk_read_op_def)

lemma image_writes:
  "image_state st \<Longrightarrow> \<forall>(lba, bs)\<in>set plan. bs \<noteq> [] \<and> unat lba + length bs \<le> 4163 \<Longrightarrow>
   \<exists>st'. write_all (block_io_write ramdisk_driver h1 h2 0) plan st = (True, st') \<and> image_state st'"
proof (induction plan arbitrary: st)
  case (Cons p plan)
  obtain lba bs where p: "p = (lba, bs)" by (cases p)
  from image_write [OF Cons.prems(1), of bs "unat lba" h1 h2] Cons.prems(2) p
  obtain st1 where "block_io_write ramdisk_driver h1 h2 0 lba bs st = (True, st1)" "image_state st1" by (auto simp: block_io_write_def)
  then show ?case using Cons.IH [of st1] Cons.prems(2) p by auto
qed simp

lemma image_inv: "device_inv image_view 0 0 0 image_example"
proof -
  have p: "is_disk image_example i \<longleftrightarrow> i = 0" for i
    by (auto simp: is_disk_def image_example_def block_example_def context_of_def)
  have "block_inv image_view image_example" unfolding block_inv_def using p
    by (auto simp: image_example_def block_example_def head_written_def queued_sectors_def slice_ok_def)
  then show ?thesis using p by (simp add: device_inv_def place_def device_for_index_def)
    (simp add: image_example_def block_example_def)
qed

definition example_entry :: "u16 \<Rightarrow> gpt_entry" where
  "example_entry c = zero_entry\<lparr>ge_type_guid := sxdisk_type_sxfs, ge_first := 2048, ge_last := 4095, ge_name := c # replicate 35 0\<rparr>"

definition gpt_example :: "u16 \<Rightarrow> gpt" where
  "gpt_example c = \<lparr>g_disk_sectors = 4163, g_first_usable = 34, g_last_usable = 4129, g_disk_guid = zero_guid, g_from_backup = False,
     g_entries = example_entry c # replicate 127 zero_entry\<rparr>"

lemma gpt_example_wf: "gpt_wf (gpt_example c)"
  by (auto simp: gpt_wf_def gpt_example_def zero_guid_def entries_wf_def ENTRY_COUNT_def entry_wf_def example_entry_def zero_entry_def
      sxdisk_type_sxfs_def NAME_UNITS_def MIN_DISK_SECTORS_def array_sectors ALIGN_SECTORS_def)

lemma gpt_example_written:
  obtains st' where "sxdisk_gpt_write (gpt_example c) (block_io ramdisk_driver True True 0) image_example = (None, st')" "image_state st'"
proof -
  have "sectors_of (array_bytes (g_entries (gpt_example c))) \<noteq> [] \<and> length (sectors_of (array_bytes (g_entries (gpt_example c)))) = 32"
    using plan_room(1) [OF gpt_example_wf, of c] by (auto simp: array_sectors)
  then have "\<forall>(lba, bs)\<in>set (gpt_plan (gpt_example c) old). bs \<noteq> [] \<and> unat lba + length bs \<le> 4163" for old
    by (auto simp: gpt_plan_def Let_def array_sectors) (simp_all add: gpt_example_def)
  note plan = this
  obtain s where s: "block_io_read ramdisk_driver 0 0 1 image_example = Some s"
    using image_read [OF image_example_state, of 1 0] by (auto simp: block_io_read_def)
  obtain st' where "write_all (block_io_write ramdisk_driver True True 0) (gpt_plan (gpt_example c) (concat s)) image_example = (True, st')"
    "image_state st'" using image_writes [OF image_example_state plan] by blast
  then have "sxdisk_gpt_write (gpt_example c) (block_io ramdisk_driver True True 0) image_example = (None, st')" "image_state st'"
    using s gpt_example_wf [of c] by (simp_all add: sxdisk_gpt_write_def block_io_def gpt_wf_def leD)
  then show ?thesis by (rule that)
qed

section \<open>Properties\<close>

text \<open>C10. Round trip through the block layer: after the library has written a table to a disk or a
  partition, reading it back gives the same table, from the primary copy, unless the read itself
  fails.\<close>

theorem gpt_roundtrip:
  assumes "disk_medium D view" and "device_inv view i j base st" and "gpt_wf g"
    and "sxdisk_gpt_write g (block_io D h1 h2 i) st = (None, st')"
  shows "sxdisk_gpt_read (g_disk_sectors g) (block_io D h1 h2 i) st' \<in> {Inl ERR_IO, Inr (g\<lparr>g_from_backup := False\<rparr>)}"
proof -
  note med = disk_medium.device_medium [OF assms(1), of i h1 h2 j base]
  have "io_read (block_io D h1 h2 i) = Some (block_io_read D i)" "io_write (block_io D h1 h2 i) = Some (block_io_write D h1 h2 i)"
    by (simp_all add: block_io_def)
  then show ?thesis using sxdisk_medium.write_copies [OF med assms(2-4)] by (intro sxdisk_medium.read_back [OF med _ assms(3)]) auto
qed
theorem gpt_roundtrip_witness:
  "\<exists>st'. sxdisk_gpt_write (gpt_example 0x41) (block_io ramdisk_driver True True 0) image_example = (None, st') \<and>
     sxdisk_gpt_read 4163 (block_io ramdisk_driver True True 0) st' \<in> {Inl ERR_IO, Inr (gpt_example 0x41)}"
proof -
  obtain st' where "sxdisk_gpt_write (gpt_example 0x41) (block_io ramdisk_driver True True 0) image_example = (None, st')"
    by (rule gpt_example_written)
  then show ?thesis using gpt_roundtrip [OF ramdisk.disk_medium_axioms image_inv gpt_example_wf] by (fastforce simp: gpt_example_def)
qed

text \<open>C12. The kernel and the library agree: after the library has written a table to a disk, the
  kernel's reader, if it can read the sectors, accepts the primary copy, and the partition it makes
  of entry \<open>k\<close> has the start, length, number, type and GUID of the library's entry \<open>k\<close>, for every
  used entry that ends below the 32-bit limit of the kernel.\<close>

theorem kernel_reads_library_table:
  assumes "disk_medium D view" and "device_inv view i j base st" and "gpt_wf g"
    and "sxdisk_gpt_write g (block_io D h1 h2 i) st = (None, st')"
    and "block_read D i 1 1 st' \<noteq> None" and "block_read D i 2 ARRAY_SECTORS st' \<noteq> None"
    and "k < ENTRY_COUNT" and "sxdisk_entry_in_use (g_entries g ! k)"
    and "0 < ge_first (g_entries g ! k)" and "ge_first (g_entries g ! k) \<le> ge_last (g_entries g ! k)" and "ge_last (g_entries g ! k) \<le> 0xffffffff"
  shows "\<exists>h entries info. load_gpt D i (unat (g_disk_sectors g)) 1 st' = Some (h, entries) \<and> gh_disk_guid h = g_disk_guid g \<and>
    gh_entry_count h = of_nat ENTRY_COUNT \<and> gh_entry_size h = of_nat ENTRY_SIZE \<and>
    gpt_entry_info k (drop (k * ENTRY_SIZE) entries) = Some info \<and> pt_number info = k + 1 \<and>
    pt_start info = unat (ge_first (g_entries g ! k)) \<and>
    pt_start info + pt_count info = unat (ge_last (g_entries g ! k)) + 1 \<and>
    pt_type_guid info = ge_type_guid (g_entries g ! k) \<and> pt_unique_guid info = ge_unique_guid (g_entries g ! k)"
proof -
  note med = disk_medium.device_medium [OF assms(1), of i h1 h2 j base]
  have c: "device_inv view i j base st'" "copy_at (device_view view j base st') g 1 (backup_lba g) 2"
    using sxdisk_medium.write_copies [OF med assms(2-4)] by (simp_all add: block_io_def)
  have wf: "length (g_disk_guid g) = 16" "entries_wf (g_entries g)" "MIN_DISK_SECTORS \<le> g_disk_sectors g" using assms(3) by (simp_all add: gpt_wf_def)
  obtain s es where s: "block_read D i 1 1 st' = Some s" and es: "block_read D i 2 ARRAY_SECTORS st' = Some es" using assms(5,6) by blast
  have head: "s = [build_header g 1 (backup_lba g) 2 (sx_crc32 (array_bytes (g_entries g)))]"
    using disk_medium.device_read [OF assms(1) c(1) s] c(2) by (simp add: copy_at_def)
  have "es = sectors_of (array_bytes (g_entries g))"
    using disk_medium.device_read [OF assms(1) c(1) es] c(2) unfolding copy_at_def unat_small by simp
  then have array: "concat es = array_bytes (g_entries g)" using sectors_of_concat [OF length_entries [OF wf(2)]] by simp
  have "2 + ARRAY_SECTORS \<le> unat (g_disk_sectors g)" using disk_bounds(3) [OF wf(3)] by (simp add: array_sectors)
  from load_gpt_header [OF wf(1) s [unfolded head] es array length_entries [OF wf(2)] this]
  show ?thesis using kernel_entry [OF wf(2) assms(7) refl] assms(8-11) kernel_extent [OF assms(9-11)] by simp
qed

theorem kernel_reads_library_table_witness:
  "\<exists>st' h entries info. sxdisk_gpt_write (gpt_example 0x41) (block_io ramdisk_driver True True 0) image_example = (None, st') \<and>
     load_gpt ramdisk_driver 0 4163 1 st' = Some (h, entries) \<and> gpt_entry_info 0 entries = Some info \<and>
     pt_start info = 2048 \<and> pt_count info = 2048 \<and> pt_type_guid info = sxdisk_type_sxfs"
proof -
  obtain st' where w: "sxdisk_gpt_write (gpt_example 0x41) (block_io ramdisk_driver True True 0) image_example = (None, st')" "image_state st'"
    by (rule gpt_example_written)
  have e: "g_entries (gpt_example 0x41) ! 0 = example_entry 0x41" "g_disk_sectors (gpt_example 0x41) = 4163" by (simp_all add: gpt_example_def)
  have u: "sxdisk_entry_in_use (example_entry 0x41)" "ge_first (example_entry 0x41) = 2048" "ge_last (example_entry 0x41) = 4095"
    "ge_type_guid (example_entry 0x41) = sxdisk_type_sxfs"
    by (simp_all add: example_entry_def sxdisk_entry_in_use_def sxdisk_guid_is_zero_def sxdisk_type_sxfs_def)
  have r: "block_read ramdisk_driver 0 1 1 st' \<noteq> None" "block_read ramdisk_driver 0 2 ARRAY_SECTORS st' \<noteq> None"
    using image_read [OF w(2)] by (simp_all add: array_sectors)
  have "\<exists>h entries info. load_gpt ramdisk_driver 0 (unat (4163 :: u64)) 1 st' = Some (h, entries) \<and> gh_disk_guid h = g_disk_guid (gpt_example 0x41) \<and>
    gh_entry_count h = of_nat ENTRY_COUNT \<and> gh_entry_size h = of_nat ENTRY_SIZE \<and>
    gpt_entry_info 0 (drop (0 * ENTRY_SIZE) entries) = Some info \<and> pt_number info = 0 + 1 \<and> pt_start info = unat (2048 :: u64) \<and>
    pt_start info + pt_count info = unat (4095 :: u64) + 1 \<and> pt_type_guid info = sxdisk_type_sxfs \<and> pt_unique_guid info = ge_unique_guid (example_entry 0x41)"
    using kernel_reads_library_table [OF ramdisk.disk_medium_axioms image_inv gpt_example_wf w(1) r, of 0] u unfolding e by (simp add: ENTRY_COUNT_def)
  then show ?thesis using w(1) by auto
qed

text \<open>C7. An interrupted write keeps a table: if power fails after any number of sectors while a new
  table replaces one whose primary copy is valid, the next read returns the old table, or the
  new one, from its primary or its backup copy. The exception is an array of which some sectors
  were replaced and whose CRC is nevertheless that of the old array.\<close>

theorem gpt_write_interrupted:
  assumes "gpt_wf g0" and "gpt_wf g" and "g_disk_sectors g = g_disk_sectors g0" and "copy_at f g0 1 alternate 2"
    and "sxdisk_gpt_write g dying_io (f, k) = (r, d')"
  shows "sxdisk_gpt_read (g_disk_sectors g) dying_io d' \<in>
      {Inr (g0\<lparr>g_from_backup := False\<rparr>), Inr (g\<lparr>g_from_backup := False\<rparr>), Inr (g\<lparr>g_from_backup := True\<rparr>)} \<or>
    (\<exists>j\<le>ARRAY_SECTORS. mixed g g0 j \<noteq> array_bytes (g_entries g0) \<and> sx_crc32 (mixed g g0 j) = sx_crc32 (array_bytes (g_entries g0)))"
  by (rule interrupted_write [OF assms])

definition disk_example :: "nat \<Rightarrow> sector" where
  "disk_example = after_plan (\<lambda>_. []) (gpt_plan (gpt_example 0x41) [])"

lemma disk_example_copies:
  "copy_at disk_example (gpt_example 0x41) 1 4162 2" "copy_at disk_example (gpt_example 0x41) 4162 1 (4162 - of_nat ARRAY_SECTORS)"
  using plan_copies [OF gpt_example_wf [of "0x41"], where f = "\<lambda>_. []" and old = "[]"] by (simp_all add: disk_example_def) (simp_all add: gpt_example_def)

theorem gpt_write_interrupted_witness:
  "sxdisk_gpt_read 4163 dying_io (snd (sxdisk_gpt_write (gpt_example 0x42) dying_io (disk_example, 40))) \<in>
     {Inr (gpt_example 0x41), Inr (gpt_example 0x42), Inr ((gpt_example 0x42)\<lparr>g_from_backup := True\<rparr>)} \<or>
   (\<exists>j. j \<le> ARRAY_SECTORS \<and> mixed (gpt_example 0x42) (gpt_example 0x41) j \<noteq> array_bytes (g_entries (gpt_example 0x41)) \<and>
      sx_crc32 (mixed (gpt_example 0x42) (gpt_example 0x41) j) = sx_crc32 (array_bytes (g_entries (gpt_example 0x41))))"
proof -
  have s: "g_disk_sectors (gpt_example c) = 4163" "(gpt_example c)\<lparr>g_from_backup := False\<rparr> = gpt_example c" for c
    by (simp_all add: gpt_example_def)
  show ?thesis
    using gpt_write_interrupted [where g = "gpt_example 0x42" and k = 40, OF gpt_example_wf gpt_example_wf _ disk_example_copies(1) surjective_pairing]
    by (simp add: s)
qed

text \<open>C35. The same does not hold when the primary copy is already damaged, the case the next write is
  meant to repair: the write starts over the only valid copy. If power fails while, or right
  after, the entries of the backup are written, and before its header is, no copy is valid any
  more, although the table could be read before.\<close>

theorem gpt_repair_can_lose_table:
  assumes "gpt_wf g0" and "gpt_wf g" and "g_disk_sectors g = g_disk_sectors g0" and "j \<le> ARRAY_SECTORS"
    and "take 8 (f 1) \<noteq> efi_part" and "copy_at f g0 (backup_lba g0) 1 (backup_entries_lba g0)"
    and "sx_crc32 (mixed g g0 j) \<noteq> sx_crc32 (array_bytes (g_entries g0))"
  shows "sxdisk_gpt_read (g_disk_sectors g0) dying_io (f, k) = Inr (g0\<lparr>g_from_backup := True\<rparr>) \<and>
    sxdisk_gpt_read (g_disk_sectors g0) dying_io (snd (sxdisk_gpt_write g dying_io (f, 1 + j))) = Inl ERR_INVALID"
  using repair_interrupted [OF assms] by blast

lemma example_bytes: "array_bytes (g_entries (gpt_example c)) =
  (sxdisk_type_sxfs @ zero_guid @ put64 2048 @ put64 4095 @ put64 0) @ ucast c # ucast (drop_bit 8 c) # concat (map put16 (replicate 35 0)) @
    array_bytes (replicate 127 zero_entry)"
  by (simp add: gpt_example_def array_bytes_def entry_bytes_def example_entry_def zero_entry_def put16_def [of c])

theorem gpt_repair_can_lose_table_witness:
  "let f = disk_example(1 := replicate 512 0)
   in sxdisk_gpt_read 4163 dying_io (f, 0) = Inr ((gpt_example 0x41)\<lparr>g_from_backup := True\<rparr>) \<and>
     sxdisk_gpt_read 4163 dying_io (snd (sxdisk_gpt_write (gpt_example 0x42) dying_io (f, 1 + 1))) = Inl ERR_INVALID"
proof -
  let ?f = "disk_example(1 := replicate 512 0)"
  have s: "g_disk_sectors (gpt_example c) = 4163" for c by (simp add: gpt_example_def)
  have "copy_at ?f (gpt_example 0x41) 4162 1 (4162 - of_nat ARRAY_SECTORS) =
    copy_at disk_example (gpt_example 0x41) 4162 1 (4162 - of_nat ARRAY_SECTORS)" by (rule copy_at_cong) (simp_all add: array_sectors)
  then have c: "copy_at ?f (gpt_example 0x41) (backup_lba (gpt_example 0x41)) 1 (backup_entries_lba (gpt_example 0x41))"
    using disk_example_copies(2) by (simp add: s)
  define pre where "pre = sxdisk_type_sxfs @ zero_guid @ put64 2048 @ put64 4095 @ put64 0"
  define post where "post = 0 # concat (map put16 (replicate 35 0)) @ array_bytes (replicate 127 zero_entry)"
  have b: "array_bytes (g_entries (gpt_example 0x41)) = pre @ 0x41 # post" "array_bytes (g_entries (gpt_example 0x42)) = pre @ 0x42 # post"
    by (simp_all add: example_bytes pre_def post_def)
  have l: "length pre = 56" by (simp add: pre_def sxdisk_type_sxfs_def zero_guid_def)
  have "mixed (gpt_example 0x42) (gpt_example 0x41) 1 = pre @ 0x42 # post"
    by (simp add: mixed_take gpt_example_wf array_sectors kSectorSize_def b l drop_Cons')
  then have crc: "sx_crc32 (mixed (gpt_example 0x42) (gpt_example 0x41) 1) \<noteq> sx_crc32 (array_bytes (g_entries (gpt_example 0x41)))"
    by (simp add: b crc32_one_byte)
  have "hd (take 8 (?f 1)) \<noteq> hd efi_part" by (simp add: efi_part_def)
  then have "take 8 (?f 1) \<noteq> efi_part" by metis
  from gpt_repair_can_lose_table [OF gpt_example_wf gpt_example_wf _ _ this c crc, of 0] show ?thesis by (simp add: s array_sectors Let_def)
qed

text \<open>C18. Whatever partitions are added and removed, in any order, a table made by the library is well
  formed and its partitions lie in the usable range of the disk and do not overlap.\<close>

theorem gpt_edits_keep_table:
  assumes "edited io g" and "random_ok io"
  shows "gpt_ok g"
  using assms by (rule edited_ok)

definition empty_example :: gpt where
  "empty_example = (gpt_example 0)\<lparr>g_entries := replicate ENTRY_COUNT zero_entry\<rparr>"

lemma empty_example_ok: "gpt_ok empty_example"
  using gpt_example_wf [of 0] by (auto simp: gpt_ok_def gpt_wf_def empty_example_def entries_wf_def gpt_example_def)

lemma dying_random: "random_ok dying_io"
  by (simp add: random_ok_def dying_io_def)

lemma sxfs_type: "\<not> sxdisk_guid_is_zero sxdisk_type_sxfs" "length sxdisk_type_sxfs = 16"
  by (simp_all add: sxdisk_guid_is_zero_def sxdisk_type_sxfs_def)

theorem gpt_edits_keep_table_witness:
  "\<exists>g d. sxdisk_gpt_init 4163 dying_io d = (Inr g, d) \<and>
     (\<exists>g'. sxdisk_gpt_add g 2048 2048 sxdisk_type_sxfs None dying_io d = (Inr (g', 1), d) \<and> gpt_ok g')"
proof -
  fix d :: dying
  obtain guid where guid: "new_guid dying_io d = (guid, d)" by (simp add: new_guid_def dying_io_def Let_def)
  define g where "g = zero_gpt\<lparr>g_disk_sectors := 4163, g_first_usable := 34, g_last_usable := 4129, g_disk_guid := guid\<rparr>"
  have init: "sxdisk_gpt_init 4163 dying_io d = (Inr g, d)"
    using guid by (simp add: sxdisk_gpt_init_def g_def array_sectors_end_def array_sectors MIN_DISK_SECTORS_def ALIGN_SECTORS_def)
  have e: "g_entries g = replicate ENTRY_COUNT zero_entry" by (simp add: g_def zero_gpt_def)
  have "fst (sxdisk_gpt_add g 2048 2048 sxdisk_type_sxfs None dying_io d) \<in> range (\<lambda>g'. Inr (g', 1))"
    by (subst add_result) (simp_all add: e sxfs_type fits_def, simp_all add: g_def ENTRY_COUNT_def takeWhile_replicate list_all_iff)
  then obtain g' where "fst (sxdisk_gpt_add g 2048 2048 sxdisk_type_sxfs None dying_io d) = Inr (g', 1)" by blast
  then obtain d' where a: "sxdisk_gpt_add g 2048 2048 sxdisk_type_sxfs None dying_io d = (Inr (g', 1), d')" by (cases "sxdisk_gpt_add g 2048 2048 sxdisk_type_sxfs None dying_io d") simp
  have "d' = d" using a guid by (auto simp: sxdisk_gpt_add_def Let_def split: if_splits sum.splits)
  moreover have "edited dying_io g'" using a init sxfs_type by (blast intro: edited.intros)
  ultimately show ?thesis using init a gpt_edits_keep_table [OF _ dying_random] by blast
qed

text \<open>What adding a partition does: it fails with no-space exactly when the range leaves the usable
  range or touches a partition, with full exactly when it fits and all entries are used, and
  otherwise fills the first unused entry and changes no other.\<close>

theorem gpt_add_decides:
  assumes "length (g_entries g) = ENTRY_COUNT" and "\<not> sxdisk_guid_is_zero type_guid" and "count \<noteq> 0"
  shows "fst (sxdisk_gpt_add g first count type_guid name io d) =
    (if \<not> fits g first (first + count - 1) then Inl ERR_NO_SPACE
     else if list_all sxdisk_entry_in_use (g_entries g) then Inl ERR_FULL
     else let slot = length (takeWhile sxdisk_entry_in_use (g_entries g)) in
       Inr (g\<lparr>g_entries := (g_entries g)[slot := sxdisk_entry_set_name (zero_entry\<lparr>ge_type_guid := type_guid,
         ge_unique_guid := fst (new_guid io d), ge_first := first, ge_last := first + count - 1\<rparr>) name]\<rparr>, slot + 1))"
  by (rule add_result [OF assms])

theorem gpt_add_decides_witness:
  "fst (sxdisk_gpt_add (gpt_example 0x41) 2047 2 sxdisk_type_sxfs None dying_io (\<lambda>_. [], 0)) = Inl ERR_NO_SPACE \<and>
   map_sum id snd (fst (sxdisk_gpt_add (gpt_example 0x41) 34 100 sxdisk_type_sxfs None dying_io (\<lambda>_. [], 0))) = Inr 2"
proof -
  have g: "g_entries (gpt_example 0x41) = example_entry 0x41 # replicate 127 zero_entry" "length (g_entries (gpt_example 0x41)) = ENTRY_COUNT"
    by (simp_all add: gpt_example_def ENTRY_COUNT_def)
  have u: "sxdisk_entry_in_use (example_entry 0x41)" "ge_first (example_entry 0x41) = 2048" "ge_last (example_entry 0x41) = 4095"
    by (simp_all add: example_entry_def sxdisk_entry_in_use_def sxfs_type)
  have b: "g_first_usable (gpt_example 0x41) = 34" "g_last_usable (gpt_example 0x41) = 4129" by (simp_all add: gpt_example_def)
  have "\<not> fits (gpt_example 0x41) 2047 2048" "fits (gpt_example 0x41) 34 133" by (simp_all add: fits_def g(1) u b)
  then show ?thesis
    using gpt_add_decides [OF g(2) sxfs_type(1), of 2 2047 None dying_io "(\<lambda>_. [], 0)"]
      gpt_add_decides [OF g(2) sxfs_type(1), of 100 34 None dying_io "(\<lambda>_. [], 0)"] by (simp add: g(1) u Let_def takeWhile_replicate list_all_iff)
qed

text \<open>C28. The free ranges reported are exactly the usable ones: each starts on a 1 MiB boundary, has at
  least 1 MiB, and can be given to a new partition as it is; and every free aligned 1 MiB block of
  the usable range lies in one of them.\<close>

theorem gpt_free_extents_exact:
  assumes "gpt_ok g" and "unat (g_last_usable g) + 2048 < 2 ^ 64" and "sxdisk_gpt_free_extents g capacity = (found, out)" and "found \<le> capacity"
    and "2048 dvd unat x"
  shows "list_all (\<lambda>(first, count). 2048 dvd unat first \<and> 2048 \<le> unat count \<and> fits g first (first + count - 1)) out \<and>
    fits g x (x + 2047) = list_ex (\<lambda>(first, count). first \<le> x \<and> unat x + 2048 \<le> unat first + unat count) out"
proof -
  define es where "es = extents_from (g_last_usable g) (g_first_usable g) (sorted_entries g)"
  have out: "out = es" using assms(3,4) by (auto simp: sxdisk_gpt_free_extents_def Let_def es_def)
  have "fits g x (x + 2047)" if "(first, count) \<in> set es" "first \<le> x" "unat x + 2048 \<le> unat first + unat count" for first count
    using fits_inside that extent_free [OF assms(1,2)] es_def by blast
  then show ?thesis using extent_free [OF assms(1,2)] free_extent_found [OF assms(1,2,5)] es_def out
    by (auto simp: list_all_iff list_ex_iff)
qed

lemma no_entries: "foldl (\<lambda>out e. if sxdisk_entry_in_use e then insert_entry e out else out) [] (replicate n zero_entry) = []"
  by (induction n) simp_all

theorem gpt_free_extents_exact_witness:
  "sxdisk_gpt_free_extents empty_example 8 = (1, [(2048, 2082)]) \<and> fits empty_example 2048 (2048 + 2047)"
proof -
  have b: "g_first_usable empty_example = 34" "g_last_usable empty_example = 4129" "sorted_entries empty_example = []"
    by (simp_all add: empty_example_def gpt_example_def sorted_entries_def no_entries)
  have f: "sxdisk_gpt_free_extents empty_example 8 = (1, [(2048, 2082)])"
    by (simp add: sxdisk_gpt_free_extents_def b extents_step sxdisk_align_up_def ALIGN_SECTORS_def)
  show ?thesis using gpt_free_extents_exact [OF empty_example_ok _ f, of 2048] f by (simp add: b)
qed

end
