(* ===== verification/Fs_Mounts.thy ===== *)
theory Fs_Mounts
  imports Sx_Prelude
begin

text \<open>
  \<^verbatim>\<open>kernel/fs.cpp\<close> and \<^verbatim>\<open>kernel/fs_path.cpp\<close>: the registry of file systems, the table of mounted
  volumes and the arithmetic of mount points. A file system driver is a record of its operations,
  which act on a state \<open>'w\<close> the registry does not look into: the block devices, the driver's own
  volumes and the VFS tree. The VFS calls that \<^verbatim>\<open>fs::release\<close> makes are the fields of \<open>vfs_env\<close>.
\<close>

section \<open>Paths\<close>

definition path_below :: "string \<Rightarrow> string \<Rightarrow> string option" where
  "path_below mount_point path =
     (if path = [] \<or> hd path \<noteq> CHR ''/'' then None
      else if mount_point = ''/'' then Some (if tl path = [] then [] else path)
      else if take (length mount_point) path \<noteq> mount_point \<or>
        (length mount_point < length path \<and> path ! length mount_point \<noteq> CHR ''/'') then None
      else Some (drop (length mount_point) path))"

definition join_mount_path :: "string \<Rightarrow> string \<Rightarrow> nat \<Rightarrow> string option" where
  "join_mount_path mount_point relative capacity =
     (if capacity = 0 then None
      else
        let prefix = (if mount_point = ''/'' then 0 else length mount_point) in
        if relative = [] then (if capacity < length mount_point + 1 then None else Some mount_point)
        else if capacity < prefix + 1 + length relative + 1 then None
        else Some (take prefix mount_point @ CHR ''/'' # relative))"

definition kDeviceRoot :: string where "kDeviceRoot = ''/dev''"
definition kRescueRoot :: string where "kRescueRoot = ''/rescue''"

definition is_memory_path :: "string \<Rightarrow> bool" where
  "is_memory_path path =
     list_ex (\<lambda>root. take (length root) path = root \<and> (length path = length root \<or> path ! length root = CHR ''/''))
       [kDeviceRoot, kRescueRoot]"

section \<open>Drivers and mounts\<close>

definition kFsMaxDrivers :: nat where "kFsMaxDrivers = 4"
definition kMaxMounts :: nat where "kMaxMounts = 4"
definition kMountPointCapacity :: nat where "kMountPointCapacity = 32"
definition kRootMountPoint :: string where "kRootMountPoint = ''/''"
definition kBootMountPoint :: string where "kBootMountPoint = ''/boot''"

record fs_owner =
  ow_uid :: u32
  ow_gid :: u32

record volume_stats =
  vs_writable :: bool
  vs_file_count :: nat
  vs_total_bytes :: u64
  vs_used_bytes :: u64
  vs_free_bytes :: u64

record 'w fs_driver =
  fd_name :: string
  fd_priority :: int
  fd_can_be_root :: bool
  fd_probe :: "(nat \<Rightarrow> string \<Rightarrow> 'w \<Rightarrow> nat option \<times> 'w) option"
  fd_attach :: "(nat \<Rightarrow> 'w \<Rightarrow> bool \<times> 'w) option"
  fd_unmount :: "(nat \<Rightarrow> 'w \<Rightarrow> 'w) option"
  fd_has_read :: bool
  fd_has_refresh :: bool
  fd_stats :: "(nat \<Rightarrow> 'w \<Rightarrow> volume_stats option) option"
  fd_sync :: "(nat \<Rightarrow> 'w \<Rightarrow> bool \<times> 'w) option"
  fd_adopt_owner :: "(nat \<Rightarrow> fs_owner \<Rightarrow> 'w \<Rightarrow> 'w) option"

record fs_mount =
  mt_in_use :: bool
  mt_driver :: nat
  mt_volume :: nat
  mt_device :: nat
  mt_point :: string
  mt_attached :: bool

definition zero_mount :: fs_mount where
  "zero_mount = \<lparr>mt_in_use = False, mt_driver = 0, mt_volume = 0, mt_device = 0, mt_point = [], mt_attached = False\<rparr>"

record 'w fs_state =
  f_drivers :: "'w fs_driver list"
  f_mounts :: "fs_mount list"
  f_mount_count :: nat
  f_generation :: u32
  f_world :: 'w

datatype node_type = Node_directory | Node_file

record 'w vfs_env =
  ve_resolve :: "string \<Rightarrow> 'w \<Rightarrow> node_type option"
  ve_mkdir :: "string \<Rightarrow> 'w \<Rightarrow> node_type option \<times> 'w"
  ve_detach :: "string \<Rightarrow> bool \<Rightarrow> 'w \<Rightarrow> bool \<times> 'w"
  ve_last_error :: "'w \<Rightarrow> int"

definition copy_mount_point :: "string \<Rightarrow> string option" where
  "copy_mount_point mount_point =
     (if mount_point = [] \<or> hd mount_point \<noteq> CHR ''/'' then None
      else if kMountPointCapacity \<le> length mount_point then None else Some mount_point)"

text \<open>The best driver not tried yet: the first of the highest priority.\<close>

definition next_driver :: "'w fs_driver list \<Rightarrow> bool list \<Rightarrow> nat option" where
  "next_driver drivers tried =
     foldl (\<lambda>best i.
       if tried ! i then best
       else case best of
         None \<Rightarrow> Some i
       | Some b \<Rightarrow> if fd_priority (drivers ! b) < fd_priority (drivers ! i) then Some i else Some b)
     None [0..<length drivers]"

definition fs_initialize :: "'w fs_state \<Rightarrow> 'w fs_state" where
  "fs_initialize s = s\<lparr>f_mounts := replicate kMaxMounts zero_mount, f_mount_count := 0\<rparr>"

definition fs_register_driver :: "'w fs_driver \<Rightarrow> 'w fs_state \<Rightarrow> bool \<times> 'w fs_state" where
  "fs_register_driver d s =
     (if kFsMaxDrivers \<le> length (f_drivers s) \<or> fd_probe d = None \<or> fd_attach d = None \<or> \<not> fd_has_read d \<or> \<not> fd_has_refresh d
      then (False, s) else (True, s\<lparr>f_drivers := f_drivers s @ [d]\<rparr>))"

definition fs_find :: "string \<Rightarrow> 'w fs_state \<Rightarrow> nat option" where
  "fs_find mount_point s = find_slot (\<lambda>m. mt_in_use m \<and> mt_point m = mount_point) (take (f_mount_count s) (f_mounts s))"

fun try_drivers ::
  "nat \<Rightarrow> string \<Rightarrow> string option \<Rightarrow> fs_owner option \<Rightarrow> nat \<Rightarrow> bool list \<Rightarrow> nat \<Rightarrow> 'w fs_state \<Rightarrow> nat option \<times> 'w fs_state" where
  "try_drivers device point driver_name own slot tried 0 s = (None, s)"
| "try_drivers device point driver_name own slot tried (Suc attempts) s =
     (case next_driver (f_drivers s) tried of
        None \<Rightarrow> (None, s)
      | Some i \<Rightarrow>
          let d = f_drivers s ! i; tried' = tried[i := True] in
          if (point = kRootMountPoint \<and> \<not> fd_can_be_root d) \<or> (driver_name \<noteq> None \<and> driver_name \<noteq> Some (fd_name d))
          then try_drivers device point driver_name own slot tried' attempts s
          else case the (fd_probe d) device point (f_world s) of
            (None, w) \<Rightarrow> try_drivers device point driver_name own slot tried' attempts (s\<lparr>f_world := w\<rparr>)
          | (Some volume, w) \<Rightarrow>
              let w1 = (case (own, fd_adopt_owner d) of (Some o1, Some adopt) \<Rightarrow> adopt volume o1 w | _ \<Rightarrow> w) in
              (Some slot, s\<lparr>f_mounts := (f_mounts s)[slot := \<lparr>mt_in_use = True, mt_driver = i, mt_volume = volume,
                   mt_device = device, mt_point = point, mt_attached = False\<rparr>],
                 f_mount_count := (if f_mount_count s < slot + 1 then slot + 1 else f_mount_count s),
                 f_generation := f_generation s + 1, f_world := w1\<rparr>))"

definition fs_mount ::
  "nat \<Rightarrow> string \<Rightarrow> string option \<Rightarrow> fs_owner option \<Rightarrow> 'w fs_state \<Rightarrow> nat option \<times> 'w fs_state" where
  "fs_mount device mount_point driver_name own s =
     (if fs_find mount_point s \<noteq> None then (None, s)
      else case find_slot (\<lambda>m. \<not> mt_in_use m) (f_mounts s) of
        None \<Rightarrow> (None, s)
      | Some slot \<Rightarrow>
          (case copy_mount_point mount_point of
             None \<Rightarrow> (None, s)
           | Some point \<Rightarrow>
               (case try_drivers device point driver_name own slot (replicate (length (f_drivers s)) False) (length (f_drivers s)) s of
                  (Some r, s1) \<Rightarrow> (Some r, s1)
                | (None, s1) \<Rightarrow> (None, s1\<lparr>f_mounts := (f_mounts s1)[slot := (f_mounts s1 ! slot)\<lparr>mt_point := []\<rparr>]\<rparr>))))"

definition fs_live :: "nat \<Rightarrow> 'w fs_state \<Rightarrow> bool" where
  "fs_live i s \<longleftrightarrow> i < f_mount_count s \<and> mt_in_use (f_mounts s ! i)"

definition fs_attach :: "nat \<Rightarrow> 'w fs_state \<Rightarrow> bool \<times> 'w fs_state" where
  "fs_attach i s =
     (if \<not> fs_live i s then (False, s)
      else
        let m = f_mounts s ! i in
        if mt_attached m then (True, s)
        else case the (fd_attach (f_drivers s ! mt_driver m)) (mt_volume m) (f_world s) of
          (ok, w) \<Rightarrow> (ok, s\<lparr>f_mounts := (f_mounts s)[i := m\<lparr>mt_attached := ok\<rparr>], f_world := w\<rparr>))"

fun mounts_end :: "fs_mount list \<Rightarrow> nat \<Rightarrow> nat" where
  "mounts_end ms 0 = 0"
| "mounts_end ms (Suc n) = (if mt_in_use (ms ! n) then Suc n else mounts_end ms n)"

definition fs_release :: "'w vfs_env \<Rightarrow> nat \<Rightarrow> bool \<Rightarrow> 'w fs_state \<Rightarrow> int \<times> 'w fs_state" where
  "fs_release env i checked s =
     (if \<not> fs_live i s then (- SX_EINVAL, s)
      else
        let m = f_mounts s ! i; d = f_drivers s ! mt_driver m in
        if mt_point m = kRootMountPoint \<or> fd_unmount d = None then (- SX_EINVAL, s)
        else
          let (synced, w) = (case fd_sync d of
                Some sync \<Rightarrow> if mt_attached m then sync (mt_volume m) (f_world s) else (True, f_world s)
              | None \<Rightarrow> (True, f_world s))
          in if \<not> synced then (- SX_EIO, s\<lparr>f_world := w\<rparr>)
             else case ve_detach env (mt_point m) checked w of
               (detached, w1) \<Rightarrow>
                 if \<not> detached \<and> (mt_attached m \<or> ve_last_error env w1 \<noteq> SX_EINVAL)
                 then (- ve_last_error env w1, s\<lparr>f_world := w1\<rparr>)
                 else
                   let ms = (f_mounts s)[i := zero_mount] in
                   (0, s\<lparr>f_mounts := ms, f_mount_count := mounts_end ms (f_mount_count s), f_generation := f_generation s + 1,
                      f_world := the (fd_unmount d) (mt_volume m) w1\<rparr>))"

definition fs_mount_info :: "nat \<Rightarrow> 'w fs_state \<Rightarrow> fs_mount option" where
  "fs_mount_info i s = (if fs_live i s then Some (f_mounts s ! i) else None)"

definition owner_step :: "string \<Rightarrow> 'w fs_state \<Rightarrow> nat option \<times> nat \<Rightarrow> nat \<Rightarrow> nat option \<times> nat" where
  "owner_step path s = (\<lambda>(best, best_length) i.
     let m = f_mounts s ! i in
     if \<not> mt_in_use m \<or> \<not> mt_attached m \<or> path_below (mt_point m) path = None then (best, best_length)
     else if best = None \<or> best_length < length (mt_point m) then (Some i, length (mt_point m))
     else (best, best_length))"

definition owner_of :: "string \<Rightarrow> 'w fs_state \<Rightarrow> nat option" where
  "owner_of path s =
     (if is_memory_path path then None else fst (foldl (owner_step path s) (None, 0) [0..<f_mount_count s]))"

definition fs_stats :: "nat \<Rightarrow> 'w fs_state \<Rightarrow> volume_stats option" where
  "fs_stats i s =
     (if \<not> fs_live i s then None
      else case fd_stats (f_drivers s ! mt_driver (f_mounts s ! i)) of
        None \<Rightarrow> None
      | Some stats \<Rightarrow> stats (mt_volume (f_mounts s ! i)) (f_world s))"

definition fs_sync :: "nat \<Rightarrow> 'w fs_state \<Rightarrow> bool \<times> 'w fs_state" where
  "fs_sync i s =
     (if \<not> fs_live i s then (False, s)
      else case fd_sync (f_drivers s ! mt_driver (f_mounts s ! i)) of
        None \<Rightarrow> (True, s)
      | Some sync \<Rightarrow> (case sync (mt_volume (f_mounts s ! i)) (f_world s) of (ok, w) \<Rightarrow> (ok, s\<lparr>f_world := w\<rparr>)))"

definition fs_sync_all :: "'w fs_state \<Rightarrow> bool \<times> 'w fs_state" where
  "fs_sync_all s =
     foldl (\<lambda>(ok, s) i. if mt_in_use (f_mounts s ! i) then (case fs_sync i s of (done, s1) \<Rightarrow> (ok \<and> done, s1)) else (ok, s))
       (True, s) [0..<f_mount_count s]"

section \<open>Mount point arithmetic\<close>

lemma path_below_SomeD:
  assumes "path_below mount_point path = Some below"
  shows "path = (if mount_point = ''/'' then (if below = [] then ''/'' else below) else mount_point @ below)"
    and "below = [] \<or> hd below = CHR ''/''"
proof -
  show "path = (if mount_point = ''/'' then (if below = [] then ''/'' else below) else mount_point @ below)"
    using assms by (cases path) (auto simp: path_below_def split: if_splits, (metis append_take_drop_id)+)
  show "below = [] \<or> hd below = CHR ''/''"
    using assms by (cases "length mount_point < length path") (auto simp: path_below_def hd_drop_conv_nth split: if_splits)
qed

lemma path_below_joined:
  assumes "mount_point \<noteq> []" and "hd mount_point = CHR ''/''"
  shows "path_below mount_point (if relative = [] then mount_point
      else (if mount_point = ''/'' then [] else mount_point) @ CHR ''/'' # relative)
    = Some (if relative = [] then [] else CHR ''/'' # relative)"
  using assms by (auto simp: path_below_def)

text \<open>C32. Joining a mount point with a path relative to it and asking what lies below the mount point are
  inverse: the join is \<open>path\<close> exactly when what lies below the mount point in \<open>path\<close> is the relative
  path and \<open>path\<close> fits the buffer with its terminator. It fails exactly when the mount point, the
  separator and the relative path do not fit. Everything \<^verbatim>\<open>path_below\<close> returns is of the form the
  join produces: empty, or a slash and a relative path.\<close>

theorem mount_path_roundtrip:
  assumes "mount_point \<noteq> []" and "hd mount_point = CHR ''/''"
  shows "(join_mount_path mount_point relative capacity = Some path \<longleftrightarrow>
      path_below mount_point path = Some (if relative = [] then [] else CHR ''/'' # relative) \<and> length path < capacity) \<and>
    (join_mount_path mount_point relative capacity = None \<longleftrightarrow>
      capacity \<le> (if relative = [] then length mount_point
        else (if mount_point = ''/'' then 0 else length mount_point) + 1 + length relative)) \<and>
    (path_below mount_point path = Some below \<longrightarrow> below = [] \<or> (\<exists>rel. below = CHR ''/'' # rel))"
proof (intro conjI impI)
  let ?p = "if relative = [] then mount_point else (if mount_point = ''/'' then [] else mount_point) @ CHR ''/'' # relative"
  have join: "join_mount_path mount_point relative capacity = (if length ?p < capacity then Some ?p else None)"
    by (simp add: join_mount_path_def Let_def not_less)
  show "join_mount_path mount_point relative capacity = Some path \<longleftrightarrow>
      path_below mount_point path = Some (if relative = [] then [] else CHR ''/'' # relative) \<and> length path < capacity"
    using path_below_joined [OF assms, of relative] path_below_SomeD(1) [of mount_point path] unfolding join by (auto split: if_splits)
  show "join_mount_path mount_point relative capacity = None \<longleftrightarrow>
      capacity \<le> (if relative = [] then length mount_point
        else (if mount_point = ''/'' then 0 else length mount_point) + 1 + length relative)"
    unfolding join by (auto simp: not_less)
  show "below = [] \<or> (\<exists>rel. below = CHR ''/'' # rel)" if "path_below mount_point path = Some below"
    using path_below_SomeD(2) [OF that] by (cases below) simp_all
qed

theorem mount_path_roundtrip_witness:
  "join_mount_path ''/boot'' ''boot/kernel.elf'' 22 = Some ''/boot/boot/kernel.elf'' \<and>
   join_mount_path ''/boot'' ''boot/kernel.elf'' 21 = None \<and> path_below ''/boot'' ''/bootx'' = None"
proof -
  have "path_below ''/boot'' ''/boot/boot/kernel.elf'' = Some ''/boot/kernel.elf''" by (simp add: path_below_def)
  then show ?thesis using mount_path_roundtrip [of "''/boot''" "''boot/kernel.elf''" 22 "''/boot/boot/kernel.elf''"]
      mount_path_roundtrip [of "''/boot''" "''boot/kernel.elf''" 21]
    by (simp add: path_below_def)
qed

section \<open>The owner of a path\<close>

definition contains :: "'w fs_state \<Rightarrow> string \<Rightarrow> nat \<Rightarrow> bool" where
  "contains s path i \<longleftrightarrow> fs_live i s \<and> mt_attached (f_mounts s ! i) \<and> path_below (mt_point (f_mounts s ! i)) path \<noteq> None"

lemma owner_fold:
  assumes "n \<le> f_mount_count s"
  shows "case foldl (owner_step path s) (None, 0) [0..<n] of
    (None, l) \<Rightarrow> \<forall>j<n. \<not> contains s path j
  | (Some i, l) \<Rightarrow> i < n \<and> contains s path i \<and> l = length (mt_point (f_mounts s ! i)) \<and>
      (\<forall>j<n. contains s path j \<longrightarrow> length (mt_point (f_mounts s ! j)) \<le> l)"
  using assms
proof (induction n)
  case (Suc n)
  obtain best l where r: "foldl (owner_step path s) (None, 0) [0..<n] = (best, l)" by fastforce
  have c: "contains s path n \<longleftrightarrow> mt_in_use (f_mounts s ! n) \<and> mt_attached (f_mounts s ! n) \<and> path_below (mt_point (f_mounts s ! n)) path \<noteq> None"
    using Suc.prems by (simp add: contains_def fs_live_def)
  have step: "foldl (owner_step path s) (None, 0) [0..<Suc n] = owner_step path s (best, l) n" using r by simp
  show ?case
  proof (cases "contains s path n \<and> (best = None \<or> l < length (mt_point (f_mounts s ! n)))")
    case True
    then have "foldl (owner_step path s) (None, 0) [0..<Suc n] = (Some n, length (mt_point (f_mounts s ! n)))" using c unfolding step by (auto simp: owner_step_def Let_def)
    then show ?thesis using Suc True r by (auto simp: less_Suc_eq split: option.splits)
  next
    case False
    then have "foldl (owner_step path s) (None, 0) [0..<Suc n] = (best, l)" using c unfolding step by (auto simp: owner_step_def Let_def)
    then show ?thesis using Suc False r by (auto simp: less_Suc_eq split: option.splits)
  qed
qed simp

section \<open>What mounting and releasing change\<close>

text \<open>A relation on worlds that the drivers and the VFS keep.\<close>

definition driver_keeps :: "('w \<Rightarrow> 'w \<Rightarrow> bool) \<Rightarrow> 'w fs_driver \<Rightarrow> bool" where
  "driver_keeps K d \<longleftrightarrow>
     (\<forall>f. fd_probe d = Some f \<longrightarrow> (\<forall>i p w. K w (snd (f i p w)))) \<and> (\<forall>f. fd_attach d = Some f \<longrightarrow> (\<forall>v w. K w (snd (f v w)))) \<and>
     (\<forall>f. fd_unmount d = Some f \<longrightarrow> (\<forall>v w. K w (f v w))) \<and> (\<forall>f. fd_sync d = Some f \<longrightarrow> (\<forall>v w. K w (snd (f v w)))) \<and>
     (\<forall>f. fd_adopt_owner d = Some f \<longrightarrow> (\<forall>v u w. K w (f v u w)))"

definition env_keeps :: "('w \<Rightarrow> 'w \<Rightarrow> bool) \<Rightarrow> 'w vfs_env \<Rightarrow> bool" where
  "env_keeps K env \<longleftrightarrow> (\<forall>p w. K w (snd (ve_mkdir env p w))) \<and> (\<forall>p c w. K w (snd (ve_detach env p c w)) \<and>
     (\<not> fst (ve_detach env p c w) \<longrightarrow> ve_last_error env (snd (ve_detach env p c w)) \<noteq> 0))"

definition fs_ok :: "('w \<Rightarrow> 'w \<Rightarrow> bool) \<Rightarrow> 'w fs_state \<Rightarrow> bool" where
  "fs_ok K s \<longleftrightarrow> length (f_mounts s) = kMaxMounts \<and> f_mount_count s \<le> kMaxMounts \<and>
     (\<forall>i<kMaxMounts. mt_in_use (f_mounts s ! i) \<longrightarrow> i < f_mount_count s \<and> mt_driver (f_mounts s ! i) < length (f_drivers s)) \<and>
     (\<forall>d\<in>set (f_drivers s). driver_keeps K d \<and> fd_probe d \<noteq> None \<and> fd_attach d \<noteq> None)"

definition attached :: "'w fs_state \<Rightarrow> nat \<Rightarrow> bool" where
  "attached s i \<longleftrightarrow> fs_live i s \<and> mt_attached (f_mounts s ! i)"

definition fewer :: "'w fs_state \<Rightarrow> 'w fs_state \<Rightarrow> bool" where
  "fewer s s' \<longleftrightarrow> (\<forall>i. attached s' i \<longrightarrow> attached s i \<and> mt_device (f_mounts s' ! i) = mt_device (f_mounts s ! i))"

lemma fewer_refl: "fewer s s"
  by (simp add: fewer_def)

lemma fewer_trans: "fewer a b \<Longrightarrow> fewer b c \<Longrightarrow> fewer a c"
  by (simp add: fewer_def)

lemma next_driver_less: "next_driver ds tried = Some i \<Longrightarrow> i < length ds"
proof -
  have "\<forall>b. foldl (\<lambda>best i. if tried ! i then best else case best of None \<Rightarrow> Some i
      | Some b \<Rightarrow> if fd_priority (ds ! b) < fd_priority (ds ! i) then Some i else Some b) a is = Some b \<longrightarrow> b \<in> set is \<or> a = Some b" for a "is"
    by (induction "is" arbitrary: a) (force split: option.splits if_splits)+
  then show "next_driver ds tried = Some i \<Longrightarrow> i < length ds" unfolding next_driver_def by fastforce
qed

locale world_relation =
  fixes K :: "'w \<Rightarrow> 'w \<Rightarrow> bool"
  assumes refl: "K w w" and trans: "K a b \<Longrightarrow> K b c \<Longrightarrow> K a c"
begin

lemma try_drivers_spec:
  assumes "fs_ok K s" and "find_slot (\<lambda>m. \<not> mt_in_use m) (f_mounts s) = Some slot"
    and "try_drivers dev p dn own slot tried n s = (r, s')"
  shows "fs_ok K s' \<and> K (f_world s) (f_world s') \<and> fewer s s' \<and>
    (case r of None \<Rightarrow> f_mounts s' = f_mounts s
     | Some k \<Rightarrow> k = slot \<and> fs_live slot s' \<and> mt_device (f_mounts s' ! slot) = dev)"
  using assms
proof (induction n arbitrary: s tried)
  case 0
  then show ?case by (auto simp: refl fewer_refl)
next
  case (Suc n)
  show ?case
  proof (cases "next_driver (f_drivers s) tried")
    case None
    then show ?thesis using Suc.prems by (auto simp: refl fewer_refl)
  next
    case (Some i)
    define d where "d = f_drivers s ! i"
    have i: "i < length (f_drivers s)" by (rule next_driver_less [OF Some])
    then have d: "driver_keeps K d" "fd_probe d \<noteq> None" using Suc.prems(1) by (simp_all add: fs_ok_def d_def)
    obtain probe where probe: "fd_probe d = Some probe" using d(2) by blast
    obtain v w where pr: "probe dev p (f_world s) = (v, w)" by fastforce
    have kw: "K (f_world s) w" using d(1) probe pr unfolding driver_keeps_def by (metis snd_conv)
    show ?thesis
    proof (cases "(p = kRootMountPoint \<and> \<not> fd_can_be_root d) \<or> (dn \<noteq> None \<and> dn \<noteq> Some (fd_name d))")
      case True
      then have "try_drivers dev p dn own slot (tried[i := True]) n s = (r, s')" using Suc.prems(3) Some by (auto simp: d_def Let_def)
      then show ?thesis using Suc.IH Suc.prems(1,2) by blast
    next
      case nd: False
      show ?thesis
      proof (cases v)
        case None
        define s1 where "s1 = s\<lparr>f_world := w\<rparr>"
        have "try_drivers dev p dn own slot (tried[i := True]) n s1 = (r, s')"
          using Suc.prems(3) Some nd probe pr None by (auto simp: d_def [symmetric] s1_def Let_def)
        moreover have "fs_ok K s1" "find_slot (\<lambda>m. \<not> mt_in_use m) (f_mounts s1) = Some slot" using Suc.prems(1,2) by (simp_all add: fs_ok_def s1_def)
        moreover have "fewer s s1" by (simp add: fewer_def attached_def fs_live_def s1_def)
        moreover have "f_world s1 = w" "f_mounts s1 = f_mounts s" by (simp_all add: s1_def)
        ultimately show ?thesis using Suc.IH [of s1] trans [OF kw] fewer_trans [of s s1] by metis
      next
        case (Some volume)
        define w1 where "w1 = (case (own, fd_adopt_owner d) of (Some o1, Some adopt) \<Rightarrow> adopt volume o1 w | _ \<Rightarrow> w)"
        have "K w w1" using d(1) refl by (auto simp: w1_def driver_keeps_def split: option.split)
        define m where "m = \<lparr>mt_in_use = True, mt_driver = i, mt_volume = volume, mt_device = dev, mt_point = p, mt_attached = False\<rparr>"
        have s': "r = Some slot" "s' = s\<lparr>f_mounts := (f_mounts s)[slot := m],
            f_mount_count := (if f_mount_count s < slot + 1 then slot + 1 else f_mount_count s), f_generation := f_generation s + 1, f_world := w1\<rparr>"
          using Suc.prems(3) \<open>next_driver (f_drivers s) tried = Some i\<close> nd probe pr Some by (auto simp: d_def [symmetric] w1_def m_def Let_def)
        note sl = find_slot_SomeD [OF Suc.prems(2)]
        have l: "length (f_mounts s) = kMaxMounts" using Suc.prems(1) by (simp add: fs_ok_def)
        have "fs_ok K s'" using Suc.prems(1) sl i unfolding s' by (auto simp: fs_ok_def m_def nth_list_update)
        moreover have "fewer s s'" using sl Suc.prems(1) l by (auto simp: fewer_def attached_def fs_live_def s' m_def nth_list_update fs_ok_def split: if_splits)
        moreover have "fs_live slot s'" "mt_device (f_mounts s' ! slot) = dev" using sl by (simp_all add: fs_live_def s' m_def)
        ultimately show ?thesis using trans [OF kw \<open>K w w1\<close>] s' by simp
      qed
    qed
  qed
qed

end

lemma mounts_end_spec: "mounts_end ms n \<le> n \<and> (\<forall>i<n. mt_in_use (ms ! i) \<longrightarrow> i < mounts_end ms n)"
  by (induction n) (auto simp: less_Suc_eq)

context world_relation
begin

lemma fs_mount_spec:
  assumes ok: "fs_ok K s" and m: "fs_mount dev p dn own s = (r, s')"
  shows "fs_ok K s' \<and> K (f_world s) (f_world s') \<and> fewer s s' \<and>
    (\<forall>k. r = Some k \<longrightarrow> fs_live k s' \<and> mt_device (f_mounts s' ! k) = dev \<and> \<not> attached s k)"
proof (cases "fs_find p s = None \<and> copy_mount_point p \<noteq> None")
  case False
  then have "r = None \<and> s' = s" using m by (auto simp: fs_mount_def split: option.splits)
  then show ?thesis using ok by (simp add: refl fewer_refl)
next
  case True
  then obtain q where q: "copy_mount_point p = Some q" by blast
  show ?thesis
  proof (cases "find_slot (\<lambda>m. \<not> mt_in_use m) (f_mounts s)")
    case None
    then have "r = None \<and> s' = s" using m True by (simp add: fs_mount_def)
    then show ?thesis using ok by (simp add: refl fewer_refl)
  next
    case (Some slot)
    obtain r1 s1 where t: "try_drivers dev q dn own slot (replicate (length (f_drivers s)) False) (length (f_drivers s)) s = (r1, s1)" by fastforce
    note t' = try_drivers_spec [OF ok Some t] and sl = find_slot_SomeD [OF Some]
    have na: "\<not> attached s slot" using sl by (simp add: attached_def fs_live_def)
    show ?thesis
    proof (cases r1)
      case (Some k)
      then have "r = Some k \<and> s' = s1" using m True q t \<open>find_slot _ _ = Some slot\<close> by (auto simp: fs_mount_def)
      then show ?thesis using t' Some na by auto
    next
      case None
      define ms where "ms = (f_mounts s1)[slot := (f_mounts s1 ! slot)\<lparr>mt_point := []\<rparr>]"
      have s': "r = None" "s' = s1\<lparr>f_mounts := ms\<rparr>" using m True q t None \<open>find_slot _ _ = Some slot\<close> by (auto simp: fs_mount_def ms_def)
      have "slot < length (f_mounts s1)" using sl t' None by simp
      then have nth: "ms ! i = (if i = slot then (f_mounts s1 ! slot)\<lparr>mt_point := []\<rparr> else f_mounts s1 ! i)" for i
        by (simp add: ms_def nth_list_update)
      have same: "mt_in_use (ms ! i) = mt_in_use (f_mounts s1 ! i)" "mt_attached (ms ! i) = mt_attached (f_mounts s1 ! i)"
        "mt_device (ms ! i) = mt_device (f_mounts s1 ! i)" "mt_driver (ms ! i) = mt_driver (f_mounts s1 ! i)" for i
        using nth [of i] by simp_all
      have "fs_ok K s1" using t' by blast
      moreover have "length ms = length (f_mounts s1)" by (simp add: ms_def)
      ultimately have "fs_ok K s'" unfolding s' fs_ok_def by (simp add: same)
      moreover have "fewer s1 s'" by (simp add: fewer_def attached_def fs_live_def s' same)
      ultimately show ?thesis using t' s' fewer_trans [of s s1 s'] by auto
    qed
  qed
qed

lemma fs_attach_spec:
  assumes ok: "fs_ok K s" and a: "fs_attach k s = (r, s')" and live: "fs_live k s" and k: "k < kMaxMounts"
  shows "fs_ok K s' \<and> K (f_world s) (f_world s') \<and> mt_device (f_mounts s' ! k) = mt_device (f_mounts s ! k) \<and> fs_live k s' \<and>
    (\<forall>i. i \<noteq> k \<longrightarrow> attached s' i = attached s i \<and> mt_device (f_mounts s' ! i) = mt_device (f_mounts s ! i)) \<and> attached s' k = r"
proof (cases "mt_attached (f_mounts s ! k)")
  case True
  then show ?thesis using a live ok by (auto simp: fs_attach_def refl attached_def)
next
  case False
  define m where "m = f_mounts s ! k"
  define d where "d = f_drivers s ! mt_driver m"
  have dl: "mt_driver m < length (f_drivers s)" using ok k live by (simp add: fs_ok_def fs_live_def m_def)
  then have "d \<in> set (f_drivers s)" by (simp add: d_def)
  then obtain f where f: "fd_attach d = Some f" and kp: "driver_keeps K d" using ok by (auto simp: fs_ok_def)
  obtain r1 w where fw: "f (mt_volume m) (f_world s) = (r1, w)" by fastforce
  have s': "r1 = r" "s' = s\<lparr>f_mounts := (f_mounts s)[k := m\<lparr>mt_attached := r\<rparr>], f_world := w\<rparr>"
    using a live False f fw by (auto simp: fs_attach_def Let_def d_def m_def)
  have "K (f_world s) w" using kp f fw unfolding driver_keeps_def by (metis snd_conv)
  moreover have "fs_ok K s'" using ok live dl by (auto simp: s' fs_ok_def nth_list_update fs_live_def m_def)
  moreover have "k < length (f_mounts s)" using ok k by (simp add: fs_ok_def)
  ultimately show ?thesis using live by (auto simp: s' attached_def fs_live_def m_def)
qed

lemma fs_release_spec:
  assumes ok: "fs_ok K s" and env: "env_keeps K env" and r: "fs_release env k c s = (r, s')" and k: "k < kMaxMounts"
  shows "fs_ok K s' \<and> K (f_world s) (f_world s') \<and> fewer s s' \<and> (r = 0 \<longrightarrow> \<not> fs_live k s')"
proof -
  define m where "m = f_mounts s ! k"
  define d where "d = f_drivers s ! mt_driver m"
  show ?thesis
  proof (cases "fs_live k s \<and> mt_point m \<noteq> kRootMountPoint \<and> fd_unmount d \<noteq> None")
    case False
    then have "s' = s \<and> r \<noteq> 0" using r by (auto simp: fs_release_def Let_def m_def d_def sx_consts split: if_splits)
    then show ?thesis using ok by (simp add: refl fewer_refl)
  next
    case True
    then obtain u where u: "fd_unmount d = Some u" by blast
    have dl: "mt_driver m < length (f_drivers s)" using ok k True by (simp add: fs_ok_def fs_live_def m_def)
    then have kp: "driver_keeps K d" using ok by (simp add: d_def fs_ok_def)
    obtain synced w where sy: "(case fd_sync d of
                Some sync \<Rightarrow> if mt_attached m then sync (mt_volume m) (f_world s) else (True, f_world s)
              | None \<Rightarrow> (True, f_world s)) = (synced, w)" by fastforce
    have k1: "K (f_world s) w" using sy kp refl unfolding driver_keeps_def by (auto split: option.splits if_splits) (metis snd_conv)
    obtain det w1 where de: "ve_detach env (mt_point m) c w = (det, w1)" by fastforce
    have k2: "K (f_world s) w1" using trans [OF k1] env de unfolding env_keeps_def by (metis snd_conv)
    have le: "\<not> det \<Longrightarrow> ve_last_error env w1 \<noteq> 0" using env de unfolding env_keeps_def by (metis fst_conv snd_conv)
    have k3: "K (f_world s) (u (mt_volume m) w1)" using trans [OF k2] kp u unfolding driver_keeps_def by blast
    define ms where "ms = (f_mounts s)[k := zero_mount]"
    define n where "n = mounts_end ms (f_mount_count s)"
    have world: "fs_ok K (s\<lparr>f_world := x\<rparr>)" "fewer s (s\<lparr>f_world := x\<rparr>)" for x
      using ok by (simp_all add: fs_ok_def fewer_def attached_def fs_live_def)
    note e = mounts_end_spec [of ms "f_mount_count s", folded n_def]
    have kl: "k < length (f_mounts s)" using ok k by (simp add: fs_ok_def)
    have nth: "ms ! i = (if i = k then zero_mount else f_mounts s ! i)" for i using kl by (simp add: ms_def nth_list_update)
    define s2 where "s2 = s\<lparr>f_mounts := ms, f_mount_count := n, f_generation := f_generation s + 1, f_world := u (mt_volume m) w1\<rparr>"
    have "mt_in_use (ms ! i) \<longrightarrow> i < n \<and> mt_driver (ms ! i) < length (f_drivers s)" if "i < kMaxMounts" for i
      using ok e that by (auto simp: fs_ok_def nth zero_mount_def)
    then have "fs_ok K s2" using ok e by (simp add: fs_ok_def s2_def) (simp add: ms_def)
    moreover have "fewer s s2" using e by (auto simp: fewer_def attached_def fs_live_def s2_def nth zero_mount_def split: if_splits)
    moreover have "\<not> fs_live k s2" by (simp add: fs_live_def s2_def nth zero_mount_def)
    moreover have "s' = s\<lparr>f_world := w\<rparr> \<and> r \<noteq> 0 \<or> s' = s\<lparr>f_world := w1\<rparr> \<and> r \<noteq> 0 \<or> s' = s2"
      using r True sy de u le unfolding fs_release_def Let_def m_def [symmetric] d_def [symmetric] ms_def [symmetric] n_def [symmetric] s2_def
      by (auto simp: sx_consts split: if_splits)
    moreover have "f_world s2 = u (mt_volume m) w1" by (simp add: s2_def)
    ultimately show ?thesis using world k1 k2 k3 by (elim disjE) simp_all
  qed
qed

end

end
