(* ===== verification/Storage.thy ===== *)
theory Storage
  imports Fs_Mounts Partition_Table
begin

text \<open>
  \<^verbatim>\<open>kernel/storage.cpp\<close>: the storage calls, which put the block devices, the partition tables and the
  mounted volumes together. The state the file system drivers and the VFS act on is the pair of
  the partition state and the rest, \<open>'v\<close>.
\<close>

section \<open>State\<close>

definition kMaxCache :: nat where "kMaxCache = 32"
definition kMaxTransferSectors :: nat where "kMaxTransferSectors = 128"
definition kMountParent :: string where "kMountParent = ''/mnt''"
definition kMaxMountName :: nat where "kMaxMountName = 24"

record detected =
  de_id :: u32
  de_generation :: u32
  de_fs_name :: string

record ('d, 'v) storage_state =
  sg_fs :: "('d part_state \<times> 'v) fs_state"
  sg_detected :: "detected list"
  sg_detected_next :: nat
  sg_content_generation :: u32

abbreviation sg_part :: "('d, 'v) storage_state \<Rightarrow> 'd part_state" where
  "sg_part st \<equiv> fst (f_world (sg_fs st))"

abbreviation sg_block :: "('d, 'v) storage_state \<Rightarrow> 'd block_state" where
  "sg_block st \<equiv> ps_block (sg_part st)"

definition set_part :: "'d part_state \<Rightarrow> ('d, 'v) storage_state \<Rightarrow> ('d, 'v) storage_state" where
  "set_part ps st = st\<lparr>sg_fs := (sg_fs st)\<lparr>f_world := (ps, snd (f_world (sg_fs st)))\<rparr>\<rparr>"

definition storage_generation :: "('d, 'v) storage_state \<Rightarrow> u32" where
  "storage_generation st = b_generation (sg_block st) + f_generation (sg_fs st) + sg_content_generation st"

section \<open>Devices and volumes\<close>

definition index_of :: "u32 \<Rightarrow> 'd block_state \<Rightarrow> nat option" where
  "index_of dev_id b = find_slot (\<lambda>i. case device_info i b of None \<Rightarrow> False | Some d \<Rightarrow> bd_id d = dev_id) [0..<b_device_count b]"

record extent =
  ex_disk :: nat
  ex_start :: nat
  ex_sectors :: nat

definition extent_of :: "nat \<Rightarrow> 'd part_state \<Rightarrow> extent" where
  "extent_of device ps =
     (case partition_info_of device ps of
        Some info \<Rightarrow> \<lparr>ex_disk = pt_parent info, ex_start = pt_start info, ex_sectors = pt_count info\<rparr>
      | None \<Rightarrow> \<lparr>ex_disk = device, ex_start = 0,
          ex_sectors = (case device_info device (ps_block ps) of None \<Rightarrow> 0 | Some d \<Rightarrow> bd_sectors d)\<rparr>)"

definition overlaps_mounted :: "nat \<Rightarrow> nat \<Rightarrow> nat \<Rightarrow> ('d, 'v) storage_state \<Rightarrow> bool" where
  "overlaps_mounted disk start cnt st =
     list_ex (\<lambda>i. case fs_mount_info i (sg_fs st) of
         None \<Rightarrow> False
       | Some m \<Rightarrow>
           let v = extent_of (mt_device m) (sg_part st) in
           mt_attached m \<and> ex_disk v = disk \<and> start < ex_start v + ex_sectors v \<and> ex_start v < start + cnt)
       [0..<f_mount_count (sg_fs st)]"

definition name_char :: "char \<Rightarrow> bool" where
  "name_char c = (let v = of_char c :: nat in
     (97 \<le> v \<and> v \<le> 122) \<or> (65 \<le> v \<and> v \<le> 90) \<or> (48 \<le> v \<and> v \<le> 57) \<or> c = CHR ''.'' \<or> c = CHR ''_'' \<or> c = CHR ''-'')"

definition valid_mount_path :: "string \<Rightarrow> bool" where
  "valid_mount_path path =
     (let prefix = length kMountParent; name = drop (prefix + 1) path in
      take prefix path = kMountParent \<and> prefix < length path \<and> path ! prefix = CHR ''/'' \<and>
      list_all name_char name \<and> length name \<le> kMaxMountName \<and> name \<noteq> [] \<and> name \<noteq> ''.'' \<and> name \<noteq> ''..'')"

definition check_range :: "nat option \<Rightarrow> u64 \<Rightarrow> nat \<Rightarrow> 'd block_state \<Rightarrow> int" where
  "check_range index lba cnt b =
     (case index of
        None \<Rightarrow> negative_error SX_ENODEV
      | Some i \<Rightarrow>
          (case device_info i b of
             None \<Rightarrow> negative_error SX_ENODEV
           | Some d \<Rightarrow>
               if cnt = 0 \<or> kMaxTransferSectors < cnt \<or> bd_sectors d \<le> unat lba \<or> bd_sectors d - unat lba < cnt
               then negative_error SX_EINVAL else 0))"

definition mount_of :: "nat \<Rightarrow> 'w fs_state \<Rightarrow> nat option" where
  "mount_of device s =
     find_slot (\<lambda>i. case fs_mount_info i s of None \<Rightarrow> False | Some m \<Rightarrow> mt_attached m \<and> mt_device m = device) [0..<f_mount_count s]"

definition is_root_mount :: "nat \<Rightarrow> 'w fs_state \<Rightarrow> bool" where
  "is_root_mount i s = (case fs_mount_info i s of None \<Rightarrow> False | Some m \<Rightarrow> mt_point m = kRootMountPoint)"

definition sxfs_superblock_magic :: "u8 list" where
  "sxfs_superblock_magic = [0x53, 0x58, 0x46, 0x53, 0, 0, 0, 0]"

definition detect :: "'d disk_driver \<Rightarrow> nat \<Rightarrow> 'd block_state \<Rightarrow> string" where
  "detect D i b =
     (case block_read D i 0 1 b of
        None \<Rightarrow> []
      | Some s \<Rightarrow>
          if take 8 (concat s) = sxfs_superblock_magic then ''sxfs''
          else if is_boot_sector (concat s) then ''fat''
          else case block_read D i 1 1 b of
            None \<Rightarrow> []
          | Some s1 \<Rightarrow> if take 8 (concat s1) = sxfs_superblock_magic then ''sxfs'' else [])"

definition detected_fs :: "'d disk_driver \<Rightarrow> nat \<Rightarrow> u32 \<Rightarrow> ('d, 'v) storage_state \<Rightarrow> string \<times> ('d, 'v) storage_state" where
  "detected_fs D i dev_id st =
     (let now = storage_generation st in
      case find_slot (\<lambda>e. de_id e = dev_id \<and> de_generation e = now) (sg_detected st) of
        Some k \<Rightarrow> (de_fs_name (sg_detected st ! k), st)
      | None \<Rightarrow>
          let name = detect D i (sg_block st) in
          (name, st\<lparr>sg_detected := (sg_detected st)[sg_detected_next st := \<lparr>de_id = dev_id, de_generation = now, de_fs_name = name\<rparr>],
             sg_detected_next := (sg_detected_next st + 1) mod kMaxCache\<rparr>))"

section \<open>The calls\<close>

text \<open>\<^verbatim>\<open>fs::mount_any\<close>: the first present device some driver claims.\<close>

fun try_devices :: "nat list \<Rightarrow> string \<Rightarrow> ('d part_state \<times> 'v) fs_state \<Rightarrow> nat option \<times> ('d part_state \<times> 'v) fs_state" where
  "try_devices [] mount_point s = (None, s)"
| "try_devices (i # rest) mount_point s =
     (if device_info i (ps_block (fst (f_world s))) = None then try_devices rest mount_point s
      else case fs_mount i mount_point None None s of
        (Some k, s1) \<Rightarrow> (Some k, s1)
      | (None, s1) \<Rightarrow> try_devices rest mount_point s1)"

definition fs_mount_any :: "string \<Rightarrow> ('d part_state \<times> 'v) fs_state \<Rightarrow> nat option \<times> ('d part_state \<times> 'v) fs_state" where
  "fs_mount_any mount_point s =
     (if \<not> b_ready (ps_block (fst (f_world s))) then (None, s) else try_devices [0..<kMaxBlockDevices] mount_point s)"

definition storage_mount ::
  "('d part_state \<times> 'v) vfs_env \<Rightarrow> u32 \<Rightarrow> string \<Rightarrow> fs_owner \<Rightarrow> ('d, 'v) storage_state \<Rightarrow> int \<times> ('d, 'v) storage_state" where
  "storage_mount env dev_id path own st =
     (case index_of dev_id (sg_block st) of
        None \<Rightarrow> (negative_error SX_ENODEV, st)
      | Some i \<Rightarrow>
          if \<not> valid_mount_path path then (negative_error SX_EINVAL, st)
          else if ve_resolve env path (f_world (sg_fs st)) \<noteq> None \<or> fs_find path (sg_fs st) \<noteq> None then (negative_error SX_EEXIST, st)
          else if partition_info_of i (sg_part st) = None \<and> di_scheme (partition_disk_info i (sg_part st)) \<noteq> Scheme_none
          then (negative_error SX_EINVAL, st)
          else
            let e = extent_of i (sg_part st) in
            if overlaps_mounted (ex_disk e) (ex_start e) (ex_sectors e) st then (negative_error SX_EBUSY, st)
            else
              let (parent, w) = (case ve_resolve env kMountParent (f_world (sg_fs st)) of
                    Some t \<Rightarrow> (Some t, f_world (sg_fs st))
                  | None \<Rightarrow> ve_mkdir env kMountParent (f_world (sg_fs st)))
              in let fs = (sg_fs st)\<lparr>f_world := w\<rparr> in
                 if parent \<noteq> Some Node_directory then (negative_error SX_EIO, st\<lparr>sg_fs := fs\<rparr>)
                 else case fs_mount i path None (Some own) fs of
                   (None, fs1) \<Rightarrow> (negative_error SX_EIO, st\<lparr>sg_fs := fs1\<rparr>)
                 | (Some k, fs1) \<Rightarrow>
                     (case fs_attach k fs1 of
                        (True, fs2) \<Rightarrow> (0, st\<lparr>sg_fs := fs2\<rparr>)
                      | (False, fs2) \<Rightarrow> (negative_error SX_EIO, st\<lparr>sg_fs := snd (fs_release env k False fs2)\<rparr>)))"

definition storage_unmount :: "('d part_state \<times> 'v) vfs_env \<Rightarrow> string \<Rightarrow> ('d, 'v) storage_state \<Rightarrow> int \<times> ('d, 'v) storage_state" where
  "storage_unmount env path st =
     (case fs_find path (sg_fs st) of
        None \<Rightarrow> (negative_error SX_EINVAL, st)
      | Some k \<Rightarrow>
          if path = kRootMountPoint \<or> path = kBootMountPoint then (negative_error SX_EINVAL, st)
          else case fs_release env k True (sg_fs st) of (r, fs) \<Rightarrow> (r, st\<lparr>sg_fs := fs\<rparr>))"

fun try_boot :: "('d part_state \<times> 'v) vfs_env \<Rightarrow> string \<Rightarrow> (nat \<times> bool) list \<Rightarrow> ('d, 'v) storage_state \<Rightarrow> nat option \<times> ('d, 'v) storage_state" where
  "try_boot env kernel_path [] st = (None, st)"
| "try_boot env kernel_path ((i, want_esp) # rest) st =
     (if device_info i (sg_block st) = None \<or> mount_of i (sg_fs st) \<noteq> None \<or>
        (case partition_info_of i (sg_part st) of None \<Rightarrow> False | Some info \<Rightarrow> pt_esp info) \<noteq> want_esp
      then try_boot env kernel_path rest st
      else case fs_mount i kBootMountPoint (Some ''fat'') None (sg_fs st) of
        (None, fs1) \<Rightarrow> try_boot env kernel_path rest (st\<lparr>sg_fs := fs1\<rparr>)
      | (Some k, fs1) \<Rightarrow>
          (case fs_attach k fs1 of
             (ok, fs2) \<Rightarrow>
               if ok \<and> ve_resolve env kernel_path (f_world fs2) = Some Node_file then (Some k, st\<lparr>sg_fs := fs2\<rparr>)
               else try_boot env kernel_path rest (st\<lparr>sg_fs := snd (fs_release env k False fs2)\<rparr>)))"

definition mount_boot_volume :: "('d part_state \<times> 'v) vfs_env \<Rightarrow> ('d, 'v) storage_state \<Rightarrow> nat option \<times> ('d, 'v) storage_state" where
  "mount_boot_volume env st =
     (if ve_resolve env kBootMountPoint (f_world (sg_fs st)) \<noteq> None then (None, st)
      else case join_mount_path kBootMountPoint ''boot/kernel.elf'' 256 of
        None \<Rightarrow> (None, st)
      | Some kernel_path \<Rightarrow>
          try_boot env kernel_path
            (map (\<lambda>i. (i, True)) [0..<b_device_count (sg_block st)] @ map (\<lambda>i. (i, False)) [0..<b_device_count (sg_block st)]) st)"

definition storage_read :: "'d disk_driver \<Rightarrow> u32 \<Rightarrow> u64 \<Rightarrow> nat \<Rightarrow> ('d, 'v) storage_state \<Rightarrow> int + sector list" where
  "storage_read D dev_id lba cnt st =
     (let index = index_of dev_id (sg_block st); status = check_range index lba cnt (sg_block st) in
      if status \<noteq> 0 then Inl status
      else case block_read D (the index) (unat (ucast lba :: u32)) cnt (sg_block st) of
        None \<Rightarrow> Inl (negative_error SX_EIO)
      | Some bs \<Rightarrow> Inr bs)"

definition storage_write ::
  "'d disk_driver \<Rightarrow> bool \<Rightarrow> bool \<Rightarrow> u32 \<Rightarrow> u64 \<Rightarrow> sector list \<Rightarrow> ('d, 'v) storage_state \<Rightarrow> int \<times> ('d, 'v) storage_state" where
  "storage_write D h1 h2 dev_id lba bs st =
     (let index = index_of dev_id (sg_block st); status = check_range index lba (length bs) (sg_block st); i = the index in
      if status \<noteq> 0 then (status, st)
      else if \<not> bd_writable (b_devices (sg_block st) ! i) then (negative_error SX_EPERM, st)
      else
        let e = extent_of i (sg_part st) in
        if overlaps_mounted (ex_disk e) (ex_start e + unat lba) (length bs) st then (negative_error SX_EBUSY, st)
        else
          let st1 = st\<lparr>sg_content_generation := sg_content_generation st + 1\<rparr> in
          case block_write D h1 h2 i (unat (ucast lba :: u32)) bs (sg_block st1) of
            (ok, b) \<Rightarrow> (if ok then 0 else negative_error SX_EIO, set_part ((sg_part st1)\<lparr>ps_block := b\<rparr>) st1))"

fun release_disk :: "('d part_state \<times> 'v) vfs_env \<Rightarrow> nat \<Rightarrow> nat list \<Rightarrow> ('d, 'v) storage_state \<Rightarrow> bool \<times> ('d, 'v) storage_state" where
  "release_disk env disk [] st = (True, st)"
| "release_disk env disk (k # rest) st =
     (case fs_mount_info k (sg_fs st) of
        None \<Rightarrow> release_disk env disk rest st
      | Some m \<Rightarrow>
          if ex_disk (extent_of (mt_device m) (sg_part st)) \<noteq> disk then release_disk env disk rest st
          else if is_root_mount k (sg_fs st) \<or> mt_point m = kBootMountPoint then (False, st)
          else case fs_release env k True (sg_fs st) of
            (r, fs) \<Rightarrow> if r \<noteq> 0 then (False, st\<lparr>sg_fs := fs\<rparr>) else release_disk env disk rest (st\<lparr>sg_fs := fs\<rparr>))"

definition forget_disk :: "('d part_state \<times> 'v) vfs_env \<Rightarrow> nat \<Rightarrow> ('d, 'v) storage_state \<Rightarrow> bool \<times> ('d, 'v) storage_state" where
  "forget_disk env index st =
     (if device_info index (sg_block st) = None then (True, st)
      else case release_disk env index [0..<kMaxMounts] st of
        (False, st1) \<Rightarrow> (False, st1)
      | (True, st1) \<Rightarrow>
          (case partition_drop index (sg_part st1) of
             (False, ps) \<Rightarrow> (False, set_part ps st1)
           | (True, ps) \<Rightarrow>
               (case unregister_device index (ps_block ps) of
                  (False, b) \<Rightarrow> (False, set_part (ps\<lparr>ps_block := b\<rparr>) st1)
                | (True, b) \<Rightarrow>
                    (True, (set_part (ps\<lparr>ps_block := b\<rparr>) st1)\<lparr>sg_content_generation := sg_content_generation st1 + 1\<rparr>))))"

definition storage_rescan :: "'d disk_driver \<Rightarrow> u32 \<Rightarrow> ('d, 'v) storage_state \<Rightarrow> int \<times> ('d, 'v) storage_state" where
  "storage_rescan D dev_id st =
     (case index_of dev_id (sg_block st) of
        None \<Rightarrow> (negative_error SX_ENODEV, st)
      | Some i \<Rightarrow>
          if partition_info_of i (sg_part st) \<noteq> None then (negative_error SX_EINVAL, st)
          else if overlaps_mounted i 0 (bd_sectors (b_devices (sg_block st) ! i)) st then (negative_error SX_EBUSY, st)
          else case sync_all D (sg_block st) of
            (False, b) \<Rightarrow> (negative_error SX_EIO, set_part ((sg_part st)\<lparr>ps_block := b\<rparr>) st)
          | (True, b) \<Rightarrow>
              (case partition_rescan D i ((sg_part st)\<lparr>ps_block := b\<rparr>) of
                 (ok, ps) \<Rightarrow>
                   if \<not> ok then (negative_error SX_EIO, set_part ps st)
                   else (0, (set_part ps st)\<lparr>sg_content_generation := sg_content_generation st + 1\<rparr>)))"

section \<open>Extents\<close>

definition parents_ok :: "'d part_state \<Rightarrow> bool" where
  "parents_ok ps \<longleftrightarrow> (\<forall>s\<in>set (ps_slices ps). sl_present s \<longrightarrow> pt_parent (sl_info s) = sl_parent s)"

definition sectors_32 :: "'d block_state \<Rightarrow> bool" where
  "sectors_32 b \<longleftrightarrow> (\<forall>i<b_device_count b. bd_sectors (b_devices b ! i) < 2 ^ 32)"

lemma partition_info_cases:
  assumes "part_inv view ps"
  obtains (slice) k where "k < kMaxSlices" "sl_present (ps_slices ps ! k)" "sl_device (ps_slices ps ! k) = i"
      "partition_info_of i ps = Some (sl_info (ps_slices ps ! k))"
  | (none) "\<not> is_slice i ps" "partition_info_of i ps = None"
proof (cases "find_slot (\<lambda>s. sl_present s \<and> sl_device s = i) (ps_slices ps)")
  case None
  then show ?thesis using none by (auto simp: partition_info_of_def is_slice_def list_ex_iff find_slot_None_iff)
next
  case (Some k)
  then show ?thesis using slice [of k] find_slot_SomeD [OF Some] part_inv_length(2) [OF assms] by (simp add: partition_info_of_def)
qed

lemma extent_place:
  assumes inv: "part_inv view ps" and par: "parents_ok ps" and d: "device_info i (ps_block ps) = Some d"
  shows "place (ps_block ps) i = Some (ex_disk (extent_of i ps), ex_start (extent_of i ps)) \<and> is_disk (ps_block ps) (ex_disk (extent_of i ps)) \<and>
    ex_sectors (extent_of i ps) = bd_sectors d"
  using inv
proof (cases rule: partition_info_cases [where i = i])
  case (slice k)
  have b: "block_inv view (ps_block ps)" and len: "length (ps_slices ps) = kMaxSlices" using inv part_inv_length unfolding part_inv_def by blast+
  have l: "slice_live (ps_block ps) (ps_slices ps ! k)" by (rule part_inv_live [OF inv slice(1,2)])
  have p: "pt_parent (sl_info (ps_slices ps ! k)) = sl_parent (ps_slices ps ! k)" using par slice(1,2) len by (simp add: parents_ok_def)
  have d': "d = b_devices (ps_block ps) ! i" using d by (auto simp: device_info_def device_for_index_def split: if_splits)
  have "slice_ok (ps_block ps) i" using b l slice(3) by (auto simp: block_inv_def slice_live_def)
  then show ?thesis using l slice p d d' by (auto simp: extent_of_def slice_live_def place_def slice_ok_def device_info_def)
next
  case none
  have disk: "is_disk (ps_block ps) i" "d = b_devices (ps_block ps) ! i" using not_slice_disk [OF inv none(1)] d by (auto simp: device_info_def)
  then show ?thesis using none d by (simp add: extent_of_def place_def device_info_def is_disk_def)
qed

lemma overlaps_mountedD:
  assumes "\<not> overlaps_mounted disk start cnt st" and "fs_live i (sg_fs st)" and "mt_attached (f_mounts (sg_fs st) ! i)"
    and "ex_disk (extent_of (mt_device (f_mounts (sg_fs st) ! i)) (sg_part st)) = disk"
  shows "let v = extent_of (mt_device (f_mounts (sg_fs st) ! i)) (sg_part st) in ex_start v + ex_sectors v \<le> start \<or> start + cnt \<le> ex_start v"
  using assms by (auto simp: overlaps_mounted_def list_ex_iff fs_mount_info_def fs_live_def Let_def not_less dest!: bspec [of _ _ i])

lemma index_of_SomeD: "index_of dev_id b = Some i \<Longrightarrow> \<exists>d. device_info i b = Some d \<and> bd_id d = dev_id \<and> d = b_devices b ! i \<and> i < b_device_count b"
  using find_slot_SomeD [of _ "[0..<b_device_count b]" i]
  by (fastforce simp: index_of_def device_info_def device_for_index_def split: option.splits if_splits)

lemma storage_write_effect:
  assumes med: "disk_medium D view" and inv: "part_inv view (sg_part st)" and par: "parents_ok (sg_part st)" and s32: "sectors_32 (sg_block st)"
    and w: "storage_write D h1 h2 dev_id lba bs st = (r, st')"
  shows "st' = st \<and> r \<noteq> 0 \<or> (\<exists>i ok b'. index_of dev_id (sg_block st) = Some i \<and> block_write D h1 h2 i (unat lba) bs (sg_block st) = (ok, b') \<and>
      r = (if ok then 0 else negative_error SX_EIO) \<and>
      st' = set_part ((sg_part st)\<lparr>ps_block := b'\<rparr>) (st\<lparr>sg_content_generation := sg_content_generation st + 1\<rparr>) \<and>
      \<not> overlaps_mounted (ex_disk (extent_of i (sg_part st))) (ex_start (extent_of i (sg_part st)) + unat lba) (length bs) st)"
proof (cases "check_range (index_of dev_id (sg_block st)) lba (length bs) (sg_block st) = 0")
  case False
  then show ?thesis using w by (auto simp: storage_write_def Let_def)
next
  case True
  then obtain i d where i: "index_of dev_id (sg_block st) = Some i" and d: "device_info i (sg_block st) = Some d" and l: "unat lba < bd_sectors d"
    by (auto simp: check_range_def sx_consts split: option.splits if_splits)
  have "bd_sectors d < 2 ^ 32" using s32 index_of_SomeD [OF i] d by (auto simp: sectors_32_def)
  then have "unat (ucast lba :: u32) = unat lba" using l by (simp add: unsigned_ucast_eq take_bit_eq_mod)
  then show ?thesis using w True i by (auto simp: storage_write_def Let_def sx_consts split: if_splits prod.splits)
qed

lemma device_info_present: "device_info i b \<noteq> None \<longleftrightarrow> i < b_device_count b \<and> bd_present (b_devices b ! i)"
  by (auto simp: device_info_def device_for_index_def)

lemma extent_nonempty:
  assumes inv: "part_inv view ps" and n: "0 < ex_sectors (extent_of i ps)"
  obtains d where "device_info i (ps_block ps) = Some d"
  using inv
proof (cases rule: partition_info_cases [where i = i])
  case (slice k)
  have "slice_live (ps_block ps) (ps_slices ps ! k)" by (rule part_inv_live [OF inv slice(1,2)])
  then have "device_info i (ps_block ps) \<noteq> None" using slice(3) unfolding device_info_present slice_live_def by blast
  then show ?thesis using that by blast
next
  case none
  then show ?thesis using n that by (auto simp: extent_of_def split: option.splits)
qed

lemma storage_write_volumes:
  assumes med: "disk_medium D view" and inv: "part_inv view (sg_part st)" and par: "parents_ok (sg_part st)" and s32: "sectors_32 (sg_block st)"
    and w: "storage_write D h1 h2 dev_id lba bs st = (r, st')"
    and k: "fs_live k (sg_fs st)" "mt_attached (f_mounts (sg_fs st) ! k)" and v: "v = extent_of (mt_device (f_mounts (sg_fs st) ! k)) (sg_part st)"
    and x: "ex_start v \<le> x" "x < ex_start v + ex_sectors v"
  shows "disk_seen view (sg_block st') (ex_disk v) x = disk_seen view (sg_block st) (ex_disk v) x"
  using storage_write_effect [OF med inv par s32 w]
proof (elim disjE exE conjE)
  fix i ok b'
  assume i: "index_of dev_id (sg_block st) = Some i" and bw: "block_write D h1 h2 i (unat lba) bs (sg_block st) = (ok, b')"
    and st': "st' = set_part ((sg_part st)\<lparr>ps_block := b'\<rparr>) (st\<lparr>sg_content_generation := sg_content_generation st + 1\<rparr>)"
    and no: "\<not> overlaps_mounted (ex_disk (extent_of i (sg_part st))) (ex_start (extent_of i (sg_part st)) + unat lba) (length bs) st"
  have b: "block_inv view (sg_block st)" using inv unfolding part_inv_def by blast
  obtain d where d: "device_info i (sg_block st) = Some d" using index_of_SomeD [OF i] by blast
  obtain d' where "device_info (mt_device (f_mounts (sg_fs st) ! k)) (sg_block st) = Some d'"
    using extent_nonempty [OF inv, of "mt_device (f_mounts (sg_fs st) ! k)"] x v by fastforce
  then have disk: "is_disk (sg_block st) (ex_disk v)" using extent_place [OF inv par] v by blast
  note f = disk_medium.block_write_flat [OF med b bw]
  have "is_disk b' (ex_disk v)" using f disk same_devices_disk [of "sg_block st" b'] by blast
  moreover have "\<not> (ex_disk v = ex_disk (extent_of i (sg_part st)) \<and> ex_start (extent_of i (sg_part st)) + unat lba \<le> x \<and>
      x < ex_start (extent_of i (sg_part st)) + unat lba + length bs)"
    using overlaps_mountedD [OF no k] x unfolding v by (auto simp: Let_def)
  then have "flat view b' (ex_disk v) x = flat view (sg_block st) (ex_disk v) x"
    using f extent_place [OF inv par d] by (auto simp: store_write_def)
  ultimately show ?thesis using disk by (simp add: flat_def st' set_part_def)
qed simp

section \<open>Scans only add slices\<close>

text \<open>Slices and devices that are there stay as they are; a new slice takes a device slot that was
  free.\<close>

definition grows :: "'d part_state \<Rightarrow> 'd part_state \<Rightarrow> bool" where
  "grows ps ps' \<longleftrightarrow> length (ps_slices ps') = length (ps_slices ps) \<and> length (b_devices (ps_block ps')) = length (b_devices (ps_block ps)) \<and>
     b_device_count (ps_block ps) \<le> b_device_count (ps_block ps') \<and>
     (\<forall>i. bd_present (b_devices (ps_block ps) ! i) \<longrightarrow> b_devices (ps_block ps') ! i = b_devices (ps_block ps) ! i) \<and>
     (\<forall>i. \<not> bd_present (b_devices (ps_block ps) ! i) \<longrightarrow> bd_present (b_devices (ps_block ps') ! i) \<longrightarrow> 0 < bd_sectors (b_devices (ps_block ps') ! i)) \<and>
     (\<forall>k<length (ps_slices ps). sl_present (ps_slices ps ! k) \<longrightarrow> ps_slices ps' ! k = ps_slices ps ! k) \<and>
     (\<forall>k<length (ps_slices ps). \<not> sl_present (ps_slices ps ! k) \<longrightarrow> sl_present (ps_slices ps' ! k) \<longrightarrow>
        \<not> bd_present (b_devices (ps_block ps) ! sl_device (ps_slices ps' ! k)) \<and>
        pt_parent (sl_info (ps_slices ps' ! k)) = sl_parent (ps_slices ps' ! k))"

lemma grows_refl: "grows ps ps"
  by (simp add: grows_def)

lemma grows_trans:
  assumes "grows a b" and "grows b c"
  shows "grows a c"
proof -
  have dev: "b_devices (ps_block c) ! i = b_devices (ps_block a) ! i" if "bd_present (b_devices (ps_block a) ! i)" for i
    using assms that by (simp add: grows_def)
  have new: "0 < bd_sectors (b_devices (ps_block c) ! i)"
    if "\<not> bd_present (b_devices (ps_block a) ! i)" "bd_present (b_devices (ps_block c) ! i)" for i
    using assms that by (cases "bd_present (b_devices (ps_block b) ! i)") (simp_all add: grows_def)
  have slice: "\<not> bd_present (b_devices (ps_block a) ! sl_device (ps_slices c ! k)) \<and> pt_parent (sl_info (ps_slices c ! k)) = sl_parent (ps_slices c ! k)"
    if k: "k < length (ps_slices a)" "\<not> sl_present (ps_slices a ! k)" "sl_present (ps_slices c ! k)" for k
  proof (cases "sl_present (ps_slices b ! k)")
    case True
    then show ?thesis using assms k by (simp add: grows_def)
  next
    case False
    then have "\<not> bd_present (b_devices (ps_block b) ! sl_device (ps_slices c ! k))" "pt_parent (sl_info (ps_slices c ! k)) = sl_parent (ps_slices c ! k)"
      using assms k by (simp_all add: grows_def)
    moreover have "b_devices (ps_block b) ! i = b_devices (ps_block a) ! i" if "bd_present (b_devices (ps_block a) ! i)" for i
      using assms that by (simp add: grows_def)
    ultimately show ?thesis by metis
  qed
  show ?thesis
    unfolding grows_def using dev new slice assms by (intro conjI allI impI) (simp_all add: grows_def)
qed

lemma grows_disks: "grows ps (ps'\<lparr>ps_disks := ds\<rparr>) = grows ps ps'" "grows (ps\<lparr>ps_disks := ds\<rparr>) ps' = grows ps ps'"
  by (simp_all add: grows_def)

lemma add_slice_grows: "grows ps (snd (add_slice p name w n info ps))"
proof (cases "pt_count info = 0 \<or> n \<le> pt_start info \<or> find_slot (\<lambda>s. \<not> sl_present s) (ps_slices ps) = None")
  case True
  then show ?thesis by (auto simp: add_slice_def grows_refl)
next
  case False
  then obtain slot where slot: "find_slot (\<lambda>s. \<not> sl_present s) (ps_slices ps) = Some slot" by blast
  note sl = find_slot_SomeD [OF slot]
  show ?thesis
    using False slot sl by (auto simp: add_slice_def register_device_def grows_def zero_slice_def Let_def nth_list_update
        dest: find_slot_SomeD split: option.split if_splits)
qed

lemma add_gpt_entries_grows: "grows ps (add_gpt_entries p name w n entries esize ks ps)"
  by (induction ks arbitrary: ps) (auto intro: grows_refl grows_trans [OF add_slice_grows] split: option.split)

lemma scan_mbr_grows: "grows ps (scan_mbr p name w n boot ks ps)"
  by (induction ks arbitrary: ps) (auto intro: grows_refl grows_trans [OF add_slice_grows] split: option.split)

lemma scan_gpt_grows: "grows ps (snd (scan_gpt D p name w n ps))"
  using add_gpt_entries_grows [of "ps\<lparr>ps_disks := ds\<rparr>" for ds]
  by (auto simp: scan_gpt_def Let_def grows_refl grows_disks split: option.split prod.split)

lemma scan_disk_grows: "grows ps (scan_disk D i ps)"
proof -
  have g: "grows ps ps1" if "scan_gpt D i name w n (ps\<lparr>ps_disks := ds\<rparr>) = (sc, ps1)" for name w n ds sc ps1
    using scan_gpt_grows [of "ps\<lparr>ps_disks := ds\<rparr>" D i name w n] that by (simp add: grows_disks)
  have "grows ps (scan_mbr p name w n boot ks (ps1\<lparr>ps_disks := ds\<rparr>))" if "grows ps ps1" for p name w n boot ks ps1 ds
    using that by (intro grows_trans [OF _ scan_mbr_grows]) (simp add: grows_disks)
  then show ?thesis
    using g by (auto simp: scan_disk_def Let_def grows_refl grows_disks split: option.split prod.split)
qed

section \<open>Which devices keep their extent\<close>

definition sized :: "'d block_state \<Rightarrow> bool" where
  "sized b \<longleftrightarrow> (\<forall>i<b_device_count b. bd_present (b_devices b ! i) \<longrightarrow> 0 < bd_sectors (b_devices b ! i))"

definition present :: "'d block_state \<Rightarrow> nat \<Rightarrow> bool" where
  "present b i \<longleftrightarrow> i < b_device_count b \<and> bd_present (b_devices b ! i)"

lemma present_iff: "present b i \<longleftrightarrow> device_info i b = Some (b_devices b ! i)"
  by (simp add: present_def device_info_def device_for_index_def)

definition layout_ok :: "('d \<Rightarrow> nat \<Rightarrow> nat \<Rightarrow> sector) \<Rightarrow> 'd part_state \<Rightarrow> bool" where
  "layout_ok view ps \<longleftrightarrow> part_inv view ps \<and> parents_ok ps \<and> sized (ps_block ps)"

definition same_place :: "'d part_state \<Rightarrow> 'd part_state \<Rightarrow> nat \<Rightarrow> bool" where
  "same_place ps ps' i \<longleftrightarrow> present (ps_block ps') i \<and>
     ops_target (bd_ops (b_devices (ps_block ps') ! i)) = ops_target (bd_ops (b_devices (ps_block ps) ! i)) \<and>
     bd_sectors (b_devices (ps_block ps') ! i) = bd_sectors (b_devices (ps_block ps) ! i)"

lemma extent_eq:
  assumes "layout_ok view ps" and "layout_ok view ps'" and "present (ps_block ps) i" and sp: "same_place ps ps' i"
  shows "extent_of i ps' = extent_of i ps"
proof -
  have d: "device_info i (ps_block ps) = Some (b_devices (ps_block ps) ! i)" and d': "device_info i (ps_block ps') = Some (b_devices (ps_block ps') ! i)"
    using assms(3) sp by (simp_all add: present_iff same_place_def)
  have "place (ps_block ps') i = place (ps_block ps) i"
    using d d' sp by (simp add: place_def same_place_def device_info_def)
  then show ?thesis
    using extent_place [of view, OF _ _ d] extent_place [of view, OF _ _ d'] assms(1,2) sp by (simp add: layout_ok_def same_place_def)
qed

lemma part_inv_same:
  assumes inv: "part_inv view ps" and "block_inv view b" and sd: "same_devices (ps_block ps) b"
  shows "part_inv view (ps\<lparr>ps_block := b\<rparr>)"
proof -
  have "slice_live b s = slice_live (ps_block ps) s" for s using sd by (simp add: slice_live_def same_devices_def)
  moreover have "no_stale b = no_stale (ps_block ps)" using sd by (simp add: no_stale_def same_devices_def)
  ultimately show ?thesis
    using inv assms(2) same_devices_disk [OF sd] sd unfolding part_inv_def by (simp add: same_devices_def)
qed

lemma layout_same:
  assumes "layout_ok view ps" and "block_inv view b" and sd: "same_devices (ps_block ps) b"
  shows "layout_ok view (ps\<lparr>ps_block := b\<rparr>)" and "present (ps_block ps) i \<Longrightarrow> same_place ps (ps\<lparr>ps_block := b\<rparr>) i"
  using assms part_inv_same [OF _ assms(2) sd]
  by (simp_all add: layout_ok_def parents_ok_def sized_def same_place_def present_def same_devices_def)

lemma grows_layout:
  assumes g: "grows ps ps'" and l: "layout_ok view ps" and inv: "part_inv view ps'"
  shows "layout_ok view ps'" and "present (ps_block ps) i \<Longrightarrow> same_place ps ps' i"
proof -
  have "pt_parent (sl_info (ps_slices ps' ! k)) = sl_parent (ps_slices ps' ! k)"
    if "k < kMaxSlices" "sl_present (ps_slices ps' ! k)" for k
  proof (cases "sl_present (ps_slices ps ! k)")
    case True
    then show ?thesis using that g l part_inv_length(2) [of view ps] by (simp add: grows_def layout_ok_def parents_ok_def)
  next
    case False
    then show ?thesis using that g l part_inv_length(2) [of view ps] by (simp add: grows_def layout_ok_def)
  qed
  then have "parents_ok ps'" using part_inv_length(2) [OF inv] by (auto simp: parents_ok_def in_set_conv_nth)
  moreover have "0 < bd_sectors (b_devices (ps_block ps') ! i)" if i: "i < b_device_count (ps_block ps')" "bd_present (b_devices (ps_block ps') ! i)" for i
  proof (cases "bd_present (b_devices (ps_block ps) ! i)")
    case True
    have "i < length (b_devices (ps_block ps))" using i g inv by (auto simp: grows_def part_inv_def block_inv_def)
    moreover have "no_stale (ps_block ps)" using l unfolding layout_ok_def part_inv_def by blast
    ultimately have "i < b_device_count (ps_block ps)" using True by (meson no_stale_def not_less)
    then show ?thesis using True g l by (simp add: grows_def layout_ok_def sized_def)
  next
    case False
    then show ?thesis using g i by (simp add: grows_def)
  qed
  ultimately show "layout_ok view ps'" using inv by (simp add: layout_ok_def sized_def)
  show "same_place ps ps' i" if "present (ps_block ps) i"
    using that g by (simp add: same_place_def present_def grows_def)
qed

lemma drop_layout:
  assumes l: "layout_ok view ps" and d: "partition_drop disk ps = (ok, ps')"
  shows "layout_ok view ps'" and "same_disks (ps_block ps) (ps_block ps')"
    and "ok \<Longrightarrow> s \<in> set (ps_slices ps') \<Longrightarrow> sl_present s \<Longrightarrow> sl_parent s \<noteq> disk"
    and "present (ps_block ps) i \<Longrightarrow> ex_disk (extent_of i ps) \<noteq> disk \<Longrightarrow> same_place ps ps' i"
proof -
  have inv: "part_inv view ps" and par: "parents_ok ps" and si: "sized (ps_block ps)" using l by (simp_all add: layout_ok_def)
  note sp = partition_drop_spec [OF inv d]
  have inv': "part_inv view ps'" and sd: "same_disks (ps_block ps) (ps_block ps')" using sp(1) by (simp_all add: scanned_def)
  show "same_disks (ps_block ps) (ps_block ps')" by (rule sd)
  have sl: "ps_slices ps' ! k = (if ok \<and> sl_present (ps_slices ps ! k) \<and> sl_parent (ps_slices ps ! k) = disk then zero_slice else ps_slices ps ! k)"
    if "k < kMaxSlices" for k
    using sp(2,3) that d by (cases ok) (auto simp: partition_drop_def split: if_splits)
  have len: "length (ps_slices ps) = kMaxSlices" "length (ps_slices ps') = kMaxSlices" using part_inv_length(2) inv inv' by blast+
  have old: "t \<in> set (ps_slices ps) \<and> (ok \<longrightarrow> sl_parent t \<noteq> disk)" if t: "t \<in> set (ps_slices ps')" "sl_present t" for t
  proof -
    obtain k where k: "k < kMaxSlices" "t = ps_slices ps' ! k" using t(1) len by (auto simp: in_set_conv_nth)
    show ?thesis using sl [OF k(1)] k t(2) len by (auto simp: zero_slice_def split: if_splits)
  qed
  then show "sl_parent s \<noteq> disk" if "ok" "s \<in> set (ps_slices ps')" "sl_present s" using that by blast
  have "parents_ok ps'" using par old by (simp add: parents_ok_def)
  moreover have "0 < bd_sectors (b_devices (ps_block ps') ! j)" if j: "j < b_device_count (ps_block ps')" "bd_present (b_devices (ps_block ps') ! j)" for j
  proof (cases "is_disk (ps_block ps') j")
    case True
    then show ?thesis using sd si by (auto simp: same_disks_def sized_def is_disk_def)
  next
    case False
    then obtain k where k: "k < kMaxSlices" "sl_present (ps_slices ps' ! k)" "sl_device (ps_slices ps' ! k) = j"
      using inv' j unfolding part_inv_def by blast
    then have "ps_slices ps ! k = ps_slices ps' ! k" using sl by (auto simp: zero_slice_def split: if_splits)
    then show ?thesis using part_inv_live [OF inv, of k] part_inv_live [OF inv', of k] k si by (auto simp: slice_live_def sized_def)
  qed
  ultimately show "layout_ok view ps'" using inv' by (simp add: layout_ok_def sized_def)
  show "same_place ps ps' i" if i: "present (ps_block ps) i" "ex_disk (extent_of i ps) \<noteq> disk"
    using inv
  proof (cases rule: partition_info_cases [where i = i])
    case (slice k)
    have "sl_parent (ps_slices ps ! k) \<noteq> disk" using i slice par len by (auto simp: extent_of_def parents_ok_def)
    then have "ps_slices ps' ! k = ps_slices ps ! k" using sl slice(1) by simp
    then have "slice_live (ps_block ps) (ps_slices ps ! k)" "slice_live (ps_block ps') (ps_slices ps ! k)"
      using part_inv_live [OF inv slice(1,2)] part_inv_live [OF inv' slice(1)] slice(2) by simp_all
    then show ?thesis using slice(3) unfolding same_place_def present_def by (simp add: slice_live_def)
  next
    case none
    then have "is_disk (ps_block ps) i" using not_slice_disk(1) [OF inv none(1)] i by (auto simp: present_iff device_info_def)
    then have "is_disk (ps_block ps') i" "b_devices (ps_block ps') ! i = b_devices (ps_block ps) ! i" using sd by (simp_all add: same_disks_def)
    then show ?thesis by (simp add: same_place_def present_def is_disk_def)
  qed
qed

text \<open>A disk with no slices leaves the registry: every other device stays.\<close>

lemma unregister_devices:
  assumes bi: "block_inv view b" and dk: "is_disk b d" and u: "unregister_device d b = (True, b')"
  shows "b_devices b' ! j = (if j = d then zero_device else b_devices b ! j)"
    and "present b' j \<longleftrightarrow> j \<noteq> d \<and> present b j" and "is_disk b' j \<longleftrightarrow> j \<noteq> d \<and> is_disk b j"
    and "length (b_devices b') = length (b_devices b)" "b_device_count b' \<le> b_device_count b"
    and "b_queue b' = b_queue b" "b_stats b' = b_stats b" "b_disks b' = b_disks b" "\<not> queue_has_device d b"
proof -
  let ?ds = "(b_devices b)[d := zero_device]"
  show nq: "\<not> queue_has_device d b" and b': "length (b_devices b') = length (b_devices b)" "b_queue b' = b_queue b" "b_stats b' = b_stats b"
      "b_disks b' = b_disks b" and cnt: "b_device_count b' \<le> b_device_count b"
    using u trim_count_spec [of ?ds "b_device_count b"] by (auto simp: unregister_device_def Let_def split: if_splits)
  have ds: "b_devices b' = ?ds" "b_device_count b' = trim_count ?ds (b_device_count b)"
    using u by (auto simp: unregister_device_def Let_def split: if_splits)
  have dl: "d < length (b_devices b)" using dk bi by (simp add: is_disk_def block_inv_def)
  show nth: "b_devices b' ! j = (if j = d then zero_device else b_devices b ! j)" for j using dl ds by (simp add: nth_list_update)
  show here: "present b' j \<longleftrightarrow> j \<noteq> d \<and> present b j" for j
    using trim_count_spec [of ?ds "b_device_count b"] dl ds by (auto simp: present_def nth_list_update zero_device_def split: if_splits)
  show "is_disk b' j \<longleftrightarrow> j \<noteq> d \<and> is_disk b j"
    using here [of j] nth [of j] by (auto simp: is_disk_def context_of_def present_def)
qed

lemma part_inv_slice:
  assumes inv: "part_inv view ps" and j: "present (ps_block ps) j" "ops_target (bd_ops (b_devices (ps_block ps) ! j)) = Slice_of p s"
  obtains k where "k < kMaxSlices" "sl_present (ps_slices ps ! k)" "sl_device (ps_slices ps ! k) = j" "sl_parent (ps_slices ps ! k) = p"
proof -
  have "\<not> is_disk (ps_block ps) j" using j by (simp add: is_disk_def)
  then obtain k where k: "k < kMaxSlices" "sl_present (ps_slices ps ! k)" "sl_device (ps_slices ps ! k) = j"
    using inv j unfolding part_inv_def present_def by blast
  then show ?thesis using that [of k] part_inv_live [OF inv k(1,2)] j by (simp add: slice_live_def)
qed

lemma unregister_block_inv:
  assumes inv: "part_inv view ps" and dk: "is_disk (ps_block ps) d" and np: "\<And>s. s \<in> set (ps_slices ps) \<Longrightarrow> sl_present s \<Longrightarrow> sl_parent s \<noteq> d"
    and u: "unregister_device d (ps_block ps) = (True, b)"
  shows "block_inv view b" and "no_stale b"
proof -
  let ?b = "ps_block ps"
  have bi: "block_inv view ?b" and ns: "no_stale ?b" using inv unfolding part_inv_def by blast+
  have len: "length (ps_slices ps) = kMaxSlices" using part_inv_length(2) inv by blast
  note un = unregister_devices [OF bi dk u]
  have ctx: "context_of b j = context_of ?b j" if "j \<noteq> d" for j using that un(1) by (simp add: context_of_def)
  have q: "p_device r \<noteq> d" if "r \<in> set (b_queue ?b)" for r using un(9) that by (auto simp: queue_has_device_def list_ex_iff)
  show "block_inv view b" unfolding block_inv_def
  proof (intro conjI ballI allI impI)
    show "b_device_count b \<le> length (b_devices b)" using un(4,5) bi by (simp add: block_inv_def)
    show "record_ok b r" if "r \<in> set (b_queue b)" for r
      using that q [of r] bi un(1,3,6) by (simp add: record_ok_def block_inv_def)
    show "head_written view b" using bi q ctx un(6,8) by (auto simp: head_written_def block_inv_def split: list.splits)
    show "ws_queued_bytes (b_stats b) = queued_sectors (b_queue b) * kSectorSize" using bi un(6,7) by (simp add: block_inv_def)
    show "slice_ok b j" if "j < b_device_count b" "bd_present (b_devices b ! j)" for j
    proof -
      have j: "j \<noteq> d" "present ?b j" using un(2) [of j] that by (simp_all add: present_def)
      have "slice_ok ?b j" using bi j by (simp add: block_inv_def present_def)
      moreover have "p \<noteq> d" if "ops_target (bd_ops (b_devices ?b ! j)) = Slice_of p s" for p s
        by (rule part_inv_slice [OF inv j(2) that]) (use np len nth_mem [of _ "ps_slices ps"] in metis)
      ultimately show ?thesis using j un(1,3) by (auto simp: slice_ok_def split: ops_target.splits)
    qed
    show "x = y" if "is_disk b x" "is_disk b y" "context_of b x = context_of b y" for x y
      using that un(3) ctx bi by (simp add: block_inv_def)
  qed
  show "no_stale b" unfolding no_stale_def
  proof (intro allI impI notI)
    fix j assume j: "j < length (b_devices b)" "b_device_count b \<le> j" "bd_present (b_devices b ! j)"
    have "j \<noteq> d" "bd_present (b_devices ?b ! j)" using j(3) un(1) [of j] by (auto simp: zero_device_def split: if_splits)
    moreover have "j < length (b_devices ?b)" using j(1) un(4) by simp
    ultimately have "j \<noteq> d \<and> present ?b j" using ns unfolding present_def by (meson no_stale_def not_less)
    then show False using un(2) [of j] j(2) by (simp add: present_def)
  qed
qed

lemma unregister_disk:
  assumes l: "layout_ok view ps" and dk: "is_disk (ps_block ps) d" and np: "\<And>s. s \<in> set (ps_slices ps) \<Longrightarrow> sl_present s \<Longrightarrow> sl_parent s \<noteq> d"
    and u: "unregister_device d (ps_block ps) = (ok, b)"
  shows "layout_ok view (ps\<lparr>ps_block := b\<rparr>) \<and> (i \<noteq> d \<longrightarrow> present (ps_block ps) i \<longrightarrow> same_place ps (ps\<lparr>ps_block := b\<rparr>) i)"
proof (cases ok)
  case False
  then have "b = ps_block ps" using u by (auto simp: unregister_device_def Let_def split: if_splits)
  then show ?thesis using l by (simp add: same_place_def)
next
  case True
  let ?b = "ps_block ps"
  have inv: "part_inv view ps" and par: "parents_ok ps" and si: "sized ?b" using l by (simp_all add: layout_ok_def)
  have bi: "block_inv view ?b" using inv unfolding part_inv_def by blast
  have len: "length (ps_slices ps) = kMaxSlices" using part_inv_length(2) inv by blast
  have u': "unregister_device d ?b = (True, b)" using u True by simp
  note un = unregister_devices [OF bi dk u']
  have "slice_live b s" if s: "s \<in> set (ps_slices ps)" "sl_present s" for s
  proof -
    have live: "slice_live ?b s" using s part_inv_live [OF inv] len by (auto simp: in_set_conv_nth)
    then have "sl_device s \<noteq> d" using dk by (auto simp: slice_live_def is_disk_def)
    then show ?thesis using live un(1,2) [of "sl_device s"] by (simp add: slice_live_def present_def)
  qed
  moreover have "\<exists>k<kMaxSlices. sl_present (ps_slices ps ! k) \<and> sl_device (ps_slices ps ! k) = j"
    if "j < b_device_count b" "bd_present (b_devices b ! j)" "\<not> is_disk b j" for j
  proof -
    have "present ?b j" "\<not> is_disk ?b j" using that un(2,3) [of j] by (simp_all add: present_def)
    then show ?thesis using inv unfolding part_inv_def present_def by blast
  qed
  ultimately have "part_inv view (ps\<lparr>ps_block := b\<rparr>)"
    using inv len unregister_block_inv [OF inv dk np u'] unfolding part_inv_def by simp
  moreover have "sized b" using si un(1,2) by (simp add: sized_def present_def) metis
  moreover have "same_place ps (ps\<lparr>ps_block := b\<rparr>) i" if "i \<noteq> d" "present ?b i"
    using that un(1,2) [of i] by (simp add: same_place_def)
  ultimately show ?thesis using par by (simp add: layout_ok_def parents_ok_def)
qed

section \<open>Volumes\<close>

text \<open>What the drivers and the VFS keep of the block layer and the partitions.\<close>

definition keeps_layout :: "('d \<Rightarrow> nat \<Rightarrow> nat \<Rightarrow> sector) \<Rightarrow> 'd part_state \<times> 'v \<Rightarrow> 'd part_state \<times> 'v \<Rightarrow> bool" where
  "keeps_layout view w w' \<longleftrightarrow> (layout_ok view (fst w) \<longrightarrow> layout_ok view (fst w') \<and>
     same_devices (ps_block (fst w)) (ps_block (fst w')) \<and> ps_slices (fst w') = ps_slices (fst w))"

interpretation layout: world_relation "keeps_layout view" for view :: "'d \<Rightarrow> nat \<Rightarrow> nat \<Rightarrow> sector"
  by unfold_locales (auto simp: keeps_layout_def dest: same_devices_trans)

lemma same_extent:
  assumes "same_devices (ps_block ps) (ps_block ps')" and "ps_slices ps' = ps_slices ps"
  shows "extent_of i ps' = extent_of i ps"
  using assms by (auto simp: extent_of_def partition_info_of_def device_info_def device_for_index_def same_devices_def split: option.split)

definition storage_ok :: "('d \<Rightarrow> nat \<Rightarrow> nat \<Rightarrow> sector) \<Rightarrow> ('d, 'v) storage_state \<Rightarrow> bool" where
  "storage_ok view st \<longleftrightarrow> layout_ok view (sg_part st) \<and> fs_ok (keeps_layout view) (sg_fs st) \<and>
     (\<forall>k. attached (sg_fs st) k \<longrightarrow> present (sg_block st) (mt_device (f_mounts (sg_fs st) ! k)))"

abbreviation volume :: "('d, 'v) storage_state \<Rightarrow> nat \<Rightarrow> extent" where
  "volume st k \<equiv> extent_of (mt_device (f_mounts (sg_fs st) ! k)) (sg_part st)"

definition apart :: "extent \<Rightarrow> extent \<Rightarrow> bool" where
  "apart a b \<longleftrightarrow> ex_disk a \<noteq> ex_disk b \<or> ex_start a + ex_sectors a \<le> ex_start b \<or> ex_start b + ex_sectors b \<le> ex_start a"

definition volumes_apart :: "('d, 'v) storage_state \<Rightarrow> bool" where
  "volumes_apart st \<longleftrightarrow> (\<forall>j k. attached (sg_fs st) j \<longrightarrow> attached (sg_fs st) k \<longrightarrow> j \<noteq> k \<longrightarrow> apart (volume st j) (volume st k))"

definition safe :: "('d \<Rightarrow> nat \<Rightarrow> nat \<Rightarrow> sector) \<Rightarrow> ('d, 'v) storage_state \<Rightarrow> bool" where
  "safe view st \<longleftrightarrow> storage_ok view st \<and> volumes_apart st"

text \<open>No volume is new and the devices of those that stay are where they were.\<close>

lemma safe_frame:
  assumes s: "safe view st" and "layout_ok view (sg_part st')" and "fs_ok (keeps_layout view) (sg_fs st')" and f: "fewer (sg_fs st) (sg_fs st')"
    and sp: "\<And>k. attached (sg_fs st') k \<Longrightarrow> same_place (sg_part st) (sg_part st') (mt_device (f_mounts (sg_fs st) ! k))"
  shows "safe view st'"
proof -
  have old: "attached (sg_fs st) k \<and> mt_device (f_mounts (sg_fs st') ! k) = mt_device (f_mounts (sg_fs st) ! k)" if "attached (sg_fs st') k" for k
    using f that by (simp add: fewer_def)
  have "volume st' k = volume st k" if "attached (sg_fs st') k" for k
    using extent_eq [OF _ assms(2) _ sp [OF that]] old [OF that] s by (simp add: safe_def storage_ok_def)
  moreover have "present (sg_block st') (mt_device (f_mounts (sg_fs st') ! k))" if "attached (sg_fs st') k" for k
    using sp [OF that] old [OF that] by (simp add: same_place_def)
  ultimately show ?thesis using s assms(2,3) old by (simp add: safe_def storage_ok_def volumes_apart_def)
qed

lemma keeps_place:
  assumes "keeps_layout view (ps, v) (ps', v')" and "layout_ok view ps" and "present (ps_block ps) i"
  shows "same_place ps ps' i" and "extent_of j ps' = extent_of j ps"
  using assms same_extent [of ps ps' j] by (simp_all add: keeps_layout_def same_place_def present_def same_devices_def)

lemma safe_keeps:
  assumes s: "safe view st" and ok: "fs_ok (keeps_layout view) fs" and "keeps_layout view (f_world (sg_fs st)) (f_world fs)" and "fewer (sg_fs st) fs"
  shows "safe view (st\<lparr>sg_fs := fs\<rparr>)"
proof (rule safe_frame [OF s])
  show "layout_ok view (sg_part (st\<lparr>sg_fs := fs\<rparr>))" using s assms(3) by (simp add: safe_def storage_ok_def keeps_layout_def)
  show "same_place (sg_part st) (sg_part (st\<lparr>sg_fs := fs\<rparr>)) (mt_device (f_mounts (sg_fs st) ! k))" if "attached (sg_fs (st\<lparr>sg_fs := fs\<rparr>)) k" for k
    using keeps_place(1) [of view "sg_part st" "snd (f_world (sg_fs st))" "fst (f_world fs)" "snd (f_world fs)"] assms that
    by (simp add: safe_def storage_ok_def fewer_def)
qed (use assms in simp_all)

section \<open>Every call keeps the volumes apart\<close>

lemma set_part_simps [simp]: "sg_fs (set_part ps st) = (sg_fs st)\<lparr>f_world := (ps, snd (f_world (sg_fs st)))\<rparr>"
  "fs_ok K (s\<lparr>f_world := w\<rparr>) = fs_ok K s" "fewer s (t\<lparr>f_world := w\<rparr>) = fewer s t" "attached (s\<lparr>f_world := w\<rparr>) k = attached s k"
  by (simp_all add: set_part_def fs_ok_def fewer_def attached_def fs_live_def)

lemma safe_part:
  assumes s: "safe view st" and l: "layout_ok view ps"
    and sp: "\<And>k. attached (sg_fs st) k \<Longrightarrow> same_place (sg_part st) ps (mt_device (f_mounts (sg_fs st) ! k))"
  shows "safe view (set_part ps st)"
  by (rule safe_frame [OF s]) (use s l sp in \<open>simp_all add: safe_def storage_ok_def fewer_refl\<close>)

lemma safe_block:
  assumes s: "safe view st" and "block_inv view b" and "same_devices (sg_block st) b"
  shows "safe view (set_part ((sg_part st)\<lparr>ps_block := b\<rparr>) st)"
  by (rule safe_part [OF s]) (use s layout_same [OF _ assms(2,3)] in \<open>simp_all add: safe_def storage_ok_def\<close>)

lemma safe_generation [simp]: "safe view (st\<lparr>sg_content_generation := g\<rparr>) = safe view st"
  by (simp add: safe_def storage_ok_def volumes_apart_def)

lemma attached_less: "fs_ok K s \<Longrightarrow> attached s k \<Longrightarrow> k < kMaxMounts"
  by (simp add: fs_ok_def attached_def fs_live_def)

lemma unmount_safe:
  assumes s: "safe view st" and env: "env_keeps (keeps_layout view) env" and u: "storage_unmount env path st = (r, st')"
  shows "safe view st'"
proof (cases "fs_find path (sg_fs st) = None \<or> path = kRootMountPoint \<or> path = kBootMountPoint")
  case True
  then show ?thesis using u s by (auto simp: storage_unmount_def split: option.splits)
next
  case False
  then obtain k fs where k: "fs_find path (sg_fs st) = Some k" and r: "fs_release env k True (sg_fs st) = (r, fs)" and st': "st' = st\<lparr>sg_fs := fs\<rparr>"
    using u by (auto simp: storage_unmount_def split: prod.splits option.splits)
  have ok: "fs_ok (keeps_layout view) (sg_fs st)" using s by (simp add: safe_def storage_ok_def)
  have "k < kMaxMounts" using find_slot_SomeD [of _ "take (f_mount_count (sg_fs st)) (f_mounts (sg_fs st))" k] k ok by (auto simp: fs_find_def fs_ok_def)
  then show ?thesis using layout.fs_release_spec [OF ok env r] safe_keeps [OF s] st' by simp
qed

lemma write_safe:
  assumes med: "disk_medium D view" and s: "safe view st" and w: "storage_write D h1 h2 dev_id lba bs st = (r, st')"
  shows "safe view st'"
proof (cases "st' = st")
  case False
  have b: "block_inv view (sg_block st)" using s by (simp add: safe_def storage_ok_def layout_ok_def part_inv_def)
  obtain i ok b' where bw: "block_write D h1 h2 i (unat (ucast lba :: u32)) bs (sg_block st) = (ok, b')"
    and st': "st' = (set_part ((sg_part st)\<lparr>ps_block := b'\<rparr>) st)\<lparr>sg_content_generation := sg_content_generation st + 1\<rparr>"
    using w False by (auto simp: storage_write_def Let_def set_part_def split: if_splits prod.splits)
  show ?thesis using disk_medium.block_write_flat [OF med b bw] safe_block [OF s] unfolding st' by simp
qed (use s in simp)

lemma extent_inside:
  assumes l: "layout_ok view ps" and p: "present (ps_block ps) i"
  shows "0 < ex_sectors (extent_of i ps)" and "is_disk (ps_block ps) (ex_disk (extent_of i ps))"
    and "ex_start (extent_of i ps) + ex_sectors (extent_of i ps) \<le> bd_sectors (b_devices (ps_block ps) ! ex_disk (extent_of i ps))"
proof -
  have d: "device_info i (ps_block ps) = Some (b_devices (ps_block ps) ! i)" using p by (simp add: present_iff)
  have e: "place (ps_block ps) i = Some (ex_disk (extent_of i ps), ex_start (extent_of i ps))" "is_disk (ps_block ps) (ex_disk (extent_of i ps))"
    "ex_sectors (extent_of i ps) = bd_sectors (b_devices (ps_block ps) ! i)"
    using extent_place [OF _ _ d] l by (auto simp: layout_ok_def)
  have so: "slice_ok (ps_block ps) i" using l p by (simp add: layout_ok_def part_inv_def block_inv_def present_def)
  show "0 < ex_sectors (extent_of i ps)" using e l p by (simp add: layout_ok_def sized_def present_def)
  show "is_disk (ps_block ps) (ex_disk (extent_of i ps))" by (rule e)
  show "ex_start (extent_of i ps) + ex_sectors (extent_of i ps) \<le> bd_sectors (b_devices (ps_block ps) ! ex_disk (extent_of i ps))"
    using e so d by (auto simp: place_def slice_ok_def device_info_def split: ops_target.splits)
qed

lemma rescan_layout:
  assumes l: "layout_ok view ps" and r: "partition_rescan D disk ps = (ok, ps')"
  shows "layout_ok view ps' \<and> (present (ps_block ps) i \<longrightarrow> ex_disk (extent_of i ps) \<noteq> disk \<longrightarrow> same_place ps ps' i)"
proof (cases "kMaxDisks \<le> disk \<or> is_slice disk ps \<or> device_info disk (ps_block ps) = None")
  case True
  then have "ps' = ps" using r by (auto simp: partition_rescan_def split: if_splits)
  then show ?thesis using l by (simp add: same_place_def)
next
  case False
  obtain ok1 ps1 where d: "partition_drop disk ps = (ok1, ps1)" by fastforce
  note dl = drop_layout [OF l d]
  have inv1: "part_inv view ps1" and inv: "part_inv view ps" using dl(1) l by (simp_all add: layout_ok_def)
  have ps': "ps' = scan_disk D disk ps1"
    using r d False partition_drop_spec(2) [OF inv d] by (auto simp: partition_rescan_def)
  have "is_disk (ps_block ps) disk" using not_slice_disk(1) [OF inv] False by (auto simp: device_info_def)
  then have "\<not> is_slice disk ps1" using disk_not_slice [OF inv1] dl(2) by (simp add: same_disks_def)
  then have "part_inv view ps'" using scan_disk_scanned [OF inv1] ps' by (simp add: scanned_def)
  note g = grows_layout [OF scan_disk_grows dl(1) this [unfolded ps']]
  show ?thesis using g(1) dl(4) [of i] g(2) [of i] by (auto simp: ps' same_place_def)
qed

lemma rescan_safe:
  assumes med: "disk_medium D view" and s: "safe view st" and r: "storage_rescan D dev_id st = (r, st')"
  shows "safe view st'"
proof (cases "\<exists>i. index_of dev_id (sg_block st) = Some i \<and> partition_info_of i (sg_part st) = None \<and>
    \<not> overlaps_mounted i 0 (bd_sectors (b_devices (sg_block st) ! i)) st")
  case False
  then show ?thesis using r s by (auto simp: storage_rescan_def split: option.splits if_splits)
next
  case True
  then obtain i where i: "index_of dev_id (sg_block st) = Some i" "partition_info_of i (sg_part st) = None"
    and no: "\<not> overlaps_mounted i 0 (bd_sectors (b_devices (sg_block st) ! i)) st" by blast
  have l: "layout_ok view (sg_part st)" and p: "present (sg_block st) (mt_device (f_mounts (sg_fs st) ! k))" if "attached (sg_fs st) k" for k
    using s that by (simp_all add: safe_def storage_ok_def)
  have off: "ex_disk (volume st k) \<noteq> i" if k: "attached (sg_fs st) k" for k
  proof
    assume "ex_disk (volume st k) = i"
    then show False using overlaps_mountedD [OF no, of k] extent_inside [OF l p] k by (fastforce simp: attached_def Let_def)
  qed
  obtain ok1 b where sy: "sync_all D (sg_block st) = (ok1, b)" by fastforce
  have b: "block_inv view b" "same_devices (sg_block st) b"
    using disk_medium.call_refines [OF med, of "sg_block st" Sync_all] sy s by (auto simp: safe_def storage_ok_def layout_ok_def part_inv_def)
  define st1 where "st1 = set_part ((sg_part st)\<lparr>ps_block := b\<rparr>) st"
  have s1: "safe view st1" unfolding st1_def by (rule safe_block [OF s b])
  have l1: "layout_ok view (sg_part st1)" using s1 by (simp add: safe_def storage_ok_def)
  have p1: "present (sg_block st1) (mt_device (f_mounts (sg_fs st1) ! k))" "ex_disk (volume st1 k) \<noteq> i" if "attached (sg_fs st1) k" for k
    using s1 that off [of k] same_extent [of "sg_part st" "sg_part st1"] b by (simp_all add: safe_def storage_ok_def st1_def)
  obtain ok2 ps where re: "partition_rescan D i (sg_part st1) = (ok2, ps)" by fastforce
  have ps: "layout_ok view ps \<and> (\<forall>k. attached (sg_fs st1) k \<longrightarrow> same_place (sg_part st1) ps (mt_device (f_mounts (sg_fs st1) ! k)))"
    using rescan_layout [OF l1 re] p1 by blast
  have "safe view (set_part ps st1)" by (rule safe_part [OF s1]) (use ps in blast)+
  moreover have "set_part ps st1 = set_part ps st" by (simp add: st1_def set_part_def)
  moreover have "sg_part st1 = (sg_part st)\<lparr>ps_block := b\<rparr>" by (simp add: st1_def)
  then have "st' = st1 \<or> st' = set_part ps st \<or> st' = (set_part ps st)\<lparr>sg_content_generation := sg_content_generation st + 1\<rparr>"
    using r i no sy re by (cases ok1; cases ok2) (simp_all add: storage_rescan_def st1_def)
  ultimately show ?thesis using s1 by auto
qed

text \<open>Attaching a mount of a device clear of the volumes already there.\<close>

lemma attach_safe:
  assumes s: "safe view st" and m: "fs_mount dev p dn own (sg_fs st) = (Some k, fs1)" and a: "fs_attach k fs1 = (ok, fs2)"
    and dev: "present (sg_block st) dev"
    and clear: "\<not> overlaps_mounted (ex_disk (extent_of dev (sg_part st))) (ex_start (extent_of dev (sg_part st))) (ex_sectors (extent_of dev (sg_part st))) st"
  shows "safe view (st\<lparr>sg_fs := fs2\<rparr>)" and "k < kMaxMounts"
proof -
  let ?K = "keeps_layout view"
  have ok: "fs_ok ?K (sg_fs st)" and l: "layout_ok view (sg_part st)" using s by (simp_all add: safe_def storage_ok_def)
  note ms = layout.fs_mount_spec [OF ok m]
  have k: "fs_live k fs1" "mt_device (f_mounts fs1 ! k) = dev" "fs_ok ?K fs1" using ms by simp_all
  then show km: "k < kMaxMounts" by (simp add: fs_ok_def fs_live_def)
  note as = layout.fs_attach_spec [OF k(3) a k(1) km]
  have "?K (f_world fs1) (f_world fs2)" using as by blast
  then have w: "?K (f_world (sg_fs st)) (f_world fs2)" using ms layout.trans [of view] by blast
  note kp = keeps_place [of view "sg_part st" "snd (f_world (sg_fs st))" "fst (f_world fs2)" "snd (f_world fs2)", simplified, OF w l]
  have other: "attached (sg_fs st) j \<and> mt_device (f_mounts fs2 ! j) = mt_device (f_mounts (sg_fs st) ! j)" if "attached fs2 j" "j \<noteq> k" for j
    using that as ms by (simp add: fewer_def)
  have new: "mt_device (f_mounts fs2 ! k) = dev" using as k by simp
  have p: "present (sg_block st) (mt_device (f_mounts fs2 ! j))" if "attached fs2 j" for j
    using that other [of j] new dev s by (cases "j = k") (simp_all add: safe_def storage_ok_def)
  let ?st = "st\<lparr>sg_fs := fs2\<rparr>"
  have "storage_ok view ?st"
    using as w l kp(1) p by (simp add: storage_ok_def keeps_layout_def same_place_def)
  moreover have v: "volume ?st j = extent_of (mt_device (f_mounts fs2 ! j)) (sg_part st)" for j using kp(2) [OF dev] by simp
  have "apart (volume ?st i) (volume ?st k)" if i: "attached fs2 i" "i \<noteq> k" for i
    using overlaps_mountedD [OF clear, of i] other [OF i] unfolding v new by (auto simp: apart_def Let_def attached_def)
  moreover have "apart (volume ?st i) (volume ?st j)" if "attached fs2 i" "attached fs2 j" "i \<noteq> j" "i \<noteq> k" "j \<noteq> k" for i j
    using that other s unfolding v by (simp add: safe_def volumes_apart_def)
  moreover have "apart x y = apart y x" for x y by (auto simp: apart_def)
  ultimately have "volumes_apart ?st" unfolding volumes_apart_def by (metis (no_types, lifting) storage_state.select_convs(1) storage_state.surjective storage_state.update_convs(1))
  then show "safe view ?st" using \<open>storage_ok view ?st\<close> by (simp add: safe_def)
qed

lemma safe_world:
  assumes s: "safe view st" and w: "keeps_layout view (f_world (sg_fs st)) w"
  shows "safe view (st\<lparr>sg_fs := (sg_fs st)\<lparr>f_world := w\<rparr>\<rparr>)"
  by (rule safe_keeps [OF s]) (use s w in \<open>simp_all add: safe_def storage_ok_def fewer_refl\<close>)

lemma overlaps_same:
  assumes "\<And>j. extent_of j (fst w) = extent_of j (sg_part st)"
  shows "overlaps_mounted disk start cnt (st\<lparr>sg_fs := (sg_fs st)\<lparr>f_world := w\<rparr>\<rparr>) = overlaps_mounted disk start cnt st"
  by (simp add: overlaps_mounted_def fs_mount_info_def fs_live_def assms cong: if_cong)

lemma mount_safe:
  assumes s: "safe view st" and env: "env_keeps (keeps_layout view) env" and m: "storage_mount env dev_id path own st = (r, st')"
  shows "safe view st'"
proof (cases "\<exists>i. index_of dev_id (sg_block st) = Some i \<and> valid_mount_path path \<and>
    \<not> (ve_resolve env path (f_world (sg_fs st)) \<noteq> None \<or> fs_find path (sg_fs st) \<noteq> None) \<and>
    \<not> (partition_info_of i (sg_part st) = None \<and> di_scheme (partition_disk_info i (sg_part st)) \<noteq> Scheme_none) \<and>
    \<not> overlaps_mounted (ex_disk (extent_of i (sg_part st))) (ex_start (extent_of i (sg_part st))) (ex_sectors (extent_of i (sg_part st))) st")
  case False
  then have "st' = st" using m by (auto simp: storage_mount_def Let_def split: option.splits if_splits)
  then show ?thesis using s by simp
next
  case True
  then obtain i where i: "index_of dev_id (sg_block st) = Some i" and g: "valid_mount_path path"
    "\<not> (ve_resolve env path (f_world (sg_fs st)) \<noteq> None \<or> fs_find path (sg_fs st) \<noteq> None)"
    "\<not> (partition_info_of i (sg_part st) = None \<and> di_scheme (partition_disk_info i (sg_part st)) \<noteq> Scheme_none)"
    and clear: "\<not> overlaps_mounted (ex_disk (extent_of i (sg_part st))) (ex_start (extent_of i (sg_part st))) (ex_sectors (extent_of i (sg_part st))) st"
    by blast
  have pi: "present (sg_block st) i" using index_of_SomeD [OF i] by (auto simp: present_iff)
  obtain parent w where pw: "(case ve_resolve env kMountParent (f_world (sg_fs st)) of Some t \<Rightarrow> (Some t, f_world (sg_fs st))
      | None \<Rightarrow> ve_mkdir env kMountParent (f_world (sg_fs st))) = (parent, w)" by (meson surj_pair)
  have kw: "keeps_layout view (f_world (sg_fs st)) w"
  proof (cases "ve_resolve env kMountParent (f_world (sg_fs st))")
    case None
    then have "w = snd (ve_mkdir env kMountParent (f_world (sg_fs st)))" using pw by simp
    then show ?thesis using env unfolding env_keeps_def by blast
  next
    case (Some t)
    then have "w = f_world (sg_fs st)" using pw by simp
    then show ?thesis by (simp add: layout.refl)
  qed
  define fs where "fs = (sg_fs st)\<lparr>f_world := w\<rparr>"
  define st1 where "st1 = st\<lparr>sg_fs := fs\<rparr>"
  have s1: "safe view st1" unfolding st1_def fs_def by (rule safe_world [OF s kw])
  have ok1: "fs_ok (keeps_layout view) fs" using s1 by (simp add: safe_def storage_ok_def st1_def)
  have ex: "extent_of j (sg_part st1) = extent_of j (sg_part st)" "present (sg_block st1) i" for j
    using kw s pi same_extent [of "sg_part st" "fst w" j] by (auto simp: keeps_layout_def safe_def storage_ok_def st1_def fs_def present_def same_devices_def)
  have clear1: "\<not> overlaps_mounted (ex_disk (extent_of i (sg_part st1))) (ex_start (extent_of i (sg_part st1))) (ex_sectors (extent_of i (sg_part st1))) st1"
    using clear ex(1) overlaps_same [of w st] by (simp add: st1_def fs_def)
  obtain mk fs1 where mo: "fs_mount i path None (Some own) fs = (mk, fs1)" by fastforce
  note ms = layout.fs_mount_spec [OF ok1 mo]
  have fs1: "safe view (st\<lparr>sg_fs := fs1\<rparr>)" using safe_keeps [OF s1] ms by (simp add: st1_def)
  have st': "(r, st') = (if parent \<noteq> Some Node_directory then (negative_error SX_EIO, st1)
      else case mk of None \<Rightarrow> (negative_error SX_EIO, st\<lparr>sg_fs := fs1\<rparr>)
      | Some k \<Rightarrow> (case fs_attach k fs1 of (True, fs2) \<Rightarrow> (0, st\<lparr>sg_fs := fs2\<rparr>)
           | (False, fs2) \<Rightarrow> (negative_error SX_EIO, st\<lparr>sg_fs := snd (fs_release env k False fs2)\<rparr>)))"
  proof -
    have c: "(ve_resolve env path (f_world (sg_fs st)) \<noteq> None \<or> fs_find path (sg_fs st) \<noteq> None) = False"
      "(partition_info_of i (sg_part st) = None \<and> di_scheme (partition_disk_info i (sg_part st)) \<noteq> Scheme_none) = False" "valid_mount_path path = True"
      "overlaps_mounted (ex_disk (extent_of i (sg_part st))) (ex_start (extent_of i (sg_part st))) (ex_sectors (extent_of i (sg_part st))) st = False"
      using g clear by simp_all
    show ?thesis
      using m unfolding storage_mount_def i option.case Let_def c pw prod.case fs_def [symmetric] mo not_True_eq_False if_False st1_def by (rule sym)
  qed
  show ?thesis
  proof (cases "parent \<noteq> Some Node_directory \<or> mk = None")
    case True
    then show ?thesis using st' s1 fs1 by (auto split: if_splits)
  next
    case False
    then obtain k where k: "mk = Some k" by blast
    obtain ok fs2 where a: "fs_attach k fs1 = (ok, fs2)" by fastforce
    have mo1: "fs_mount i path None (Some own) (sg_fs st1) = (Some k, fs1)" using mo k by (simp add: st1_def)
    note as = attach_safe [OF s1 mo1 a ex(2) clear1]
    have s2: "safe view (st\<lparr>sg_fs := fs2\<rparr>)" using as(1) by (simp add: st1_def)
    obtain rr fs3 where rel: "fs_release env k False fs2 = (rr, fs3)" by fastforce
    have "fs_ok (keeps_layout view) fs2" using s2 by (simp add: safe_def storage_ok_def)
    then have "safe view (st\<lparr>sg_fs := fs3\<rparr>)"
      using layout.fs_release_spec [OF _ env rel as(2)] safe_keeps [OF s2] by simp
    then show ?thesis using st' s2 False k a rel by (cases ok) simp_all
  qed
qed

text \<open>Releasing the volumes of a disk.\<close>

lemma release_disk_spec:
  assumes env: "env_keeps (keeps_layout view) env"
  shows "safe view st \<Longrightarrow> \<forall>k\<in>set ks. k < kMaxMounts \<Longrightarrow> release_disk env disk ks st = (ok, st') \<Longrightarrow>
    safe view st' \<and> keeps_layout view (f_world (sg_fs st)) (f_world (sg_fs st')) \<and> fewer (sg_fs st) (sg_fs st') \<and>
    (ok \<longrightarrow> (\<forall>k\<in>set ks. attached (sg_fs st') k \<longrightarrow> ex_disk (extent_of (mt_device (f_mounts (sg_fs st') ! k)) (sg_part st)) \<noteq> disk))"
proof (induction ks arbitrary: st)
  case Nil
  then show ?case by (simp add: layout.refl fewer_refl)
next
  case (Cons k ks)
  let ?goal = "\<lambda>st1. safe view st1 \<and> keeps_layout view (f_world (sg_fs st)) (f_world (sg_fs st1)) \<and> fewer (sg_fs st) (sg_fs st1)"
  have here: ?case if skip: "release_disk env disk ks st = (ok, st')" and "attached (sg_fs st) k \<Longrightarrow> ex_disk (volume st k) \<noteq> disk"
  proof -
    have ih: "safe view st' \<and> keeps_layout view (f_world (sg_fs st)) (f_world (sg_fs st')) \<and> fewer (sg_fs st) (sg_fs st') \<and>
      (ok \<longrightarrow> (\<forall>k\<in>set ks. attached (sg_fs st') k \<longrightarrow> ex_disk (extent_of (mt_device (f_mounts (sg_fs st') ! k)) (sg_part st)) \<noteq> disk))"
      using Cons.IH [OF Cons.prems(1) _ skip] Cons.prems(2) by simp
    then show ?thesis using that(2) by (auto simp: fewer_def)
  qed
  show ?case
  proof (cases "fs_live k (sg_fs st) \<and> ex_disk (volume st k) = disk")
    case False
    then have "release_disk env disk ks st = (ok, st')" using Cons.prems(3) by (auto simp: fs_mount_info_def Let_def split: if_splits)
    then show ?thesis using here False by (auto simp: attached_def)
  next
    case True
    show ?thesis
    proof (cases "is_root_mount k (sg_fs st) \<or> mt_point (f_mounts (sg_fs st) ! k) = kBootMountPoint")
      case stop: True
      then have "ok = False \<and> st' = st" using Cons.prems(3) True by (auto simp: fs_mount_info_def)
      then show ?thesis using Cons.prems(1) by (simp add: layout.refl fewer_refl)
    next
      case False
      obtain r fs where rel: "fs_release env k True (sg_fs st) = (r, fs)" by fastforce
      have "fs_ok (keeps_layout view) (sg_fs st)" using Cons.prems(1) by (simp add: safe_def storage_ok_def)
      then have sp: "fs_ok (keeps_layout view) fs \<and> keeps_layout view (f_world (sg_fs st)) (f_world fs) \<and> fewer (sg_fs st) fs \<and> (r = 0 \<longrightarrow> \<not> fs_live k fs)"
        using layout.fs_release_spec [OF _ env rel] Cons.prems(2) by simp
      have s1: "safe view (st\<lparr>sg_fs := fs\<rparr>)" using safe_keeps [OF Cons.prems(1)] sp by blast
      have e: "(if r \<noteq> 0 then (False, st\<lparr>sg_fs := fs\<rparr>) else release_disk env disk ks (st\<lparr>sg_fs := fs\<rparr>)) = (ok, st')"
        using Cons.prems(3) True False rel by (simp add: fs_mount_info_def)
      show ?thesis
      proof (cases "r = 0")
        case False
        then show ?thesis using e s1 sp by auto
      next
        case True
        have same: "extent_of j (fst (f_world fs)) = extent_of j (sg_part st)" for j
          using sp Cons.prems(1) same_extent by (auto simp: keeps_layout_def safe_def storage_ok_def)
        have ih: "safe view st' \<and> keeps_layout view (f_world fs) (f_world (sg_fs st')) \<and> fewer fs (sg_fs st') \<and>
          (ok \<longrightarrow> (\<forall>k\<in>set ks. attached (sg_fs st') k \<longrightarrow> ex_disk (extent_of (mt_device (f_mounts (sg_fs st') ! k)) (sg_part st)) \<noteq> disk))"
          using Cons.IH [OF s1, of] e True Cons.prems(2) same by simp
        moreover have "keeps_layout view (f_world (sg_fs st)) (f_world (sg_fs st'))" using ih sp layout.trans [of view] by blast
        moreover have "fewer (sg_fs st) (sg_fs st')" using ih sp fewer_trans by blast
        moreover have "\<not> attached (sg_fs st') k" using ih sp True by (auto simp: fewer_def attached_def)
        ultimately show ?thesis by simp
      qed
    qed
  qed
qed

lemma forget_safe:
  assumes s: "safe view st" and env: "env_keeps (keeps_layout view) env" and f: "forget_disk env index st = (r, st')"
  shows "safe view st'"
proof (cases "device_info index (sg_block st) = None")
  case True
  then show ?thesis using f s by (simp add: forget_disk_def)
next
  case False
  obtain ok1 st1 where rel: "release_disk env index [0..<kMaxMounts] st = (ok1, st1)" by fastforce
  note rs = release_disk_spec [OF env s _ rel]
  have s1: "safe view st1" and w1: "keeps_layout view (f_world (sg_fs st)) (f_world (sg_fs st1))" using rs by simp_all
  have l1: "layout_ok view (sg_part st1)" using s1 by (simp add: safe_def storage_ok_def)
  show ?thesis
  proof (cases ok1)
    case False
    then show ?thesis using f \<open>device_info index (sg_block st) \<noteq> None\<close> rel s1 by (auto simp: forget_disk_def)
  next
    case True
    have ext: "extent_of j (sg_part st1) = extent_of j (sg_part st)" for j
      using w1 s same_extent by (auto simp: keeps_layout_def safe_def storage_ok_def)
    have off: "ex_disk (volume st1 k) \<noteq> index" if "attached (sg_fs st1) k" for k
      using rs True that attached_less [of "keeps_layout view" "sg_fs st1" k] s1 by (auto simp: ext safe_def storage_ok_def)
    have p1: "present (sg_block st1) (mt_device (f_mounts (sg_fs st1) ! k))" if "attached (sg_fs st1) k" for k
      using s1 that by (simp add: safe_def storage_ok_def)
    obtain ok2 ps where dr: "partition_drop index (sg_part st1) = (ok2, ps)" by fastforce
    note dl = drop_layout [OF l1 dr]
    have s2: "safe view (set_part ps st1)" using safe_part [OF s1 dl(1)] dl(4) off p1 by simp
    obtain ok3 b where un: "unregister_device index (ps_block ps) = (ok3, b)" by fastforce
    have s3: "safe view (set_part (ps\<lparr>ps_block := b\<rparr>) st1)" if ok2: "ok2"
    proof -
      have inv1: "part_inv view (sg_part st1)" using l1 by (simp add: layout_ok_def)
      have ns: "\<not> is_slice index (sg_part st1)" using partition_drop_spec(2) [OF inv1 dr] ok2 by blast
      have "present (sg_block st) index" using False unfolding device_info_present present_def by blast
      then have "present (sg_block st1) index" using w1 s by (simp add: keeps_layout_def safe_def storage_ok_def present_def same_devices_def)
      then have "is_disk (sg_block st1) index" using not_slice_disk(1) [OF inv1 ns] by (simp add: present_iff device_info_def)
      then have dk: "is_disk (ps_block ps) index" using dl(2) by (simp add: same_disks_def)
      have ul: "layout_ok view (ps\<lparr>ps_block := b\<rparr>)" "i \<noteq> index \<Longrightarrow> present (ps_block ps) i \<Longrightarrow> same_place ps (ps\<lparr>ps_block := b\<rparr>) i" for i
        using unregister_disk [OF dl(1) dk _ un] dl(3) ok2 by blast+
      have "mt_device (f_mounts (sg_fs st1) ! k) \<noteq> index" if "attached (sg_fs st1) k" for k
      proof
        assume k: "mt_device (f_mounts (sg_fs st1) ! k) = index"
        have "partition_info_of index (sg_part st1) = None"
          using ns by (auto simp: partition_info_of_def is_slice_def list_ex_iff find_slot_None_iff split: option.split)
        then show False using off [OF that] k by (simp add: extent_of_def)
      qed
      then have "same_place (sg_part st1) (ps\<lparr>ps_block := b\<rparr>) (mt_device (f_mounts (sg_fs st1) ! k))" if "attached (sg_fs st1) k" for k
        using dl(4) [OF p1 off] ul(2) that by (auto simp: same_place_def)
      then show ?thesis using safe_part [OF s1 ul(1)] by blast
    qed
    have "st' = set_part ps st1 \<and> \<not> ok2 \<or> ok2 \<and> (st' = set_part (ps\<lparr>ps_block := b\<rparr>) st1 \<or>
        st' = (set_part (ps\<lparr>ps_block := b\<rparr>) st1)\<lparr>sg_content_generation := sg_content_generation st1 + 1\<rparr>)"
      using f False rel True dr un by (cases ok2; cases ok3) (simp_all add: forget_disk_def)
    then show ?thesis using s2 s3 by auto
  qed
qed

section \<open>Sequences of calls\<close>

datatype storage_call =
    Mount_volume u32 string fs_owner
  | Unmount_volume string
  | Write_sectors bool bool u32 u64 "sector list"
  | Rescan_disk u32
  | Forget_disk nat

definition storage_step ::
  "'d disk_driver \<Rightarrow> ('d part_state \<times> 'v) vfs_env \<Rightarrow> storage_call \<Rightarrow> ('d, 'v) storage_state \<Rightarrow> int \<times> ('d, 'v) storage_state" where
  "storage_step D env c st =
     (case c of
        Mount_volume i p own \<Rightarrow> storage_mount env i p own st
      | Unmount_volume p \<Rightarrow> storage_unmount env p st
      | Write_sectors h1 h2 i lba bs \<Rightarrow> storage_write D h1 h2 i lba bs st
      | Rescan_disk i \<Rightarrow> storage_rescan D i st
      | Forget_disk i \<Rightarrow> (case forget_disk env i st of (ok, st1) \<Rightarrow> (if ok then 1 else 0, st1)))"

fun storage_run ::
  "'d disk_driver \<Rightarrow> ('d part_state \<times> 'v) vfs_env \<Rightarrow> storage_call list \<Rightarrow> ('d, 'v) storage_state \<Rightarrow> int list \<times> ('d, 'v) storage_state" where
  "storage_run D env [] st = ([], st)"
| "storage_run D env (c # cs) st =
     (case storage_step D env c st of (r, st1) \<Rightarrow> (case storage_run D env cs st1 of (rs, st2) \<Rightarrow> (r # rs, st2)))"

lemma step_safe:
  assumes "disk_medium D view" and "env_keeps (keeps_layout view) env" and "safe view st" and "storage_step D env c st = (r, st')"
  shows "safe view st'"
  using assms mount_safe [OF assms(3,2)] unmount_safe [OF assms(3,2)] write_safe [OF assms(1,3)] rescan_safe [OF assms(1,3)] forget_safe [OF assms(3,2)]
  by (auto simp: storage_step_def split: storage_call.splits prod.splits)

text \<open>C3. No two mounted volumes ever share a sector: whatever sequence of mounts, unmounts, raw writes,
  rescans of partition tables and removals of disks is made, any two volumes that are attached lie
  on different disks or in disjoint ranges of one disk, and every one of them is on a device that is there.
  The file system drivers and the VFS are any that leave the devices and the slices as they are.\<close>

theorem volumes_never_overlap:
  assumes "disk_medium D view" and "env_keeps (keeps_layout view) env" and "storage_ok view st" and "volumes_apart st"
    and "storage_run D env cs st = (rs, st')"
  shows "storage_ok view st' \<and> volumes_apart st'"
proof -
  have "safe view st \<Longrightarrow> storage_run D env cs st = (rs, st') \<Longrightarrow> safe view st'" for st rs
    by (induction cs arbitrary: st rs) (auto split: prod.splits dest: step_safe [OF assms(1,2)])
  then show ?thesis using assms(3-) by (auto simp: safe_def)
qed

text \<open>A disk of four sectors with one partition of two, a driver that takes any device and a tree
  in which only the parent of the mount points exists.\<close>

definition example_device :: "image block_state" where
  "example_device = block_example\<lparr>b_devices := [(b_devices block_example ! 0)\<lparr>bd_id := 1\<rparr>, (b_devices block_example ! 1)\<lparr>bd_id := 2\<rparr>]\<rparr>"

definition example_parts :: "image part_state" where
  "example_parts = \<lparr>ps_slices = \<lparr>sl_present = True, sl_device = 1, sl_parent = 0,
       sl_info = zero_info\<lparr>pt_parent := 0, pt_start := 1, pt_count := 2, pt_scheme := Scheme_mbr, pt_number := 1\<rparr>\<rparr> # replicate 15 zero_slice,
     ps_disks = (zero_disk\<lparr>di_scheme := Scheme_mbr\<rparr>) # replicate (kMaxDisks - 1) zero_disk, ps_block = example_device\<rparr>"

definition example_driver :: "'w fs_driver" where
  "example_driver = \<lparr>fd_name = ''sxfs'', fd_priority = 10, fd_can_be_root = True, fd_probe = Some (\<lambda>i p w. (Some 0, w)),
     fd_attach = Some (\<lambda>v w. (True, w)), fd_unmount = Some (\<lambda>v w. w), fd_has_read = True, fd_has_refresh = True,
     fd_stats = None, fd_sync = None, fd_adopt_owner = None\<rparr>"

definition example_tree :: "'w vfs_env" where
  "example_tree = \<lparr>ve_resolve = (\<lambda>p w. if p = kMountParent then Some Node_directory else None), ve_mkdir = (\<lambda>p w. (None, w)),
     ve_detach = (\<lambda>p c w. (True, w)), ve_last_error = (\<lambda>w. 0)\<rparr>"

definition storage_example :: "(image, unit) storage_state" where
  "storage_example = \<lparr>sg_fs = \<lparr>f_drivers = [example_driver], f_mounts = replicate kMaxMounts zero_mount, f_mount_count = 0, f_generation = 0,
     f_world = (example_parts, ())\<rparr>, sg_detected = replicate kMaxCache \<lparr>de_id = 0, de_generation = 0, de_fs_name = []\<rparr>,
     sg_detected_next = 0, sg_content_generation = 0\<rparr>"

lemma example_layout: "layout_ok image_view example_parts"
proof -
  have ds: "b_devices example_device ! 0 = zero_device\<lparr>bd_present := True, bd_id := 1, bd_ops := example_ops, bd_sectors := 4, bd_writable := True\<rparr>"
    "b_devices example_device ! Suc 0 = zero_device\<lparr>bd_present := True, bd_id := 2, bd_ops := example_ops\<lparr>ops_target := Slice_of 0 1, ops_deferred := False\<rparr>,
      bd_sectors := 2, bd_writable := True\<rparr>" "length (b_devices example_device) = 2" "b_device_count example_device = 2" "b_queue example_device = []"
    "ws_queued_bytes (b_stats example_device) = 0"
    by (simp_all add: example_device_def block_example_def)
  have dk: "is_disk example_device i \<longleftrightarrow> i = 0" for i
    by (cases i rule: nat.exhaust; cases "i - 1") (auto simp: is_disk_def ds context_of_def example_ops_def zero_device_def)
  have "block_inv image_view example_device"
    unfolding block_inv_def using dk by (auto simp: ds head_written_def queued_sectors_def slice_ok_def example_ops_def zero_device_def less_Suc_eq numeral_2_eq_2)
  moreover have "no_stale example_device" by (simp add: no_stale_def ds)
  moreover have nth: "ps_slices example_parts ! k = (if k = 0 then \<lparr>sl_present = True, sl_device = 1, sl_parent = 0,
       sl_info = zero_info\<lparr>pt_parent := 0, pt_start := 1, pt_count := 2, pt_scheme := Scheme_mbr, pt_number := 1\<rparr>\<rparr> else zero_slice)" if "k < kMaxSlices" for k
    using that by (simp add: example_parts_def kMaxSlices_def nth_Cons')
  ultimately have "part_inv image_view example_parts"
    unfolding part_inv_def using dk
    by (auto simp: example_parts_def kMaxSlices_def kMaxDisks_def slice_live_def ds example_ops_def zero_device_def zero_slice_def nth_Cons' less_Suc_eq numeral_2_eq_2 split: if_splits)
  moreover have "parents_ok example_parts" by (simp add: parents_ok_def example_parts_def zero_slice_def)
  moreover have "sized (ps_block example_parts)" by (auto simp: sized_def example_parts_def ds less_Suc_eq numeral_2_eq_2)
  ultimately show ?thesis by (simp add: layout_ok_def)
qed

lemma example_keeps: "env_keeps (keeps_layout view) example_tree" "driver_keeps (keeps_layout view) example_driver"
  by (simp_all add: env_keeps_def driver_keeps_def example_tree_def example_driver_def layout.refl)

lemma example_safe: "storage_ok image_view storage_example" "volumes_apart storage_example"
  using example_layout example_keeps(2) [of image_view]
  by (simp_all add: storage_ok_def volumes_apart_def storage_example_def fs_ok_def attached_def fs_live_def zero_mount_def)
    (simp_all add: example_driver_def)

abbreviation example_owner :: fs_owner where "example_owner \<equiv> \<lparr>ow_uid = 1000, ow_gid = 1000\<rparr>"

definition example_mounted :: "(image, unit) storage_state" where
  "example_mounted = storage_example\<lparr>sg_fs := (sg_fs storage_example)\<lparr>f_mounts := (replicate kMaxMounts zero_mount)[0 := \<lparr>mt_in_use = True,
     mt_driver = 0, mt_volume = 0, mt_device = 1, mt_point = ''/mnt/a'', mt_attached = True\<rparr>], f_mount_count := 1, f_generation := 1\<rparr>\<rparr>"

lemma example_extents: "extent_of 1 example_parts = \<lparr>ex_disk = 0, ex_start = 1, ex_sectors = 2\<rparr>"
  "extent_of 0 example_parts = \<lparr>ex_disk = 0, ex_start = 0, ex_sectors = 4\<rparr>"
  "index_of 1 example_device = Some 0" "index_of 2 example_device = Some 1"
  "partition_info_of 1 example_parts \<noteq> None"
  by (simp_all add: extent_of_def partition_info_of_def example_parts_def zero_info_def zero_slice_def numeral_eq_Suc index_of_def upt_rec
      device_info_def device_for_index_def example_device_def block_example_def zero_device_def)

lemma example_mount: "storage_mount example_tree 2 ''/mnt/a'' example_owner storage_example = (0, example_mounted)"
  using example_extents
  by (simp add: example_mounted_def storage_mount_def storage_example_def valid_mount_path_def kMountParent_def kMaxMountName_def name_char_def
      example_tree_def fs_find_def overlaps_mounted_def fs_mount_def copy_mount_point_def kMountPointCapacity_def kMaxMounts_def zero_mount_def
      numeral_eq_Suc next_driver_def example_driver_def kRootMountPoint_def fs_attach_def fs_live_def Let_def example_parts_def)

lemma example_state: "sg_part example_mounted = example_parts" "f_mount_count (sg_fs example_mounted) = 1" "ps_block example_parts = example_device"
  "f_mounts (sg_fs example_mounted) ! 0 = \<lparr>mt_in_use = True, mt_driver = 0, mt_volume = 0, mt_device = 1, mt_point = ''/mnt/a'', mt_attached = True\<rparr>"
  "attached (sg_fs example_mounted) 0" "volume example_mounted 0 = \<lparr>ex_disk = 0, ex_start = 1, ex_sectors = 2\<rparr>"
  using example_extents by (simp_all add: example_mounted_def storage_example_def kMaxMounts_def attached_def fs_live_def example_parts_def)

lemma example_overlaps: "overlaps_mounted 0 start cnt example_mounted \<longleftrightarrow> start < 3 \<and> 1 < start + cnt"
  using example_extents by (simp add: overlaps_mounted_def example_state fs_mount_info_def fs_live_def numeral_3_eq_3)

lemma example_busy:
  "storage_mount example_tree 2 ''/mnt/b'' example_owner example_mounted = (- SX_EBUSY, example_mounted)"
  "storage_write ramdisk_driver True True 1 2 [[7]] example_mounted = (- SX_EBUSY, example_mounted)"
proof -
  have "fs_find ''/mnt/b'' (sg_fs example_mounted) = None" by (simp add: fs_find_def example_mounted_def storage_example_def kMaxMounts_def numeral_eq_Suc)
  then show "storage_mount example_tree 2 ''/mnt/b'' example_owner example_mounted = (- SX_EBUSY, example_mounted)"
    using example_extents
    by (auto simp: storage_mount_def example_state valid_mount_path_def kMountParent_def kMaxMountName_def name_char_def example_tree_def
        example_overlaps negative_error_def)
  have "check_range (Some 0) 2 (Suc 0) example_device = 0" "bd_writable (b_devices example_device ! 0)"
    by (simp_all add: check_range_def device_info_def device_for_index_def example_device_def block_example_def zero_device_def kMaxTransferSectors_def)
  then show "storage_write ramdisk_driver True True 1 2 [[7]] example_mounted = (- SX_EBUSY, example_mounted)"
    using example_extents by (simp add: storage_write_def example_state example_overlaps negative_error_def)
qed

theorem volumes_never_overlap_witness:
  "(let (rs, st') = storage_run ramdisk_driver example_tree [Mount_volume 2 ''/mnt/a'' example_owner, Mount_volume 2 ''/mnt/b'' example_owner,
       Write_sectors True True 1 2 [[7]]] storage_example
    in rs = [0, - SX_EBUSY, - SX_EBUSY] \<and> attached (sg_fs st') 0 \<and> storage_ok image_view st' \<and> volumes_apart st')"
proof -
  let ?cs = "[Mount_volume 2 ''/mnt/a'' example_owner, Mount_volume 2 ''/mnt/b'' example_owner, Write_sectors True True 1 2 [[7]]]"
  have r: "storage_run ramdisk_driver example_tree ?cs storage_example = ([0, - SX_EBUSY, - SX_EBUSY], example_mounted)"
    by (simp add: storage_step_def example_mount example_busy)
  then show ?thesis
    using example_state(5) volumes_never_overlap [OF ramdisk.disk_medium_axioms example_keeps(1) example_safe r] by (simp add: Let_def)
qed

text \<open>C15. Writing raw sectors never damages a mounted file system: a write of sectors of a disk or a
  partition that the storage call accepts leaves every sector of every attached volume as it was, as a
  reader of the disk sees it, and so does one it refuses or one that fails half way.\<close>

theorem raw_write_spares_volumes:
  assumes "disk_medium D view" and "storage_ok view st" and "sectors_32 (sg_block st)"
    and "storage_write D h1 h2 dev_id lba bs st = (r, st')"
  shows "\<forall>k x. attached (sg_fs st) k \<and> ex_start (volume st k) \<le> x \<and> x < ex_start (volume st k) + ex_sectors (volume st k) \<longrightarrow>
    disk_seen view (sg_block st') (ex_disk (volume st k)) x = disk_seen view (sg_block st) (ex_disk (volume st k)) x"
proof -
  have "part_inv view (sg_part st)" "parents_ok (sg_part st)" using assms(2) by (simp_all add: storage_ok_def layout_ok_def)
  then show ?thesis using storage_write_volumes [OF assms(1) _ _ assms(3,4)] by (simp add: attached_def)
qed

theorem raw_write_spares_volumes_witness:
  "disk_seen image_view (sg_block (snd (storage_write ramdisk_driver True True 1 0 [[7]] example_mounted))) 0 2 = disk_seen image_view example_device 0 2"
proof -
  have "storage_ok image_view example_mounted"
    using mount_safe [of image_view, OF _ example_keeps(1) example_mount] example_safe by (simp add: safe_def)
  moreover have "sectors_32 (sg_block example_mounted)"
    by (auto simp: sectors_32_def example_state example_device_def block_example_def nth_Cons')
  ultimately show ?thesis
    using raw_write_spares_volumes [OF ramdisk.disk_medium_axioms _ _ surjective_pairing, of example_mounted True True 1 0 "[[7]]",
      THEN spec, of 0, THEN spec, of 2] example_state by simp
qed

text \<open>C29. Which mounted volume serves a path: none for the kernel's own directories; otherwise the attached
  mount whose mount point is the longest that the path is at or below, and none exactly when the path is
  below no attached mount point.\<close>

theorem owner_is_longest:
  "case owner_of path s of
     None \<Rightarrow> is_memory_path path \<or> (\<forall>j. \<not> contains s path j)
   | Some i \<Rightarrow> \<not> is_memory_path path \<and> contains s path i \<and>
       (\<forall>j. contains s path j \<longrightarrow> length (mt_point (f_mounts s ! j)) \<le> length (mt_point (f_mounts s ! i)))"
  using owner_fold [OF le_refl, of s path]
  by (auto simp: owner_of_def contains_def fs_live_def split: prod.splits option.splits)

theorem owner_is_longest_witness:
  "owner_of ''/mnt/a/x'' (sg_fs example_mounted) = Some 0 \<and> contains (sg_fs example_mounted) ''/mnt/a/x'' 0 \<and> owner_of ''/mnt/ab'' (sg_fs example_mounted) = None"
proof -
  have "owner_of ''/mnt/a/x'' (sg_fs example_mounted) = Some 0" "owner_of ''/mnt/ab'' (sg_fs example_mounted) = None"
    by (simp_all add: owner_of_def is_memory_path_def kDeviceRoot_def kRescueRoot_def example_state owner_step_def path_below_def)
  then show ?thesis using owner_is_longest [of "''/mnt/a/x''" "sg_fs example_mounted"] by simp
qed

end
