(* ===== verification/Spec2Isabelle.thy ===== *)
theory Spec2Isabelle
  imports Kernel_Section Kernel_Wait Sx_Disk Storage
begin

text \<open>
  A verification library for the storage and object core of SavanXP, an operating system for x86-64
  written in C and C++.

  \<^bold>\<open>The program and how its parts interact.\<close> The page allocator (\<^verbatim>\<open>kernel/physical_memory.cpp\<close>) hands out
  physical pages; the heap (\<^verbatim>\<open>kernel/heap.cpp\<close>) builds arenas from them; the object layer
  (\<^verbatim>\<open>kernel/object.cpp\<close>) keeps events, timers, semaphores, ports and sections, and sections take pages
  from the allocator and their page lists from the heap. Processes reach objects through handle
  tables, pipes and waits (\<^verbatim>\<open>kernel/process.cpp\<close>, \<^verbatim>\<open>kernel/sx.cpp\<close>, \<^verbatim>\<open>kernel/native_dispatch.cpp\<close>). On
  the storage side, disk drivers sit under the block layer (\<^verbatim>\<open>kernel/block.cpp\<close>), which delays writes in a
  queue and keeps the order points between them; the partition reader (\<^verbatim>\<open>kernel/partition.cpp\<close>)
  registers slices of disks as further block devices; the disk library (\<^verbatim>\<open>libsxdisk/sxdisk.c\<close>) writes the
  tables the partition reader reads; the mount table (\<^verbatim>\<open>kernel/fs.cpp\<close>) puts volumes into the tree of
  files; and the storage calls (\<^verbatim>\<open>kernel/storage.cpp\<close>) combine these for programs.

  \<^bold>\<open>Theories.\<close>

  \<^item> \<^verbatim>\<open>Sx_Prelude\<close>: word types, alignment, table slots, rings, status codes
    (\<^verbatim>\<open>include/abi/savanxp_abi.h\<close>).

  \<^item> \<^verbatim>\<open>Physical_Memory\<close>: the region table as a list of half-open regions on 64-bit words. The lemmas
    relate every operation to the set of free addresses: an allocation removes exactly its pages, is
    found whenever one fits, and freeing it gives back the same table. The contract of a page allocator
    is the locale \<^verbatim>\<open>page_provider\<close>, which the model instantiates (\<^verbatim>\<open>pm\<close>).

  \<^item> \<^verbatim>\<open>Kernel_Heap\<close>: arenas and blocks as lists. Live blocks are disjoint and aligned, freeing removes
    exactly one, and one fresh arena satisfies a request it is sized for. Over any sequence of
    calls the ranges a client holds stay disjoint. The contract is \<^verbatim>\<open>heap_provider\<close> (\<^verbatim>\<open>kh\<close>). Sizes
    and alignments are bounded by 8 TiB, far above the memory of any machine: beyond that the sums of
    the code wrap, and what happens then is a theorem too, as is an alignment for which fresh arenas
    never suffice.

  \<^item> \<^verbatim>\<open>Kernel_Object\<close> and \<^verbatim>\<open>Kernel_Section\<close>: headers with reference counts, the tables of objects and the
    operations on them; sections over the real allocator and heap models. The pending-connection
    queue of a port meets the contract \<^verbatim>\<open>bounded_fifo\<close> (\<^verbatim>\<open>port_fifo\<close>). Polling the timers is proved
    once for any function that serves the waiters of a timer (\<^verbatim>\<open>timer_listener\<close>). Creating a
    section takes all its memory or leaves everything as it was.

  \<^item> \<^verbatim>\<open>Kernel_Handle\<close>: handle tables, pipes, handle passing and waits for several objects. Pipes refine
    a queue of bytes, also when user memory cannot be read half way; waiting for all of several
    objects consumes all or none.

  \<^item> \<^verbatim>\<open>Kernel_Wait\<close>: how threads that wait wake up: the waiters of a signalled object, timers, sleepers,
    deadlines and parked polls. \<^verbatim>\<open>wake_waiters_for_object\<close> is the instance of \<^verbatim>\<open>timer_listener\<close>
    (\<^verbatim>\<open>waker\<close>). The timer tick leaves no thread waiting that could go on.

  \<^item> \<^verbatim>\<open>Block_Layer\<close>: devices, the write-back queue, reads that see queued data, and the RAM disk. What a
    disk driver promises is the locale \<^verbatim>\<open>disk_medium\<close>; the RAM disk of \<^verbatim>\<open>kernel/ramdisk.cpp\<close> is its
    instance. Any sequence of calls refines plain arrays of sectors, and the commands that reach the
    disk keep the order and the order points the callers asked for. Three instances of
    \<^verbatim>\<open>step_relation\<close> carry an invariant through the queue's loops.

  \<^item> \<^verbatim>\<open>Sx_Bytes\<close>: little-endian fields and the CRC of \<^verbatim>\<open>include/shared/crc32.h\<close>, which detects every change of
    one byte.

  \<^item> \<^verbatim>\<open>Partition_Table\<close>: the GPT and MBR readers and the table of slices. Every partition lies inside its
    disk, whatever the disk holds.

  \<^item> \<^verbatim>\<open>Sx_Disk\<close>: the disk library over any device that keeps what is written to it
    (\<^verbatim>\<open>sxdisk_medium\<close>, which a block device provides). A table reads back as written, also by the kernel's
    own reader, and a write that is cut short leaves the old or the new table.

  \<^item> \<^verbatim>\<open>Fs_Mounts\<close>: file system drivers as records of their operations, the mount table and mount paths.
    What mounting and releasing do to the world of the drivers is proved once for any relation they
    keep (\<^verbatim>\<open>world_relation\<close>).

  \<^item> \<^verbatim>\<open>Storage\<close>: the storage calls over the mount table, the partitions and the block layer together.
    Mounted volumes never share a sector, and raw writes never touch one.

  \<^bold>\<open>Conventions.\<close> A struct is a record, a table with an in-use flag a list searched with \<^const>\<open>find_slot\<close>,
  and a function that changes state returns the new state beside its result. Addresses, sizes and counters whose
  overflow matters are words of their width; sector numbers are naturals where the code checks their
  range first. A failed call is a value (\<open>None\<close>, \<open>False\<close> or a negative status). Loops over tables are folds
  or recursive functions over the list of indices; a loop that is not structural has a termination proof or, where the code
  itself may not leave it (the layout search and the retry of the heap, the periods of a timer, the copy into a
  pipe), is a partial function whose value is \<open>None\<close> when it does not return; there is no fuel, and the
  theorems prove that a result is returned. Locks are not modelled: the kernel runs these paths without
  preemption. Text written to the console is left out.

  \<^bold>\<open>Parameters.\<close> Disk drivers (the record \<open>disk_driver\<close>), file system drivers, the calls of the VFS, user memory, the
  contents of files and the outcome of heap allocations inside the block layer are arguments of the
  definitions. What the theorems need of them are named hypotheses, and every such theorem has an
  instance with concrete functions.

  \<^bold>\<open>Not modelled.\<close> Hardware drivers (disk controllers, USB, network, sound, graphics, input): sequences of
  accesses to device registers. Virtual memory, the scheduler's choice of a thread, program loading, boot and interrupt code: processor
  state. The tree of vnodes of the VFS, the FAT driver over FatFs and the network stack. \<^verbatim>\<open>storage::snapshot\<close>, which only
  formats what the other components hold. User programs, graphics libraries, ports, third-party
  code, host tools and tests.
\<close>

end
